(* ===== verification/Prelude.thy ===== *)
theory Prelude
  imports Main "HOL-Library.Word" "HOL-Library.Multiset" "HOL-Library.Sublist"
begin

text \<open>
  Shared vocabulary of the SkyLock development: the Go integer types at their width, the
  loop idioms the Go sources repeat (remove the first match from a slice, walk a map in an
  arbitrary order, read a missing map key as the zero value), and the generic lemmas on lists,
  maps and words that the component theories use.
\<close>

section \<open>Names of the types of the Go sources\<close>

text \<open>
  A Go \<open>uint64\<close> is a 64-bit word. A \<open>[]byte\<close> and a \<open>string\<close> are both byte sequences
  and are modelled as \<^typ>\<open>string\<close> (a \<^typ>\<open>char\<close> is one byte). \<open>time.Time\<close> is the
  number of nanoseconds on an unbounded clock; \<open>time.Duration\<close> is a signed count of
  nanoseconds whose 64-bit range is written out where the code can leave it.
\<close>

type_synonym u64 = "64 word"
type_synonym bytes = string
type_synonym instant = int
type_synonym duration = int

text \<open>The collections of facts that the component proofs share.\<close>

named_theorems raft_simps \<open>unfolding rules of the Raft state accessors and transitions\<close>
named_theorems store_simps \<open>the readings of the store by the elements of a path\<close>
named_theorems session_simps \<open>unfolding rules of the session manager\<close>

section \<open>Signed 64-bit and 32-bit arithmetic on unbounded integers\<close>

definition wrap64 :: "int \<Rightarrow> int" where
  "wrap64 x = (x + 2 ^ 63) mod 2 ^ 64 - 2 ^ 63"

definition wrap32 :: "int \<Rightarrow> int" where
  "wrap32 x = (x + 2 ^ 31) mod 2 ^ 32 - 2 ^ 31"

definition max_int64 :: int where
  "max_int64 = 2 ^ 63 - 1"

definition min_int64 :: int where
  "min_int64 = - (2 ^ 63)"

definition in_int64 :: "int \<Rightarrow> bool" where
  "in_int64 x \<longleftrightarrow> min_int64 \<le> x \<and> x \<le> max_int64"

lemma wrap64_id: "in_int64 x \<Longrightarrow> wrap64 x = x"
  by (simp add: wrap64_def in_int64_def min_int64_def max_int64_def)

lemma wrap64_range: "in_int64 (wrap64 x)"
proof -
  have "(x + 2 ^ 63) mod 2 ^ 64 < (2 ^ 64 :: int)" by simp
  moreover have "0 \<le> (x + 2 ^ 63) mod (2 ^ 64 :: int)" by simp
  ultimately show ?thesis
    by (simp add: wrap64_def in_int64_def min_int64_def max_int64_def)
qed

lemma wrap32_id: "- (2 ^ 31) \<le> x \<Longrightarrow> x < 2 ^ 31 \<Longrightarrow> wrap32 x = x"
  by (simp add: wrap32_def)

section \<open>Unsigned 64-bit words\<close>

text \<open>Lengths of Go slices fit an \<open>int\<close>, so the conversion \<open>uint64(len(s))\<close> is exact.\<close>

definition max_len :: nat where
  "max_len = 2 ^ 63 - 1"

lemma max_len_less: "n \<le> max_len \<Longrightarrow> n < 2 ^ 64"
  by (simp add: max_len_def)

lemma unat_of_nat_u64 [simp]: "n < 2 ^ 64 \<Longrightarrow> unat (of_nat n :: u64) = n"
  by (simp add: unat_of_nat take_bit_nat_eq_self)

lemma unat_of_nat_len [simp]: "n \<le> max_len \<Longrightarrow> unat (of_nat n :: u64) = n"
  by (rule unat_of_nat_u64) (rule max_len_less)

lemma unat_u64_less: "unat (x :: u64) < 2 ^ 64"
  using unsigned_less [of x] by simp

lemma u64_Suc: "unat (x :: u64) + 1 < 2 ^ 64 \<Longrightarrow> unat (x + 1) = unat x + 1"
  by (simp add: unat_word_ariths)

lemma u64_pred: "(x :: u64) \<noteq> 0 \<Longrightarrow> unat (x - 1) = unat x - 1"
  by (simp add: unat_minus_one)

lemma u64_eqI: "unat x = unat y \<Longrightarrow> x = (y :: u64)"
  by (simp add: word_unat_eq_iff)

lemma of_nat_u64_inj: "m < 2 ^ 64 \<Longrightarrow> n < 2 ^ 64 \<Longrightarrow> (of_nat m = (of_nat n :: u64)) = (m = n)"
  by (metis unat_of_nat_u64)

lemma of_nat_u64_eq_0: "n < 2 ^ 64 \<Longrightarrow> ((of_nat n :: u64) = 0) = (n = 0)"
  using of_nat_u64_inj [of n 0] by simp

section \<open>Slice and map idioms\<close>

text \<open>
  \<open>for i, x := range xs { if p(x) { xs = append(xs[:i], xs[i+1:]...); break } }\<close>: the first
  element that satisfies the test is cut out of the slice.
\<close>

fun remove_first :: "('a \<Rightarrow> bool) \<Rightarrow> 'a list \<Rightarrow> 'a list" where
  "remove_first p [] = []"
| "remove_first p (x # xs) = (if p x then xs else x # remove_first p xs)"

lemma remove_first_eq_remove1: "remove_first (\<lambda>y. y = x) xs = remove1 x xs"
  by (induction xs) auto

lemma remove_first_none [simp]: "\<forall>x \<in> set xs. \<not> p x \<Longrightarrow> remove_first p xs = xs"
  by (induction xs) auto

lemma set_remove_first_subset: "set (remove_first p xs) \<subseteq> set xs"
  by (induction xs) auto

lemma distinct_remove_first: "distinct xs \<Longrightarrow> distinct (remove_first p xs)"
  using set_remove_first_subset by (induction xs) fastforce+

lemma length_remove_first:
  "length (remove_first p xs) = (if \<exists>x \<in> set xs. p x then length xs - 1 else length xs)"
  by (induction xs) (auto simp: Suc_diff_1 dest: length_pos_if_in_set)

text \<open>When at most one element matches, the loop is a filter.\<close>

lemma remove_first_filter:
  "distinct (map f xs) \<Longrightarrow> remove_first (\<lambda>x. f x = k) xs = filter (\<lambda>x. f x \<noteq> k) xs"
proof (induction xs)
  case (Cons x xs)
  show ?case
  proof (cases "f x = k")
    case True
    with Cons.prems have "\<forall>y \<in> set xs. f y \<noteq> k" by (force simp: image_iff)
    with True show ?thesis by simp
  next
    case False
    with Cons show ?thesis by simp
  qed
qed simp

text \<open>A read of a missing key of a Go map gives the zero value of the element type.\<close>

definition map_get :: "('k \<rightharpoonup> 'v :: zero) \<Rightarrow> 'k \<Rightarrow> 'v" where
  "map_get m k = (case m k of None \<Rightarrow> 0 | Some v \<Rightarrow> v)"

lemma map_get_upd [simp]: "map_get (m(k \<mapsto> v)) k' = (if k' = k then v else map_get m k')"
  by (simp add: map_get_def)

text \<open>
  The order in which \<open>range\<close> visits the keys of a Go map is unspecified. Functions that walk
  a map take the order as an argument; \<open>key_order m ks\<close> says that \<open>ks\<close> is a possible one.
\<close>

definition key_order :: "('k \<rightharpoonup> 'v) \<Rightarrow> 'k list \<Rightarrow> bool" where
  "key_order m ks \<longleftrightarrow> distinct ks \<and> set ks = dom m"

lemma key_order_finite: "key_order m ks \<Longrightarrow> finite (dom m)"
  by (metis key_order_def List.finite_set)

lemma key_order_ex: "finite (dom m) \<Longrightarrow> \<exists>ks. key_order m ks"
  by (metis finite_distinct_list key_order_def)

lemma key_order_length: "key_order m ks \<Longrightarrow> length ks = card (dom m)"
  by (metis distinct_card key_order_def)

section \<open>Transition systems\<close>

text \<open>
  A component that interleaves with others is a step relation. The locale collects what every
  such system shares: an invariant that the initial states satisfy and each step preserves
  holds in every reachable state.
\<close>

inductive reachable :: "('s \<Rightarrow> bool) \<Rightarrow> ('s \<Rightarrow> 's \<Rightarrow> bool) \<Rightarrow> 's \<Rightarrow> bool"
  for init :: "'s \<Rightarrow> bool" and step :: "'s \<Rightarrow> 's \<Rightarrow> bool" where
  reach_init: "init s \<Longrightarrow> reachable init step s"
| reach_step: "reachable init step s \<Longrightarrow> step s t \<Longrightarrow> reachable init step t"

locale transition_system =
  fixes init :: "'s \<Rightarrow> bool"
    and step :: "'s \<Rightarrow> 's \<Rightarrow> bool"
    and invar :: "'s \<Rightarrow> bool"
  assumes invar_init: "init s \<Longrightarrow> invar s"
    and invar_step: "invar s \<Longrightarrow> step s t \<Longrightarrow> invar t"
begin

lemma reachable_invar: "reachable init step s \<Longrightarrow> invar s"
  by (induction rule: reachable.induct) (auto intro: invar_init invar_step)

lemma steps_invar: "step\<^sup>*\<^sup>* s t \<Longrightarrow> invar s \<Longrightarrow> invar t"
  by (induction rule: rtranclp_induct) (auto intro: invar_step)

end

end
