(* ===== verification/GoLib.thy ===== *)
theory GoLib
  imports Prelude "HOL-Library.Char_ord" "HOL-Library.List_Lexorder"
begin

text \<open>
  The parts of Go's standard library that the SkyLock sources call: \<open>strings\<close>
  (HasPrefix, TrimPrefix, Split, Replace), \<open>sort.Strings\<close>, \<open>path\<close> (Clean, Dir, Base), the
  decoding of a string by a \<open>range\<close> loop (UTF-8, invalid bytes give U+FFFD), the conversion
  \<open>string(rune)\<close>, and \<open>time.Since\<close>. The last part gives the canonical form of a cleaned
  rooted path: the list of its components.
\<close>

section \<open>Package strings\<close>

definition strings_HasPrefix :: "string \<Rightarrow> string \<Rightarrow> bool" where
  "strings_HasPrefix s p \<longleftrightarrow> take (length p) s = p"

definition strings_TrimPrefix :: "string \<Rightarrow> string \<Rightarrow> string" where
  "strings_TrimPrefix s p = (if strings_HasPrefix s p then drop (length p) s else s)"

text \<open>\<open>strings.Split\<close> at a separator of one byte.\<close>

fun split_on :: "char \<Rightarrow> string \<Rightarrow> string list" where
  "split_on c [] = [[]]"
| "split_on c (x # xs) =
     (if x = c then [] # split_on c xs
      else (case split_on c xs of [] \<Rightarrow> [[x]] | w # ws \<Rightarrow> (x # w) # ws))"

fun join_with :: "string \<Rightarrow> string list \<Rightarrow> string" where
  "join_with sep [] = []"
| "join_with sep [w] = w"
| "join_with sep (w # ws) = w @ sep @ join_with sep ws"

text \<open>\<open>strings.Replace(s, old, new, 1)\<close>: the first occurrence only.\<close>

fun strings_Replace1 :: "string \<Rightarrow> string \<Rightarrow> string \<Rightarrow> string" where
  "strings_Replace1 [] old new = (if old = [] then new else [])"
| "strings_Replace1 (c # cs) old new =
     (if strings_HasPrefix (c # cs) old then new @ drop (length old) (c # cs)
      else c # strings_Replace1 cs old new)"

lemma HasPrefix_append [simp]: "strings_HasPrefix (p @ s) p"
  by (simp add: strings_HasPrefix_def)

lemma HasPrefix_iff: "strings_HasPrefix s p \<longleftrightarrow> (\<exists>t. s = p @ t)"
  by (metis append_eq_conv_conj strings_HasPrefix_def)

lemma TrimPrefix_append [simp]: "strings_TrimPrefix (p @ s) p = s"
  by (simp add: strings_TrimPrefix_def)

lemma split_on_nonempty [simp]: "split_on c s \<noteq> []"
  by (induction s) (auto split: list.splits)

lemma split_on_no_sep: "w \<in> set (split_on c s) \<Longrightarrow> c \<notin> set w"
  by (induction s arbitrary: w) (auto split: list.splits if_splits)

lemma split_on_word: "c \<notin> set w \<Longrightarrow> split_on c w = [w]"
  by (induction w) auto

lemma split_on_append: "c \<notin> set w \<Longrightarrow> split_on c (w @ c # s) = w # split_on c s"
  by (induction w) auto

lemma join_split: "join_with [c] (split_on c s) = s"
proof (induction s)
  case (Cons x xs)
  obtain w ws where w: "split_on c xs = w # ws"
    by (meson split_on_nonempty list.exhaust)
  with Cons show ?case by (cases ws) auto
qed simp

section \<open>Package sort\<close>

text \<open>
  \<open>sort.Strings\<close> orders strings bytewise and lexicographically, a proper prefix first: the
  order of \<open>HOL-Library.List_Lexorder\<close> over the byte order of \<open>HOL-Library.Char_ord\<close>. Equal
  strings are indistinguishable, so the result is determined although the Go sort is not stable.
\<close>

definition sort_Strings :: "string list \<Rightarrow> string list" where
  "sort_Strings xs = sort xs"

lemma sort_Strings_sorted [simp]: "sorted (sort_Strings xs)"
  by (simp add: sort_Strings_def)

lemma mset_sort_Strings [simp]: "mset (sort_Strings xs) = mset xs"
  by (simp add: sort_Strings_def)

lemma set_sort_Strings [simp]: "set (sort_Strings xs) = set xs"
  by (simp add: sort_Strings_def)

lemma length_sort_Strings [simp]: "length (sort_Strings xs) = length xs"
  by (simp add: sort_Strings_def)

lemma distinct_sort_Strings [simp]: "distinct (sort_Strings xs) = distinct xs"
  by (simp add: sort_Strings_def)

lemma sort_Strings_idem [simp]: "sort_Strings (sort_Strings xs) = sort_Strings xs"
  by (simp add: sort_Strings_def sorted_sort_id)

lemma sort_Strings_Nil_iff [simp]: "sort_Strings xs = [] \<longleftrightarrow> xs = []"
  by (metis length_0_conv length_sort_Strings)

lemma hd_sort_Strings:
  assumes "x \<in> set xs"
  shows "hd (sort_Strings xs) = x \<longleftrightarrow> (\<forall>y \<in> set xs. x \<le> y)"
proof -
  obtain z zs where z: "sort_Strings xs = z # zs"
    using assms by (metis empty_iff empty_set neq_Nil_conv sort_Strings_Nil_iff)
  then have mem: "set xs = insert z (set zs)"
    by (metis list.simps(15) set_sort_Strings)
  have "sorted (z # zs)" using z by (metis sort_Strings_sorted)
  then have "\<forall>y \<in> set xs. z \<le> y" using mem by auto
  moreover have "z \<in> set xs" using mem by simp
  ultimately show ?thesis using z assms by (metis antisym list.sel(1))
qed

section \<open>Ranging over a string: UTF-8\<close>

definition byte_at :: "string \<Rightarrow> nat \<Rightarrow> nat" where
  "byte_at s i = (if i < length s then of_char (s ! i) else 0)"

definition rune_error :: int where
  "rune_error = 65533"

text \<open>
  The first rune of a non-empty string and its width in bytes. A missing byte reads as 0,
  which is no continuation byte, so a truncated sequence is invalid as in Go.
\<close>

definition decode_rune :: "string \<Rightarrow> int \<times> nat" where
  "decode_rune s =
     (let b0 = byte_at s 0; b1 = byte_at s 1; b2 = byte_at s 2; b3 = byte_at s 3;
          cont = (\<lambda>b. 128 \<le> b \<and> b \<le> (191 :: nat))
      in if b0 < 128 then (int b0, 1)
         else if 194 \<le> b0 \<and> b0 \<le> 223 \<and> cont b1
           then (int ((b0 - 192) * 64 + (b1 - 128)), 2)
         else if 224 \<le> b0 \<and> b0 \<le> 239 \<and> cont b1 \<and> cont b2
              \<and> (b0 = 224 \<longrightarrow> 160 \<le> b1) \<and> (b0 = 237 \<longrightarrow> b1 \<le> 159)
           then (int ((b0 - 224) * 4096 + (b1 - 128) * 64 + (b2 - 128)), 3)
         else if 240 \<le> b0 \<and> b0 \<le> 244 \<and> cont b1 \<and> cont b2 \<and> cont b3
              \<and> (b0 = 240 \<longrightarrow> 144 \<le> b1) \<and> (b0 = 244 \<longrightarrow> b1 \<le> 143)
           then (int ((b0 - 240) * 262144 + (b1 - 128) * 4096 + (b2 - 128) * 64 + (b3 - 128)), 4)
         else (rune_error, 1))"

function runes :: "string \<Rightarrow> int list" where
  "runes [] = []"
| "runes (c # cs) =
     (case decode_rune (c # cs) of (r, w) \<Rightarrow> r # runes (drop (w - 1) cs))"
  by pat_completeness auto
termination
  by (relation "measure length") auto

text \<open>The conversion \<open>string(r)\<close> of a rune.\<close>

definition encode_rune :: "int \<Rightarrow> string" where
  "encode_rune r =
     (let r = (if r < 0 \<or> r > 1114111 \<or> (55296 \<le> r \<and> r \<le> 57343) then rune_error else r);
          n = nat r
      in if n < 128 then [char_of n]
         else if n < 2048 then [char_of (192 + n div 64), char_of (128 + n mod 64)]
         else if n < 65536 then
           [char_of (224 + n div 4096), char_of (128 + n div 64 mod 64), char_of (128 + n mod 64)]
         else
           [char_of (240 + n div 262144), char_of (128 + n div 4096 mod 64),
            char_of (128 + n div 64 mod 64), char_of (128 + n mod 64)])"

definition ascii :: "string \<Rightarrow> bool" where
  "ascii s \<longleftrightarrow> (\<forall>c \<in> set s. of_char c < (128 :: nat))"

lemma ascii_Nil [simp]: "ascii []"
  by (simp add: ascii_def)

lemma ascii_Cons [simp]: "ascii (c # s) \<longleftrightarrow> of_char c < (128 :: nat) \<and> ascii s"
  by (auto simp: ascii_def)

lemma ascii_append [simp]: "ascii (s @ t) \<longleftrightarrow> ascii s \<and> ascii t"
  by (auto simp: ascii_def)

lemma int_of_char [simp]: "int (of_char c) = of_char c"
  by (cases c) (simp add: of_char_def)

lemma runes_ascii: "ascii s \<Longrightarrow> runes s = map of_char s"
  by (induction s) (auto simp: decode_rune_def byte_at_def)

lemma encode_rune_ascii:
  assumes "of_char c < (128 :: nat)"
  shows "encode_rune (of_char c) = [c]"
proof -
  have i: "(of_char c :: int) = int (of_char c)" by simp
  show ?thesis using assms unfolding i by (simp add: encode_rune_def Let_def del: int_of_char)
qed

section \<open>Package path\<close>

text \<open>
  \<open>path.Clean\<close>: repeated slashes and \<open>.\<close> elements vanish, \<open>..\<close> removes the element before
  it, a \<open>..\<close> at the root vanishes, the empty result is \<open>.\<close>. The stack holds the
  elements written so far, last first.
\<close>

definition clean_step :: "bool \<Rightarrow> string list \<Rightarrow> string \<Rightarrow> string list" where
  "clean_step rooted stack c =
     (if c = '''' \<or> c = ''.'' then stack
      else if c = ''..'' then
        (case stack of
           [] \<Rightarrow> if rooted then [] else [''..'']
         | t # ts \<Rightarrow> if t = ''..'' then ''..'' # stack else ts)
      else c # stack)"

definition clean_elems :: "bool \<Rightarrow> string list \<Rightarrow> string list" where
  "clean_elems rooted cs = rev (foldl (clean_step rooted) [] cs)"

definition path_Clean :: "string \<Rightarrow> string" where
  "path_Clean p =
     (if p = '''' then ''.''
      else if hd p = CHR ''/'' then CHR ''/'' # join_with ''/'' (clean_elems True (split_on CHR ''/'' p))
      else (let q = join_with ''/'' (clean_elems False (split_on CHR ''/'' p))
            in if q = '''' then ''.'' else q))"

definition path_Dir :: "string \<Rightarrow> string" where
  "path_Dir p = path_Clean (rev (dropWhile (\<lambda>c. c \<noteq> CHR ''/'') (rev p)))"

definition path_Base :: "string \<Rightarrow> string" where
  "path_Base p =
     (if p = '''' then ''.''
      else (let q = rev (takeWhile (\<lambda>c. c \<noteq> CHR ''/'') (dropWhile (\<lambda>c. c = CHR ''/'') (rev p)))
            in if q = '''' then ''/'' else q))"

section \<open>Canonical form of cleaned rooted paths\<close>

definition good_elem :: "string \<Rightarrow> bool" where
  "good_elem c \<longleftrightarrow> c \<noteq> '''' \<and> c \<noteq> ''.'' \<and> c \<noteq> ''..'' \<and> CHR ''/'' \<notin> set c"

definition path_of :: "string list \<Rightarrow> string" where
  "path_of cs = (if cs = [] then ''/'' else concat (map (\<lambda>c. CHR ''/'' # c) cs))"

definition path_elems :: "string \<Rightarrow> string list" where
  "path_elems p = clean_elems True (split_on CHR ''/'' p)"

lemma path_of_Nil [simp]: "path_of [] = ''/''"
  by (simp add: path_of_def)

lemma path_of_not_empty [simp]: "path_of cs \<noteq> ''''"
  by (cases cs) (auto simp: path_of_def)

lemma hd_path_of [simp]: "hd (path_of cs) = CHR ''/''"
  by (cases cs) (auto simp: path_of_def)

lemma path_of_snoc: "path_of (cs @ [c]) = (if cs = [] then '''' else path_of cs) @ CHR ''/'' # c"
  by (simp add: path_of_def)

lemma path_of_join: "CHR ''/'' # join_with ''/'' cs = path_of cs"
proof (induction cs)
  case (Cons c cs)
  then show ?case by (cases cs) (auto simp: path_of_def)
qed simp

lemma path_Clean_rooted: "hd p = CHR ''/'' \<Longrightarrow> p \<noteq> '''' \<Longrightarrow> path_Clean p = path_of (path_elems p)"
  by (simp add: path_Clean_def path_of_join path_elems_def)

lemma clean_step_good:
  "list_all good_elem st \<Longrightarrow> CHR ''/'' \<notin> set c \<Longrightarrow> list_all good_elem (clean_step True st c)"
  by (auto simp: clean_step_def good_elem_def split: list.splits)

lemma foldl_clean_good:
  "\<lbrakk>list_all good_elem st; \<forall>c \<in> set cs. CHR ''/'' \<notin> set c\<rbrakk>
   \<Longrightarrow> list_all good_elem (foldl (clean_step True) st cs)"
  by (induction cs arbitrary: st) (auto simp: clean_step_good)

lemma path_elems_good [simp]: "list_all good_elem (path_elems p)"
proof -
  have "list_all good_elem (foldl (clean_step True) [] (split_on CHR ''/'' p))"
    by (rule foldl_clean_good) (auto dest: split_on_no_sep)
  then show ?thesis
    by (simp add: path_elems_def clean_elems_def list_all_iff)
qed

lemma foldl_clean_id: "list_all good_elem cs \<Longrightarrow> foldl (clean_step r) st cs = rev cs @ st"
  by (induction cs arbitrary: st) (auto simp: clean_step_def good_elem_def)

lemma clean_elems_skip: "clean_elems r ('''' # cs) = clean_elems r cs"
  by (simp add: clean_elems_def clean_step_def)

lemma split_path_of:
  assumes "list_all good_elem cs" and "cs \<noteq> []"
  shows "split_on CHR ''/'' (path_of cs) = '''' # cs"
proof -
  have "split_on CHR ''/'' (concat (map (\<lambda>c. CHR ''/'' # c) cs)) = '''' # cs"
    using assms(1)
  proof (induction cs)
    case (Cons c cs)
    then have c: "CHR ''/'' \<notin> set c" by (simp add: good_elem_def)
    show ?case
    proof (cases cs)
      case Nil
      with c show ?thesis by (simp add: split_on_word)
    next
      case (Cons d ds)
      with Cons.IH Cons.prems c show ?thesis
        using split_on_append [OF c, of "d @ concat (map (\<lambda>c. CHR ''/'' # c) ds)"]
        by simp
    qed
  qed simp
  with assms(2) show ?thesis by (simp add: path_of_def)
qed

lemma path_elems_path_of [simp]:
  assumes "list_all good_elem cs"
  shows "path_elems (path_of cs) = cs"
proof (cases "cs = []")
  case True
  then show ?thesis by (simp add: path_elems_def clean_elems_def clean_step_def)
next
  case False
  with assms show ?thesis
    by (simp add: path_elems_def split_path_of clean_elems_skip)
       (simp add: clean_elems_def foldl_clean_id)
qed

lemma path_of_inject: "list_all good_elem cs \<Longrightarrow> list_all good_elem ds \<Longrightarrow> path_of cs = path_of ds \<longleftrightarrow> cs = ds"
  by (metis path_elems_path_of)

lemma path_Clean_path_of [simp]: "list_all good_elem cs \<Longrightarrow> path_Clean (path_of cs) = path_of cs"
  by (simp add: path_Clean_rooted)

lemma takeWhile_rev_elem: "x \<notin> set c \<Longrightarrow> takeWhile (\<lambda>y. y \<noteq> x) (rev c @ x # s) = rev c"
  by (induction c rule: rev_induct) auto

lemma dropWhile_rev_elem: "x \<notin> set c \<Longrightarrow> dropWhile (\<lambda>y. y \<noteq> x) (rev c @ x # s) = x # s"
  by (induction c rule: rev_induct) auto

lemma path_elems_trailing:
  assumes "list_all good_elem cs"
  shows "path_elems ((if cs = [] then '''' else path_of cs) @ ''/'') = cs"
proof (cases "cs = []")
  case True
  then show ?thesis by (simp add: path_elems_def clean_elems_def clean_step_def)
next
  case False
  have "split_on CHR ''/'' (path_of cs @ ''/'') = ('''' # cs) @ ['''']"
    using assms False
  proof (induction cs rule: rev_induct)
    case (snoc c cs)
    then have c: "CHR ''/'' \<notin> set c" by (simp add: good_elem_def)
    have ap: "split_on CHR ''/'' (s @ CHR ''/'' # t) = split_on CHR ''/'' s @ split_on CHR ''/'' t" for s t
      by (induction s) (auto split: list.splits simp: append_eq_Cons_conv)
    show ?case
      using snoc.prems ap [of "path_of (cs @ [c])" "''''"] split_path_of [of "cs @ [c]"]
      by simp
  qed simp
  with False assms show ?thesis
    by (simp add: path_elems_def clean_elems_skip)
       (simp add: clean_elems_def foldl_clean_id clean_step_def)
qed

lemma path_Dir_snoc:
  assumes "list_all good_elem (cs @ [c])"
  shows "path_Dir (path_of (cs @ [c])) = path_of cs"
proof -
  let ?d = "(if cs = [] then '''' else path_of cs) @ ''/''"
  from assms have c: "CHR ''/'' \<notin> set c" and cs: "list_all good_elem cs"
    by (auto simp: good_elem_def)
  have "rev (dropWhile (\<lambda>y. y \<noteq> CHR ''/'') (rev (path_of (cs @ [c])))) = ?d"
    by (simp add: path_of_snoc dropWhile_rev_elem c)
  moreover have "hd ?d = CHR ''/''" and "?d \<noteq> ''''" by auto
  ultimately have "path_Dir (path_of (cs @ [c])) = path_of (path_elems ?d)"
    by (metis path_Dir_def path_Clean_rooted)
  then show ?thesis by (simp only: path_elems_trailing [OF cs])
qed

lemma path_Base_snoc:
  assumes "good_elem c"
  shows "path_Base (path_of (cs @ [c])) = c"
proof -
  from assms have c: "CHR ''/'' \<notin> set c" "c \<noteq> ''''" by (auto simp: good_elem_def)
  then have "dropWhile (\<lambda>y. y = CHR ''/'') (rev c @ CHR ''/'' # s) = rev c @ CHR ''/'' # s" for s
    by (cases c rule: rev_cases) auto
  with c show ?thesis
    by (simp add: path_Base_def path_of_snoc takeWhile_rev_elem)
qed

section \<open>Package time\<close>

text \<open>
  \<open>time.Since(t)\<close> saturates at the bounds of \<open>Duration\<close>. The clock reading is an argument of
  every definition whose source reads the clock.
\<close>

definition time_Since :: "instant \<Rightarrow> instant \<Rightarrow> duration" where
  "time_Since now t = max min_int64 (min max_int64 (now - t))"

text \<open>The zero value of \<open>time.Time\<close>.\<close>

definition zero_time :: instant where "zero_time = 0"

definition Nanosecond :: duration where "Nanosecond = 1"
definition Millisecond :: duration where "Millisecond = 1000000"
definition Second :: duration where "Second = 1000000000"
definition Minute :: duration where "Minute = 60 * Second"

lemma time_Since_mono: "now \<le> now' \<Longrightarrow> time_Since now t \<le> time_Since now' t"
  by (simp add: time_Since_def)

lemma time_Since_greater:
  assumes "in_int64 d"
  shows "time_Since now t > d \<longleftrightarrow> now - t > d \<and> d < max_int64"
  using assms by (auto simp: time_Since_def in_int64_def)

end
