(* ===== verification/RaftLog.thy ===== *)
theory RaftLog
  imports GoLib
begin

text \<open>
  The append-only log of \<open>internal/raft/log.go\<close>: entries, the log itself and its nine
  operations. Indices are 1-based \<open>uint64\<close> values; a slice length never exceeds the largest
  \<open>int\<close>, which \<open>log_wf\<close> records together with the numbering of the entries.
\<close>

section \<open>Data\<close>

text \<open>\<open>LogEntryType\<close> is a Go \<open>int\<close> with three named values; the wire can carry any other.\<close>

type_synonym LogEntryType = "64 word"

definition LogEntryCommand :: LogEntryType where "LogEntryCommand = 0"
definition LogEntryConfig :: LogEntryType where "LogEntryConfig = 1"
definition LogEntryNoop :: LogEntryType where "LogEntryNoop = 2"

record LogEntry =
  le_Index :: u64
  le_Term :: u64
  le_Type :: LogEntryType
  le_Command :: bytes

record Log =
  log_entries :: "LogEntry list"

section \<open>Operations\<close>

definition NewLog :: Log where
  "NewLog = \<lparr>log_entries = []\<rparr>"

definition Log_Append :: "Log \<Rightarrow> LogEntry \<Rightarrow> Log \<times> u64" where
  "Log_Append l entry =
     (let e = entry\<lparr>le_Index := of_nat (length (log_entries l) + 1)\<rparr>
      in (l\<lparr>log_entries := log_entries l @ [e]\<rparr>, le_Index e))"

text \<open>The loop that appends: \<open>i\<close> is the position in the argument slice.\<close>

fun append_loop :: "u64 \<Rightarrow> nat \<Rightarrow> LogEntry list \<Rightarrow> LogEntry list \<Rightarrow> LogEntry list" where
  "append_loop prevIndex i [] acc = acc"
| "append_loop prevIndex i (entry # es) acc =
     append_loop prevIndex (Suc i) es (acc @ [entry\<lparr>le_Index := prevIndex + of_nat i + 1\<rparr>])"

definition Log_AppendEntries :: "Log \<Rightarrow> u64 \<Rightarrow> LogEntry list \<Rightarrow> Log \<times> bool" where
  "Log_AppendEntries l prevIndex es =
     (if prevIndex > of_nat (length (log_entries l)) then (l, False)
      else (l\<lparr>log_entries := append_loop prevIndex 0 es (take (unat prevIndex) (log_entries l))\<rparr>, True))"

definition Log_Get :: "Log \<Rightarrow> u64 \<Rightarrow> LogEntry option" where
  "Log_Get l index =
     (if index = 0 \<or> index > of_nat (length (log_entries l)) then None
      else Some (log_entries l ! unat (index - 1)))"

text \<open>\<open>None\<close> is the nil slice of an invalid range.\<close>

definition Log_GetRange :: "Log \<Rightarrow> u64 \<Rightarrow> u64 \<Rightarrow> LogEntry list option" where
  "Log_GetRange l start end' =
     (if start = 0 \<or> start > end' \<or> start > of_nat (length (log_entries l)) then None
      else (let e = (if end' > of_nat (length (log_entries l)) then of_nat (length (log_entries l)) else end')
            in Some (take (unat (e - start + 1)) (drop (unat (start - 1)) (log_entries l)))))"

definition Log_LastIndex :: "Log \<Rightarrow> u64" where
  "Log_LastIndex l = of_nat (length (log_entries l))"

definition Log_LastTerm :: "Log \<Rightarrow> u64" where
  "Log_LastTerm l =
     (if length (log_entries l) = 0 then 0
      else le_Term (log_entries l ! (length (log_entries l) - 1)))"

definition Log_TermAt :: "Log \<Rightarrow> u64 \<Rightarrow> u64" where
  "Log_TermAt l index =
     (if index = 0 \<or> index > of_nat (length (log_entries l)) then 0
      else le_Term (log_entries l ! unat (index - 1)))"

definition Log_Length :: "Log \<Rightarrow> nat" where
  "Log_Length l = length (log_entries l)"

text \<open>The nil slice and the empty slice are not distinguished: the callers only take \<open>len\<close>.\<close>

definition Log_EntriesAfter :: "Log \<Rightarrow> u64 \<Rightarrow> LogEntry list" where
  "Log_EntriesAfter l index =
     (if index \<ge> of_nat (length (log_entries l)) then []
      else drop (unat index) (log_entries l))"

section \<open>Well-formed logs\<close>

text \<open>Entry number \<open>i\<close> carries the index \<open>i + 1\<close>, and the slice fits the address space.\<close>

definition log_wf :: "Log \<Rightarrow> bool" where
  "log_wf l \<longleftrightarrow> length (log_entries l) \<le> max_len \<and>
     (\<forall>i < length (log_entries l). le_Index (log_entries l ! i) = of_nat (Suc i))"

lemma log_wf_len: "log_wf l \<Longrightarrow> length (log_entries l) \<le> max_len"
  by (simp add: log_wf_def)

lemma log_wf_index: "log_wf l \<Longrightarrow> i < length (log_entries l) \<Longrightarrow> le_Index (log_entries l ! i) = of_nat (Suc i)"
  by (simp add: log_wf_def)

lemma log_wf_NewLog [simp]: "log_wf NewLog"
  by (simp add: log_wf_def NewLog_def)

text \<open>Comparisons of a \<open>uint64\<close> with the length of the log, in natural numbers.\<close>

lemma len_less_word:
  "length xs \<le> max_len \<Longrightarrow> (i :: u64) > of_nat (length xs) \<longleftrightarrow> unat i > length xs"
  by (simp add: word_less_nat_alt)

lemma len_le_word:
  "length xs \<le> max_len \<Longrightarrow> (i :: u64) \<ge> of_nat (length xs) \<longleftrightarrow> unat i \<ge> length xs"
  by (simp add: word_le_nat_alt)

lemmas log_word = len_less_word [OF log_wf_len] len_le_word [OF log_wf_len]

lemma Log_TermAt_wf:
  "log_wf l \<Longrightarrow> Log_TermAt l i =
     (if i = 0 \<or> unat i > length (log_entries l) then 0 else le_Term (log_entries l ! (unat i - 1)))"
  by (auto simp: Log_TermAt_def log_word u64_pred)

lemma Log_Get_wf:
  "log_wf l \<Longrightarrow> Log_Get l i =
     (if i = 0 \<or> unat i > length (log_entries l) then None else Some (log_entries l ! (unat i - 1)))"
  by (auto simp: Log_Get_def log_word u64_pred)

lemma Log_EntriesAfter_wf: "log_wf l \<Longrightarrow> Log_EntriesAfter l i = drop (unat i) (log_entries l)"
  by (auto simp: Log_EntriesAfter_def log_word)

lemma unat_LastIndex: "log_wf l \<Longrightarrow> unat (Log_LastIndex l) = length (log_entries l)"
  by (simp add: Log_LastIndex_def log_wf_len)

lemma append_loop_acc: "append_loop p i es (a @ acc) = a @ append_loop p i es acc"
  by (induction es arbitrary: i acc) auto

lemma append_loop_map:
  "append_loop p i es acc =
     acc @ map (\<lambda>(j, e). e\<lparr>le_Index := p + of_nat j + 1\<rparr>) (zip [i..<i + length es] es)"
proof (induction es arbitrary: i acc)
  case (Cons e es)
  have "[i..<i + length (e # es)] = i # [Suc i..<Suc i + length es]"
    using upt_conv_Cons [of i "i + length (e # es)"] by simp
  with Cons show ?case by simp
qed simp

lemma length_append_loop [simp]: "length (append_loop p i es acc) = length acc + length es"
  by (simp add: append_loop_map)

text \<open>Entries that already carry the right indices are stored unchanged.\<close>

lemma append_loop_numbered:
  "\<forall>j < length es. le_Index (es ! j) = p + of_nat (i + j) + 1 \<Longrightarrow> append_loop p i es acc = acc @ es"
proof (induction es arbitrary: i acc)
  case (Cons e es)
  have "le_Index e = p + of_nat i + 1" using Cons.prems by (metis add_0_right length_greater_0_conv list.distinct(1) nth_Cons_0)
  then have "e\<lparr>le_Index := p + of_nat i + 1\<rparr> = e" by (cases e) simp
  moreover have "\<forall>j < length es. le_Index (es ! j) = p + of_nat (Suc i + j) + 1"
    using Cons.prems by (metis Suc_less_eq add_Suc_shift length_Cons nth_Cons_Suc)
  ultimately show ?case using Cons.IH [of "Suc i"] by simp
qed simp

lemma append_loop_index:
  assumes "k < length es"
  shows "le_Index (append_loop p i es acc ! (length acc + k)) = p + of_nat (i + k) + 1"
  using assms by (simp add: append_loop_map nth_append)

section \<open>Invariant and functional behaviour\<close>

lemma Log_Append_wf:
  assumes "log_wf l" and "length (log_entries l) < max_len"
  shows "log_wf (fst (Log_Append l e))"
  using assms by (auto simp: log_wf_def Log_Append_def nth_append less_Suc_eq)

lemma Log_AppendEntries_wf:
  assumes wf: "log_wf l" and len: "unat p + length es \<le> max_len"
  shows "log_wf (fst (Log_AppendEntries l p es))"
proof (cases "unat p > length (log_entries l)")
  case True
  with wf show ?thesis by (simp add: Log_AppendEntries_def log_word)
next
  case False
  let ?t = "take (unat p) (log_entries l)"
  have t: "length ?t = unat p" using False by simp
  have "le_Index (append_loop p 0 es ?t ! i) = of_nat (Suc i)" if i: "i < unat p + length es" for i
  proof (cases "i < unat p")
    case True
    with wf False t show ?thesis
      by (simp add: append_loop_map nth_append log_wf_index)
  next
    case nlt: False
    then obtain k where ik: "i = unat p + k" and k: "k < length es"
      using i by (metis add_less_cancel_left le_Suc_ex not_less)
    have "le_Index (append_loop p 0 es ?t ! i) = p + of_nat (0 + k) + 1"
      using append_loop_index [OF k, of p 0 ?t] unfolding t ik .
    also have "\<dots> = of_nat (Suc i)" by (simp add: ik)
    finally show ?thesis .
  qed
  with False wf len t show ?thesis
    by (simp add: Log_AppendEntries_def log_word log_wf_def)
qed

text \<open>The index that \<open>Append\<close> returns finds the entry, and nothing before it moves.\<close>

lemma Log_Append_Get:
  assumes "log_wf l" and "length (log_entries l) < max_len"
  shows "Log_Get (fst (Log_Append l e)) (snd (Log_Append l e))
           = Some (e\<lparr>le_Index := snd (Log_Append l e)\<rparr>)"
    and "i \<le> Log_LastIndex l \<Longrightarrow> Log_Get (fst (Log_Append l e)) i = Log_Get l i"
proof -
  let ?n = "length (log_entries l)"
  have n: "Suc ?n \<le> max_len" using assms by simp
  have u: "unat (of_nat (Suc ?n) :: u64) = Suc ?n" by (rule unat_of_nat_len [OF n])
  have nz: "(of_nat (Suc ?n) :: u64) \<noteq> 0" using u by (metis nat.distinct(1) unat_0)
  note wf' = Log_Append_wf [OF assms, of e]
  show "Log_Get (fst (Log_Append l e)) (snd (Log_Append l e)) = Some (e\<lparr>le_Index := snd (Log_Append l e)\<rparr>)"
    unfolding Log_Get_wf [OF wf'] using u nz by (simp add: Log_Append_def Let_def)
  show "Log_Get (fst (Log_Append l e)) i = Log_Get l i" if "i \<le> Log_LastIndex l"
  proof -
    have "unat i \<le> ?n" using that assms(1) by (simp add: word_le_nat_alt unat_LastIndex)
    moreover have "unat i - 1 < ?n" if "i \<noteq> 0"
      using calculation that by (metis One_nat_def Suc_pred le_imp_less_Suc less_Suc_eq_le not_less unat_gt_0)
    ultimately show ?thesis
      unfolding Log_Get_wf [OF wf'] Log_Get_wf [OF assms(1)]
      by (auto simp: Log_Append_def nth_append Let_def)
  qed
qed

text \<open>
  Replication: a follower that agrees with the leader up to \<open>p\<close> and stores what the leader
  holds after \<open>p\<close> ends with the leader's log.
\<close>

lemma Log_AppendEntries_replicates:
  assumes wl: "log_wf leader" and wf: "log_wf follower"
    and p: "unat p \<le> length (log_entries leader)"
    and agree: "take (unat p) (log_entries follower) = take (unat p) (log_entries leader)"
    and has: "unat p \<le> length (log_entries follower)"
  shows "Log_AppendEntries follower p (Log_EntriesAfter leader p) = (leader, True)"
proof -
  let ?es = "drop (unat p) (log_entries leader)"
  have "le_Index (?es ! j) = p + of_nat (0 + j) + 1" if "j < length ?es" for j
    using that log_wf_index [OF wl, of "unat p + j"] by simp
  then have "append_loop p 0 ?es (take (unat p) (log_entries follower)) = log_entries leader"
    using agree by (simp add: append_loop_numbered)
  with has wl wf show ?thesis
    by (simp add: Log_AppendEntries_def Log_EntriesAfter_wf log_word)
qed

lemma Log_GetRange_wf:
  assumes wf: "log_wf l" and s: "start \<noteq> 0" "start \<le> end'" "unat start \<le> length (log_entries l)"
  shows "Log_GetRange l start end' =
    Some (map (\<lambda>i. log_entries l ! (i - 1)) [unat start ..< Suc (min (unat end') (length (log_entries l)))])"
proof -
  let ?n = "length (log_entries l)"
  define e where "e = (if end' > of_nat ?n then of_nat ?n else end')"
  have e: "unat e = min (unat end') ?n"
    using wf by (auto simp: e_def log_word log_wf_len)
  have se: "unat start \<le> unat e" using s e by (simp add: word_le_nat_alt)
  have elen: "unat e \<le> ?n" using e by simp
  have "unat (e - start) = unat e - unat start" using se by (simp add: unat_sub word_le_nat_alt)
  moreover have "unat e - unat start + 1 < 2 ^ 64"
    using elen log_wf_len [OF wf] by (simp add: max_len_def)
  ultimately have cnt: "unat (e - start + 1) = unat e - unat start + 1"
    by (metis u64_Suc)
  have st: "unat (start - 1) = unat start - 1" using s by (simp add: u64_pred)
  have s1: "1 \<le> unat start" using s(1) by (simp add: unat_gt_0 Suc_leI)
  have "take (unat (e - start + 1)) (drop (unat (start - 1)) (log_entries l))
      = map (\<lambda>i. log_entries l ! (i - 1)) [unat start ..< Suc (unat e)]" (is "?A = ?B")
  proof (rule nth_equalityI)
    show "length ?A = length ?B" using cnt st se elen s1 by simp
    show "?A ! i = ?B ! i" if "i < length ?A" for i
      using that cnt st se elen s1 by (simp add: nth_upt del: upt_Suc)
  qed
  moreover have "Log_GetRange l start end' =
      Some (take (unat (e - start + 1)) (drop (unat (start - 1)) (log_entries l)))"
    using s wf by (auto simp: Log_GetRange_def log_word e_def Let_def)
  ultimately show ?thesis by (simp add: e del: upt_Suc)
qed

end
