(* ===== verification/RaftState.thy ===== *)
theory RaftState
  imports RaftLog
begin

text \<open>
  The state of a Raft node, \<open>internal/raft/state.go\<close>: the record, its accessors and the three
  role transitions. Every method runs under the state's own mutex, so each is one atomic
  function. A method that reads the clock takes the reading as its first argument.
\<close>

section \<open>Data\<close>

datatype NodeState = Follower | Candidate | Leader

fun NodeState_String :: "NodeState \<Rightarrow> string" where
  "NodeState_String Follower = ''Follower''"
| "NodeState_String Candidate = ''Candidate''"
| "NodeState_String Leader = ''Leader''"

record State =
  currentTerm :: u64
  votedFor :: string
  st_log :: Log
  st_state :: NodeState
  leaderID :: string
  commitIndex :: u64
  lastApplied :: u64
  nextIndex :: "string \<rightharpoonup> u64"
  matchIndex :: "string \<rightharpoonup> u64"
  lastHeartbeat :: instant

definition NewState :: State where
  "NewState =
     \<lparr>currentTerm = 0, votedFor = '''', st_log = NewLog, st_state = Follower, leaderID = '''',
      commitIndex = 0, lastApplied = 0, nextIndex = Map.empty, matchIndex = Map.empty,
      lastHeartbeat = zero_time\<rparr>"

section \<open>Accessors\<close>

definition State_CurrentTerm :: "State \<Rightarrow> u64" where
  [raft_simps]: "State_CurrentTerm s = currentTerm s"

definition State_SetCurrentTerm :: "u64 \<Rightarrow> State \<Rightarrow> State" where
  [raft_simps]: "State_SetCurrentTerm term s = s\<lparr>currentTerm := term, votedFor := ''''\<rparr>"

definition State_IncrementTerm :: "State \<Rightarrow> State \<times> u64" where
  [raft_simps]: "State_IncrementTerm s =
     (let s' = s\<lparr>currentTerm := currentTerm s + 1, votedFor := ''''\<rparr> in (s', currentTerm s'))"

definition State_VotedFor :: "State \<Rightarrow> string" where
  [raft_simps]: "State_VotedFor s = votedFor s"

definition State_SetVotedFor :: "string \<Rightarrow> State \<Rightarrow> State" where
  [raft_simps]: "State_SetVotedFor nodeID s = s\<lparr>votedFor := nodeID\<rparr>"

definition State_GetState :: "State \<Rightarrow> NodeState" where
  [raft_simps]: "State_GetState s = st_state s"

definition State_SetState :: "NodeState \<Rightarrow> State \<Rightarrow> State" where
  [raft_simps]: "State_SetState st s = s\<lparr>st_state := st\<rparr>"

definition State_LeaderID :: "State \<Rightarrow> string" where
  [raft_simps]: "State_LeaderID s = leaderID s"

definition State_SetLeaderID :: "string \<Rightarrow> State \<Rightarrow> State" where
  [raft_simps]: "State_SetLeaderID i s = s\<lparr>leaderID := i\<rparr>"

definition State_CommitIndex :: "State \<Rightarrow> u64" where
  [raft_simps]: "State_CommitIndex s = commitIndex s"

definition State_SetCommitIndex :: "u64 \<Rightarrow> State \<Rightarrow> State" where
  [raft_simps]: "State_SetCommitIndex index s = s\<lparr>commitIndex := index\<rparr>"

definition State_LastApplied :: "State \<Rightarrow> u64" where
  [raft_simps]: "State_LastApplied s = lastApplied s"

definition State_SetLastApplied :: "u64 \<Rightarrow> State \<Rightarrow> State" where
  [raft_simps]: "State_SetLastApplied index s = s\<lparr>lastApplied := index\<rparr>"

definition State_LastHeartbeat :: "State \<Rightarrow> instant" where
  [raft_simps]: "State_LastHeartbeat s = lastHeartbeat s"

definition State_UpdateHeartbeat :: "instant \<Rightarrow> State \<Rightarrow> State" where
  [raft_simps]: "State_UpdateHeartbeat now s = s\<lparr>lastHeartbeat := now\<rparr>"

definition State_GetLog :: "State \<Rightarrow> Log" where
  [raft_simps]: "State_GetLog s = st_log s"

section \<open>Role transitions\<close>

definition State_BecomeFollower :: "instant \<Rightarrow> u64 \<Rightarrow> string \<Rightarrow> State \<Rightarrow> State" where
  [raft_simps]: "State_BecomeFollower now term lid s =
     s\<lparr>st_state := Follower, currentTerm := term, leaderID := lid, votedFor := '''',
       lastHeartbeat := now\<rparr>"

definition State_BecomeCandidate :: "State \<Rightarrow> State \<times> u64" where
  [raft_simps]: "State_BecomeCandidate s =
     (let s' = s\<lparr>st_state := Candidate, currentTerm := currentTerm s + 1, leaderID := ''''\<rparr>
      in (s', currentTerm s'))"

definition State_BecomeLeader :: "string \<Rightarrow> string list \<Rightarrow> State \<Rightarrow> State" where
  "State_BecomeLeader nodeID peers s =
     (let s1 = s\<lparr>st_state := Leader, leaderID := nodeID\<rparr>;
          lastLogIndex = Log_LastIndex (st_log s1)
      in foldl (\<lambda>t peer. t\<lparr>nextIndex := (nextIndex t)(peer \<mapsto> lastLogIndex + 1),
                           matchIndex := (matchIndex t)(peer \<mapsto> 0)\<rparr>) s1 peers)"

section \<open>Lemmas\<close>

lemma leader_loop:
  "foldl (\<lambda>t peer. t\<lparr>nextIndex := (nextIndex t)(peer \<mapsto> a), matchIndex := (matchIndex t)(peer \<mapsto> b)\<rparr>) s ps
   = s\<lparr>nextIndex := (\<lambda>p. if p \<in> set ps then Some a else nextIndex s p),
       matchIndex := (\<lambda>p. if p \<in> set ps then Some b else matchIndex s p)\<rparr>"
  by (induction ps arbitrary: s) (auto simp: fun_eq_iff intro!: State.equality)

lemma BecomeLeader_eq [raft_simps]:
  "State_BecomeLeader nid ps s =
     s\<lparr>st_state := Leader, leaderID := nid,
       nextIndex := (\<lambda>p. if p \<in> set ps then Some (Log_LastIndex (st_log s) + 1) else nextIndex s p),
       matchIndex := (\<lambda>p. if p \<in> set ps then Some 0 else matchIndex s p)\<rparr>"
  by (simp add: State_BecomeLeader_def leader_loop Let_def cong: if_cong)

text \<open>No transition touches the log, the commit index or what has been applied.\<close>

lemma transitions_keep_log:
  "st_log (State_BecomeFollower now t l s) = st_log s"
  "st_log (fst (State_BecomeCandidate s)) = st_log s"
  "st_log (State_BecomeLeader nid ps s) = st_log s"
  "commitIndex (State_BecomeFollower now t l s) = commitIndex s"
  "commitIndex (fst (State_BecomeCandidate s)) = commitIndex s"
  "commitIndex (State_BecomeLeader nid ps s) = commitIndex s"
  "lastApplied (State_BecomeFollower now t l s) = lastApplied s"
  "lastApplied (fst (State_BecomeCandidate s)) = lastApplied s"
  "lastApplied (State_BecomeLeader nid ps s) = lastApplied s"
  by (simp_all add: raft_simps Let_def)

text \<open>A state is well-formed when its log is.\<close>

definition state_wf :: "State \<Rightarrow> bool" where
  "state_wf s \<longleftrightarrow> log_wf (st_log s)"

lemma state_wf_log [dest]: "state_wf s \<Longrightarrow> log_wf (st_log s)"
  by (simp add: state_wf_def)

lemma state_wf_NewState [simp]: "state_wf NewState"
  by (simp add: state_wf_def NewState_def)

end
