(* ===== verification/Config.thy ===== *)
theory Config
  imports GoLib
begin

text \<open>
  \<open>internal/config/config.go\<close>: the configuration records, the defaults, and \<open>Load\<close>. Reading
  and decoding the file is the viper package, which is an argument of \<open>Load\<close>.
\<close>

record ClusterConfig =
  NodeID :: string
  Peers :: "string list"

record ServerConfig =
  GRPCPort :: int
  HTTPPort :: int

record RaftConfig =
  ElectionTimeoutMin :: duration
  ElectionTimeoutMax :: duration
  HeartbeatInterval :: duration

record SessionConfig =
  DefaultTTL :: duration
  MaxTTL :: duration

record StorageConfig =
  DataDir :: string
  WALEnabled :: bool
  SnapshotInterval :: duration

record Config =
  Cluster :: ClusterConfig
  Server :: ServerConfig
  Raft :: RaftConfig
  SessionCfg :: SessionConfig
  Storage :: StorageConfig

definition DefaultConfig :: Config where
  "DefaultConfig =
     \<lparr>Cluster = \<lparr>NodeID = ''node-1'', Peers = []\<rparr>,
      Server = \<lparr>GRPCPort = 5001, HTTPPort = 8080\<rparr>,
      Raft = \<lparr>ElectionTimeoutMin = 150 * Millisecond,
              ElectionTimeoutMax = 300 * Millisecond,
              HeartbeatInterval = 50 * Millisecond\<rparr>,
      SessionCfg = \<lparr>DefaultTTL = 10 * Second, MaxTTL = 60 * Second\<rparr>,
      Storage = \<lparr>DataDir = ''./data'', WALEnabled = False, SnapshotInterval = 5 * Minute\<rparr>\<rparr>"

text \<open>
  The two viper calls: \<open>readInConfig\<close> reads the named file, \<open>unmarshal\<close> overwrites the fields
  of the given configuration that the file sets.
\<close>

definition Load ::
  "(string \<Rightarrow> 'e + 'raw) \<Rightarrow> ('raw \<Rightarrow> Config \<Rightarrow> 'e + Config) \<Rightarrow> string \<Rightarrow> 'e + Config" where
  "Load readInConfig unmarshal configPath =
     (let cfg = DefaultConfig
      in if configPath \<noteq> '''' then
           (case readInConfig configPath of
              Inl err \<Rightarrow> Inl err
            | Inr raw \<Rightarrow> (case unmarshal raw cfg of Inl err \<Rightarrow> Inl err | Inr cfg' \<Rightarrow> Inr cfg'))
         else Inr cfg)"

text \<open>
  What the other components need of a configuration: an election timeout interval that
  \<open>rand.Int63n\<close> accepts, and session lifetimes that are positive and ordered.
\<close>

definition raft_config_ok :: "RaftConfig \<Rightarrow> bool" where
  "raft_config_ok c \<longleftrightarrow> 0 < HeartbeatInterval c \<and> HeartbeatInterval c < ElectionTimeoutMin c \<and>
     ElectionTimeoutMin c < ElectionTimeoutMax c \<and> ElectionTimeoutMax c \<le> max_int64"

definition session_config_ok :: "SessionConfig \<Rightarrow> bool" where
  "session_config_ok c \<longleftrightarrow> 0 < DefaultTTL c \<and> DefaultTTL c \<le> MaxTTL c \<and> MaxTTL c \<le> max_int64"

lemma DefaultConfig_raft_ok: "raft_config_ok (Raft DefaultConfig)"
  by (simp add: raft_config_ok_def DefaultConfig_def Millisecond_def max_int64_def)

lemma DefaultConfig_session_ok: "session_config_ok (SessionCfg DefaultConfig)"
  by (simp add: session_config_ok_def DefaultConfig_def Second_def max_int64_def)

lemma Load_no_file: "Load rd um '''' = Inr DefaultConfig"
  by (simp add: Load_def)

end
