(* ===== verification/RaftNode.thy ===== *)
theory RaftNode
  imports RaftState Config
begin

text \<open>
  The Raft node, \<open>internal/raft/node.go\<close> and \<open>internal/raft/errors.go\<close>: message types, timers,
  the RPC handlers, the candidate, leader and apply loops.

  The handlers run under the node's mutex and are functions of the whole node. The loops
  interleave with them, so each loop is given as the atomic pieces between two blocking points
  (a \<open>select\<close>, an RPC), plus the composition of the pieces for a run that nothing interrupts.
  A value \<open>None\<close> of type option is a panic of the Go code: the only one is \<open>rand.Int63n\<close> with
  an empty interval. Clock readings and random draws are arguments.
\<close>

section \<open>Messages and errors\<close>

record VoteRequest =
  vq_Term :: u64
  vq_CandidateID :: string
  vq_LastLogIndex :: u64
  vq_LastLogTerm :: u64

record VoteResponse =
  vr_Term :: u64
  vr_VoteGranted :: bool

record AppendEntriesRequest =
  aq_Term :: u64
  aq_LeaderID :: string
  aq_PrevLogIndex :: u64
  aq_PrevLogTerm :: u64
  aq_Entries :: "LogEntry list"
  aq_LeaderCommit :: u64

record AppendEntriesResponse =
  ar_Term :: u64
  ar_Success :: bool

datatype raft_error = ErrNotLeader | ErrLeaderUnknown | ErrTimeout

section \<open>Timers\<close>

text \<open>
  A \<open>*time.Timer\<close> is an index into the list of timers allocated so far, since the code
  replaces the timer object while other goroutines may wait on its channel. A timer that is
  stopped before it fires never sends on its channel.
\<close>

record Timer =
  tm_deadline :: instant
  tm_active :: bool
  tm_fired :: bool

definition Timer_Stop :: "Timer \<Rightarrow> Timer" where
  [raft_simps]: "Timer_Stop t = t\<lparr>tm_active := False\<rparr>"

definition NewTimer :: "instant \<Rightarrow> duration \<Rightarrow> Timer" where
  [raft_simps]: "NewTimer now d = \<lparr>tm_deadline = now + d, tm_active = True, tm_fired = False\<rparr>"

text \<open>The runtime delivers the tick of every running timer whose deadline has passed.\<close>

definition Timer_tick :: "instant \<Rightarrow> Timer \<Rightarrow> Timer" where
  [raft_simps]: "Timer_tick now t =
     (if tm_active t \<and> tm_deadline t \<le> now then t\<lparr>tm_active := False, tm_fired := True\<rparr> else t)"

section \<open>The node\<close>

text \<open>
  \<open>commitCh\<close> has a buffer of one, so it is the flag whether a signal is pending; \<open>stopCh\<close> is
  closed once, so it is a flag too. The state machine's type is the parameter of the record.
\<close>

record 'm Node =
  nd_id :: string
  nd_peers :: "string list"
  nd_state :: State
  nd_config :: RaftConfig
  nd_stopped :: bool
  nd_commitCh :: bool
  nd_timers :: "Timer list"
  nd_electionTimer :: "nat option"
  nd_heartbeatTimer :: "nat option"
  nd_applyFunc :: "(LogEntry \<Rightarrow> 'm \<Rightarrow> 'm \<times> bool) option"

definition NewNode :: "string \<Rightarrow> string list \<Rightarrow> RaftConfig \<Rightarrow> 'm Node" where
  "NewNode i ps cfg =
     \<lparr>nd_id = i, nd_peers = ps, nd_state = NewState, nd_config = cfg, nd_stopped = False,
      nd_commitCh = False, nd_timers = [], nd_electionTimer = None, nd_heartbeatTimer = None,
      nd_applyFunc = None\<rparr>"

definition Node_SetApplyFunc :: "(LogEntry \<Rightarrow> 'm \<Rightarrow> 'm \<times> bool) \<Rightarrow> 'm Node \<Rightarrow> 'm Node" where
  "Node_SetApplyFunc f n = n\<lparr>nd_applyFunc := Some f\<rparr>"

definition upd_state :: "(State \<Rightarrow> State) \<Rightarrow> 'm Node \<Rightarrow> 'm Node" where
  [raft_simps]: "upd_state f n = n\<lparr>nd_state := f (nd_state n)\<rparr>"

definition stop_timer :: "nat option \<Rightarrow> 'm Node \<Rightarrow> 'm Node" where
  "stop_timer t n =
     (case t of None \<Rightarrow> n
      | Some i \<Rightarrow> n\<lparr>nd_timers := (nd_timers n)[i := Timer_Stop (nd_timers n ! i)]\<rparr>)"

text \<open>\<open>rand.Int63n(n)\<close> with the random source's next value: a panic unless \<open>n\<close> is positive.\<close>

definition rand_Int63n :: "nat \<Rightarrow> int \<Rightarrow> int option" where
  "rand_Int63n rnd k = (if k \<le> 0 then None else Some (int rnd mod k))"

definition resetElectionTimer :: "instant \<Rightarrow> nat \<Rightarrow> 'm Node \<Rightarrow> 'm Node option" where
  "resetElectionTimer now rnd n =
     (let n1 = stop_timer (nd_electionTimer n) n;
          mn = ElectionTimeoutMin (nd_config n1);
          mx = ElectionTimeoutMax (nd_config n1)
      in case rand_Int63n rnd (wrap64 (mx - mn)) of
           None \<Rightarrow> None
         | Some r \<Rightarrow>
             Some (n1\<lparr>nd_timers := nd_timers n1 @ [NewTimer now (wrap64 (mn + r))],
                      nd_electionTimer := Some (length (nd_timers n1))\<rparr>))"

definition Node_Start :: "instant \<Rightarrow> nat \<Rightarrow> 'm Node \<Rightarrow> 'm Node option" where
  "Node_Start now rnd n = resetElectionTimer now rnd n"

definition Node_Stop :: "'m Node \<Rightarrow> 'm Node" where
  "Node_Stop n =
     stop_timer (nd_heartbeatTimer n) (stop_timer (nd_electionTimer n) (n\<lparr>nd_stopped := True\<rparr>))"

section \<open>RPC handlers\<close>

definition HandleRequestVote ::
  "instant \<Rightarrow> instant \<Rightarrow> nat \<Rightarrow> 'm Node \<Rightarrow> VoteRequest \<Rightarrow> ('m Node \<times> VoteResponse) option" where
  "HandleRequestVote hb now rnd n req =
     (let resp = \<lparr>vr_Term = State_CurrentTerm (nd_state n), vr_VoteGranted = False\<rparr>
      in if vq_Term req < State_CurrentTerm (nd_state n) then Some (n, resp)
         else
           (let (n1, resp1) =
              (if vq_Term req > State_CurrentTerm (nd_state n)
               then (upd_state (State_BecomeFollower hb (vq_Term req) '''') n, resp\<lparr>vr_Term := vq_Term req\<rparr>)
               else (n, resp));
              vf = State_VotedFor (nd_state n1)
            in if vf = '''' \<or> vf = vq_CandidateID req then
                 (let lastLogIndex = Log_LastIndex (State_GetLog (nd_state n1));
                      lastLogTerm = Log_LastTerm (State_GetLog (nd_state n1))
                  in if vq_LastLogTerm req > lastLogTerm \<or>
                        (vq_LastLogTerm req = lastLogTerm \<and> vq_LastLogIndex req \<ge> lastLogIndex)
                     then map_option (\<lambda>n2. (n2, resp1\<lparr>vr_VoteGranted := True\<rparr>))
                            (resetElectionTimer now rnd
                               (upd_state (State_SetVotedFor (vq_CandidateID req)) n1))
                     else Some (n1, resp1))
               else Some (n1, resp1)))"

definition upd_log :: "Log \<Rightarrow> State \<Rightarrow> State" where
  [raft_simps]: "upd_log l s = s\<lparr>st_log := l\<rparr>"

definition HandleAppendEntries ::
  "instant \<Rightarrow> instant \<Rightarrow> nat \<Rightarrow> 'm Node \<Rightarrow> AppendEntriesRequest
     \<Rightarrow> ('m Node \<times> AppendEntriesResponse) option" where
  "HandleAppendEntries hb now rnd n req =
     (let resp = \<lparr>ar_Term = State_CurrentTerm (nd_state n), ar_Success = False\<rparr>
      in if aq_Term req < State_CurrentTerm (nd_state n) then Some (n, resp)
         else
           (case resetElectionTimer now rnd n of
              None \<Rightarrow> None
            | Some n1 \<Rightarrow>
                (let (n2, resp2) =
                   (if aq_Term req \<ge> State_CurrentTerm (nd_state n1)
                    then (upd_state (State_BecomeFollower hb (aq_Term req) (aq_LeaderID req)) n1,
                          resp\<lparr>ar_Term := aq_Term req\<rparr>)
                    else (n1, resp))
                 in if aq_PrevLogIndex req > 0 \<and>
                       Log_TermAt (State_GetLog (nd_state n2)) (aq_PrevLogIndex req) \<noteq> aq_PrevLogTerm req
                    then Some (n2, resp2)
                    else
                      (let n3 =
                         (if length (aq_Entries req) > 0
                          then upd_state (upd_log (fst (Log_AppendEntries (State_GetLog (nd_state n2))
                                                         (aq_PrevLogIndex req) (aq_Entries req)))) n2
                          else n2);
                         n4 =
                         (if aq_LeaderCommit req > State_CommitIndex (nd_state n3)
                          then
                            (let lastNewEntry =
                               (if length (aq_Entries req) > 0
                                then le_Index (aq_Entries req ! (length (aq_Entries req) - 1))
                                else aq_PrevLogIndex req);
                               ci = (if lastNewEntry < aq_LeaderCommit req then lastNewEntry
                                     else aq_LeaderCommit req)
                             in upd_state (State_SetCommitIndex ci) n3)
                          else n3)
                       in Some (n4, resp2\<lparr>ar_Success := True\<rparr>)))))"

definition Propose :: "'m Node \<Rightarrow> bytes \<Rightarrow> 'm Node \<times> (raft_error + u64)" where
  "Propose n command =
     (if State_GetState (nd_state n) \<noteq> Leader then (n, Inl ErrNotLeader)
      else
        (let entry = \<lparr>le_Index = 0, le_Term = State_CurrentTerm (nd_state n),
                      le_Type = LogEntryCommand, le_Command = command\<rparr>;
             (l, index) = Log_Append (State_GetLog (nd_state n)) entry
         in (upd_state (upd_log l) n, Inr index)))"

definition IsLeader :: "'m Node \<Rightarrow> bool" where
  "IsLeader n \<longleftrightarrow> State_GetState (nd_state n) = Leader"

definition GetLeaderID :: "'m Node \<Rightarrow> string" where
  "GetLeaderID n = State_LeaderID (nd_state n)"

section \<open>The candidate loop\<close>

definition votesNeeded :: "'m Node \<Rightarrow> nat" where
  "votesNeeded n = (length (nd_peers n) + 1) div 2 + 1"

text \<open>Up to the RPCs: a new term, a vote for itself, a fresh timer.\<close>

definition candidate_begin :: "instant \<Rightarrow> nat \<Rightarrow> 'm Node \<Rightarrow> ('m Node \<times> u64) option" where
  "candidate_begin now rnd n =
     (let (s, term) = State_BecomeCandidate (nd_state n);
          n1 = upd_state (State_SetVotedFor (nd_id n)) (n\<lparr>nd_state := s\<rparr>)
      in map_option (\<lambda>n2. (n2, term)) (resetElectionTimer now rnd n1))"

text \<open>The request a goroutine sends, from the log at that moment.\<close>

definition candidate_request :: "'m Node \<Rightarrow> u64 \<Rightarrow> VoteRequest" where
  "candidate_request n term =
     \<lparr>vq_Term = term, vq_CandidateID = nd_id n,
      vq_LastLogIndex = Log_LastIndex (State_GetLog (nd_state n)),
      vq_LastLogTerm = Log_LastTerm (State_GetLog (nd_state n))\<rparr>"

text \<open>
  What a goroutine does with its answer, under \<open>voteMu\<close>; \<open>None\<close> is an RPC error. The clock
  reading is paired with the answer because \<open>BecomeFollower\<close> reads the clock.
\<close>

fun candidate_reply ::
  "u64 \<Rightarrow> 'm Node \<times> nat \<Rightarrow> instant \<times> VoteResponse option \<Rightarrow> 'm Node \<times> nat" where
  "candidate_reply term (n, votes) (hb, None) = (n, votes)"
| "candidate_reply term (n, votes) (hb, Some resp) =
     (if vr_Term resp > term then (upd_state (State_BecomeFollower hb (vr_Term resp) '''') n, votes)
      else if vr_VoteGranted resp then (n, votes + 1)
      else (n, votes))"

text \<open>After the last answer: win or fall back.\<close>

definition candidate_finish :: "instant \<Rightarrow> nat \<Rightarrow> 'm Node \<Rightarrow> nat \<Rightarrow> 'm Node option" where
  "candidate_finish now rnd n votes =
     (if votes \<ge> votesNeeded n then Some (upd_state (State_BecomeLeader (nd_id n) (nd_peers n)) n)
      else resetElectionTimer now rnd (upd_state (State_SetState Follower) n))"

datatype candidate_select = CStop | CTimeout | CDone

text \<open>
  A run of \<open>runCandidate\<close> during which no handler intervenes: the answers in the order in
  which the goroutines took \<open>voteMu\<close>, and the channel the final \<open>select\<close> found ready.
\<close>

definition runCandidate ::
  "instant \<Rightarrow> nat \<Rightarrow> (instant \<times> VoteResponse option) list \<Rightarrow> candidate_select \<Rightarrow> instant \<Rightarrow> nat
     \<Rightarrow> 'm Node \<Rightarrow> 'm Node option" where
  "runCandidate now rnd replies sel now' rnd' n =
     (case candidate_begin now rnd n of
        None \<Rightarrow> None
      | Some (n1, term) \<Rightarrow>
          (let (n2, votes) = foldl (candidate_reply term) (n1, 1) replies
           in case sel of
                CStop \<Rightarrow> Some n2
              | CTimeout \<Rightarrow> Some n2
              | CDone \<Rightarrow> candidate_finish now' rnd' n2 votes))"

section \<open>The leader loop\<close>

text \<open>The request one heartbeat goroutine sends to a peer; \<open>term\<close> was read before it started.\<close>

definition heartbeat_request :: "'m Node \<Rightarrow> u64 \<Rightarrow> string \<Rightarrow> AppendEntriesRequest" where
  "heartbeat_request n term peer =
     (let prevLogIndex = map_get (nextIndex (nd_state n)) peer - 1;
          l = State_GetLog (nd_state n)
      in \<lparr>aq_Term = term, aq_LeaderID = nd_id n, aq_PrevLogIndex = prevLogIndex,
          aq_PrevLogTerm = Log_TermAt l prevLogIndex,
          aq_Entries = Log_EntriesAfter l prevLogIndex,
          aq_LeaderCommit = State_CommitIndex (nd_state n)\<rparr>)"

text \<open>What it does with the answer to a request with the given entries.\<close>

definition heartbeat_reply ::
  "instant \<Rightarrow> u64 \<Rightarrow> string \<Rightarrow> LogEntry list \<Rightarrow> AppendEntriesResponse option \<Rightarrow> 'm Node \<Rightarrow> 'm Node" where
  "heartbeat_reply hb term peer es r n =
     (case r of
        None \<Rightarrow> n
      | Some resp \<Rightarrow>
          if ar_Term resp > term then upd_state (State_BecomeFollower hb (ar_Term resp) '''') n
          else if ar_Success resp then
            (let n1 =
               (if length es > 0 then
                  (let i = le_Index (es ! (length es - 1))
                   in upd_state (\<lambda>s. s\<lparr>nextIndex := (nextIndex s)(peer \<mapsto> i + 1),
                                       matchIndex := (matchIndex s)(peer \<mapsto> i)\<rparr>) n)
                else n)
             in n1\<lparr>nd_commitCh := True\<rparr>)
          else
            (if map_get (nextIndex (nd_state n)) peer > 1
             then upd_state (\<lambda>s. s\<lparr>nextIndex := (nextIndex s)(peer \<mapsto> map_get (nextIndex s) peer - 1)\<rparr>) n
             else n))"

text \<open>The exchange sort of \<open>updateCommitIndex\<close>, with its two index loops.\<close>

definition swap :: "'a list \<Rightarrow> nat \<Rightarrow> nat \<Rightarrow> 'a list" where
  "swap xs i j = xs[i := xs ! j, j := xs ! i]"

definition sort_inner :: "nat \<Rightarrow> u64 list \<Rightarrow> u64 list" where
  "sort_inner i xs = foldl (\<lambda>ys j. if ys ! i > ys ! j then swap ys i j else ys) xs [i + 1..<length xs]"

definition sort_matchIndexes :: "u64 list \<Rightarrow> u64 list" where
  "sort_matchIndexes xs = foldl (\<lambda>ys i. sort_inner i ys) xs [0..<length xs - 1]"

text \<open>\<open>keys\<close> is the order in which the \<open>range\<close> over \<open>matchIndex\<close> visits the peers.\<close>

definition matchIndexes :: "string list \<Rightarrow> 'm Node \<Rightarrow> u64 list" where
  "matchIndexes keys n =
     Log_LastIndex (State_GetLog (nd_state n)) # map (map_get (matchIndex (nd_state n))) keys"

definition updateCommitIndex :: "string list \<Rightarrow> 'm Node \<Rightarrow> 'm Node" where
  "updateCommitIndex keys n =
     (let ms = sort_matchIndexes (matchIndexes keys n);
          majority = length ms div 2;
          newCommitIndex = ms ! majority;
          term = State_CurrentTerm (nd_state n)
      in if newCommitIndex > State_CommitIndex (nd_state n) \<and>
            Log_TermAt (State_GetLog (nd_state n)) newCommitIndex = term
         then upd_state (State_SetCommitIndex newCommitIndex) n
         else n)"

section \<open>The apply loop\<close>

text \<open>
  One pass of \<open>applyLoop\<close>: the inner loop over \<open>uint64\<close> indices, whose increment wraps, so it
  is a partial function. The state machine is threaded through; its errors are only logged.
\<close>

definition apply_entry :: "u64 \<Rightarrow> 'm Node \<times> 'm \<Rightarrow> 'm Node \<times> 'm" where
  "apply_entry i nm =
     (case nm of (n, m) \<Rightarrow>
        (case Log_Get (State_GetLog (nd_state n)) i of
           None \<Rightarrow> (n, m)
         | Some e \<Rightarrow>
             (upd_state (State_SetLastApplied i) n,
              case nd_applyFunc n of None \<Rightarrow> m | Some f \<Rightarrow> fst (f e m))))"

partial_function (option) apply_from ::
  "u64 \<Rightarrow> u64 \<Rightarrow> 'm Node \<times> 'm \<Rightarrow> ('m Node \<times> 'm) option" where
  "apply_from i ci nm = (if i \<le> ci then apply_from (i + 1) ci (apply_entry i nm) else Some nm)"

definition apply_pass :: "'m Node \<times> 'm \<Rightarrow> ('m Node \<times> 'm) option" where
  "apply_pass nm =
     (let ci = State_CommitIndex (nd_state (fst nm));
          la = State_LastApplied (nd_state (fst nm))
      in if ci > la then apply_from (la + 1) ci nm else Some nm)"

section \<open>The main loop\<close>

text \<open>
  \<open>run\<close> dispatches on the role. \<open>runFollower\<close> blocks on the channel of the timer that the
  node's field pointed to when the \<open>select\<close> was entered; only that timer's tick, or the stop
  channel, ends the wait. A nil timer would be dereferenced, a panic.
\<close>

datatype run_pc = RunTop | WaitFollower nat | InCandidate | InLeader | RunDone | RunPanic

definition run_dispatch :: "'m Node \<Rightarrow> run_pc" where
  "run_dispatch n =
     (if nd_stopped n then RunDone
      else case State_GetState (nd_state n) of
             Follower \<Rightarrow> (case nd_electionTimer n of None \<Rightarrow> RunPanic | Some t \<Rightarrow> WaitFollower t)
           | Candidate \<Rightarrow> InCandidate
           | Leader \<Rightarrow> InLeader)"

definition timer_ready :: "nat \<Rightarrow> 'm Node \<Rightarrow> bool" where
  "timer_ready t n \<longleftrightarrow> t < length (nd_timers n) \<and> tm_fired (nd_timers n ! t)"

definition timer_receive :: "nat \<Rightarrow> 'm Node \<Rightarrow> 'm Node" where
  "timer_receive t n = n\<lparr>nd_timers := (nd_timers n)[t := (nd_timers n ! t)\<lparr>tm_fired := False\<rparr>]\<rparr>"

text \<open>\<open>None\<close> while the timer waited on has not fired.\<close>

definition follower_timeout :: "nat \<Rightarrow> 'm Node \<Rightarrow> 'm Node option" where
  "follower_timeout t n =
     (if timer_ready t n then Some (upd_state (State_SetState Candidate) (timer_receive t n)) else None)"

text \<open>
  \<open>sendHeartbeats\<close> reads the term and starts one goroutine per peer; each is described by the
  term and the peer it captured, and then runs \<open>heartbeat_request\<close> and \<open>heartbeat_reply\<close>.
\<close>

definition sendHeartbeats :: "'m Node \<Rightarrow> (u64 \<times> string) list" where
  "sendHeartbeats n = map (\<lambda>peer. (State_CurrentTerm (nd_state n), peer)) (nd_peers n)"

definition leader_begin :: "instant \<Rightarrow> 'm Node \<Rightarrow> 'm Node \<times> (u64 \<times> string) list" where
  "leader_begin now n =
     (n\<lparr>nd_timers := nd_timers n @ [NewTimer now (HeartbeatInterval (nd_config n))],
        nd_heartbeatTimer := Some (length (nd_timers n))\<rparr>, sendHeartbeats n)"

datatype leader_event = LStop | LTick | LCommit

definition leader_check :: "'m Node \<Rightarrow> 'm Node \<times> run_pc" where
  "leader_check n =
     (if State_GetState (nd_state n) \<noteq> Leader then (stop_timer (nd_heartbeatTimer n) n, RunTop)
      else (n, InLeader))"

text \<open>One iteration of \<open>runLeader\<close>'s loop, given the channel its \<open>select\<close> found ready.\<close>

definition leader_select ::
  "instant \<Rightarrow> string list \<Rightarrow> leader_event \<Rightarrow> 'm Node \<Rightarrow> ('m Node \<times> run_pc) \<times> (u64 \<times> string) list" where
  "leader_select now keys ev n =
     (case ev of
        LStop \<Rightarrow> ((n, RunTop), [])
      | LTick \<Rightarrow>
          (case nd_heartbeatTimer n of
             None \<Rightarrow> ((n, RunPanic), [])
           | Some t \<Rightarrow>
               (leader_check
                  (n\<lparr>nd_timers := (nd_timers n)[t := NewTimer now (HeartbeatInterval (nd_config n))]\<rparr>),
                sendHeartbeats n))
      | LCommit \<Rightarrow> (leader_check (updateCommitIndex keys (n\<lparr>nd_commitCh := False\<rparr>)), []))"

section \<open>Timers: totality, frame and bounds\<close>

definition node_ok :: "'m Node \<Rightarrow> bool" where
  "node_ok n \<longleftrightarrow> raft_config_ok (nd_config n) \<and> state_wf (nd_state n) \<and>
     (\<forall>t. nd_electionTimer n = Some t \<longrightarrow> t < length (nd_timers n))"

lemma node_ok_log: "node_ok n \<Longrightarrow> log_wf (st_log (nd_state n))"
  by (auto simp: node_ok_def)

lemma node_ok_NewNode: "raft_config_ok cfg \<Longrightarrow> node_ok (NewNode i ps cfg)"
  by (simp add: node_ok_def NewNode_def)

text \<open>Under a usable configuration the new timeout is drawn from the configured interval.\<close>

lemma election_timeout_range:
  assumes "raft_config_ok c"
  shows "wrap64 (ElectionTimeoutMax c - ElectionTimeoutMin c) = ElectionTimeoutMax c - ElectionTimeoutMin c"
    and "0 < ElectionTimeoutMax c - ElectionTimeoutMin c"
    and "0 \<le> r \<Longrightarrow> r < ElectionTimeoutMax c - ElectionTimeoutMin c
          \<Longrightarrow> wrap64 (ElectionTimeoutMin c + r) = ElectionTimeoutMin c + r"
  using assms
  by (auto intro!: wrap64_id simp: raft_config_ok_def in_int64_def max_int64_def min_int64_def)

lemma stop_timer_frame [simp]:
  "nd_state (stop_timer t n) = nd_state n" "nd_id (stop_timer t n) = nd_id n"
  "nd_peers (stop_timer t n) = nd_peers n" "nd_config (stop_timer t n) = nd_config n"
  "nd_stopped (stop_timer t n) = nd_stopped n" "nd_applyFunc (stop_timer t n) = nd_applyFunc n"
  "nd_electionTimer (stop_timer t n) = nd_electionTimer n"
  "length (nd_timers (stop_timer t n)) = length (nd_timers n)"
  by (simp_all add: stop_timer_def split: option.split)

lemma resetElectionTimer_total:
  assumes "raft_config_ok (nd_config n)"
  obtains d where
    "ElectionTimeoutMin (nd_config n) \<le> d" "d < ElectionTimeoutMax (nd_config n)"
    "resetElectionTimer now rnd n =
       Some ((stop_timer (nd_electionTimer n) n)
               \<lparr>nd_timers := nd_timers (stop_timer (nd_electionTimer n) n) @ [NewTimer now d],
                nd_electionTimer := Some (length (nd_timers n))\<rparr>)"
proof -
  let ?c = "nd_config n"
  define k where "k = ElectionTimeoutMax ?c - ElectionTimeoutMin ?c"
  have k: "0 < k" "wrap64 (ElectionTimeoutMax ?c - ElectionTimeoutMin ?c) = k"
    using election_timeout_range [OF assms] by (simp_all add: k_def)
  define r where "r = int rnd mod k"
  have r: "0 \<le> r" "r < k" using k(1) by (simp_all add: r_def)
  have w: "wrap64 (ElectionTimeoutMin ?c + r) = ElectionTimeoutMin ?c + r"
    using election_timeout_range(3) [OF assms] r by (simp add: k_def)
  show thesis
  proof (rule that [of "ElectionTimeoutMin ?c + r"])
    show "resetElectionTimer now rnd n =
       Some ((stop_timer (nd_electionTimer n) n)
               \<lparr>nd_timers := nd_timers (stop_timer (nd_electionTimer n) n) @ [NewTimer now (ElectionTimeoutMin ?c + r)],
                nd_electionTimer := Some (length (nd_timers n))\<rparr>)"
      using k w by (simp add: resetElectionTimer_def rand_Int63n_def r_def [symmetric] Let_def)
  qed (use r in \<open>simp_all add: k_def\<close>)
qed

lemma resetElectionTimer_frame:
  assumes "resetElectionTimer now rnd n = Some n'"
  shows "nd_state n' = nd_state n" "nd_id n' = nd_id n" "nd_peers n' = nd_peers n"
    "nd_config n' = nd_config n" "nd_stopped n' = nd_stopped n" "nd_applyFunc n' = nd_applyFunc n"
    "nd_electionTimer n' = Some (length (nd_timers n))"
    "length (nd_timers n') = Suc (length (nd_timers n))"
  using assms by (auto simp: resetElectionTimer_def Let_def split: option.splits)

lemma resetElectionTimer_node_ok:
  assumes "resetElectionTimer now rnd n = Some n'" and "node_ok n"
  shows "node_ok n'"
  using assms resetElectionTimer_frame [OF assms(1)] by (auto simp: node_ok_def)

lemma resetElectionTimer_ex: "node_ok n \<Longrightarrow> \<exists>n'. resetElectionTimer now rnd n = Some n'"
  by (metis node_ok_def resetElectionTimer_total)

lemma upd_state_frame [simp]:
  "nd_state (upd_state f n) = f (nd_state n)" "nd_id (upd_state f n) = nd_id n"
  "nd_peers (upd_state f n) = nd_peers n" "nd_config (upd_state f n) = nd_config n"
  "nd_timers (upd_state f n) = nd_timers n" "nd_electionTimer (upd_state f n) = nd_electionTimer n"
  "nd_stopped (upd_state f n) = nd_stopped n" "nd_applyFunc (upd_state f n) = nd_applyFunc n"
  by (simp_all add: upd_state_def)

lemma upd_state_node_ok:
  "node_ok n \<Longrightarrow> state_wf (f (nd_state n)) \<Longrightarrow> node_ok (upd_state f n)"
  by (auto simp: node_ok_def)

end
