(* ===== verification/RaftVoting.thy ===== *)
theory RaftVoting
  imports RaftNode
begin

text \<open>
  Leader election: what \<open>HandleRequestVote\<close> grants, what a run of \<open>runCandidate\<close> decides, why
  two winning vote counts overlap, and where the code leaves the guarantees of Raft.
\<close>

section \<open>Granting votes\<close>

text \<open>The candidate's log is at least as up to date as ours, as the handler tests it.\<close>

definition up_to_date :: "VoteRequest \<Rightarrow> Log \<Rightarrow> bool" where
  "up_to_date req l \<longleftrightarrow> vq_LastLogTerm req > Log_LastTerm l \<or>
     (vq_LastLogTerm req = Log_LastTerm l \<and> vq_LastLogIndex req \<ge> Log_LastIndex l)"

text \<open>The vote this node can still give in the term of the request.\<close>

definition vote_free :: "VoteRequest \<Rightarrow> State \<Rightarrow> bool" where
  "vote_free req s \<longleftrightarrow> currentTerm s < vq_Term req \<or> votedFor s = '''' \<or> votedFor s = vq_CandidateID req"

definition grants :: "VoteRequest \<Rightarrow> State \<Rightarrow> bool" where
  "grants req s \<longleftrightarrow> currentTerm s \<le> vq_Term req \<and> vote_free req s \<and> up_to_date req (st_log s)"

text \<open>The complete case analysis of the handler, on a node whose timer can be reset.\<close>

lemma HandleRequestVote_cases:
  assumes "node_ok n"
  obtains (stale) "vq_Term req < currentTerm (nd_state n)"
      "HandleRequestVote hb now rnd n req =
         Some (n, \<lparr>vr_Term = currentTerm (nd_state n), vr_VoteGranted = False\<rparr>)"
  | (refused) n' where "currentTerm (nd_state n) \<le> vq_Term req" "\<not> grants req (nd_state n)"
      "HandleRequestVote hb now rnd n req =
         Some (n', \<lparr>vr_Term = vq_Term req, vr_VoteGranted = False\<rparr>)"
      "n' = (if currentTerm (nd_state n) < vq_Term req
             then upd_state (State_BecomeFollower hb (vq_Term req) '''') n else n)"
  | (granted) n' s' where "grants req (nd_state n)"
      "HandleRequestVote hb now rnd n req =
         Some (n', \<lparr>vr_Term = vq_Term req, vr_VoteGranted = True\<rparr>)"
      "nd_state n' = s'\<lparr>votedFor := vq_CandidateID req\<rparr>"
      "s' = (if currentTerm (nd_state n) < vq_Term req
             then State_BecomeFollower hb (vq_Term req) '''' (nd_state n) else nd_state n)"
      "node_ok n'"
proof (cases "vq_Term req < currentTerm (nd_state n)")
  case True
  then show thesis by (intro stale) (simp_all add: HandleRequestVote_def raft_simps)
next
  case False
  define n1 where "n1 = (if currentTerm (nd_state n) < vq_Term req
             then upd_state (State_BecomeFollower hb (vq_Term req) '''') n else n)"
  have ok1: "node_ok n1"
    using assms by (auto simp: n1_def node_ok_def state_wf_def raft_simps)
  have ok2: "node_ok (upd_state (State_SetVotedFor (vq_CandidateID req)) n1)"
    using ok1 by (intro upd_state_node_ok) (auto simp: node_ok_def state_wf_def raft_simps)
  have eq: "currentTerm (nd_state n) \<noteq> vq_Term req \<Longrightarrow> currentTerm (nd_state n) < vq_Term req"
    using False by simp
  show thesis
  proof (cases "grants req (nd_state n)")
    case True
    obtain n2 where n2: "resetElectionTimer now rnd (upd_state (State_SetVotedFor (vq_CandidateID req)) n1) = Some n2"
      using resetElectionTimer_ex [OF ok2] by blast
    have "HandleRequestVote hb now rnd n req = Some (n2, \<lparr>vr_Term = vq_Term req, vr_VoteGranted = True\<rparr>)"
      using True False n2
      by (auto simp: HandleRequestVote_def grants_def up_to_date_def vote_free_def n1_def raft_simps
            Let_def upd_state_def)
    moreover have "nd_state n2 = (nd_state n1)\<lparr>votedFor := vq_CandidateID req\<rparr>"
      using resetElectionTimer_frame(1) [OF n2] by (simp add: raft_simps upd_state_def)
    ultimately show thesis
      using True granted resetElectionTimer_node_ok [OF n2 ok2] by (simp add: n1_def)
  next
    case ng: False
    have "HandleRequestVote hb now rnd n req = Some (n1, \<lparr>vr_Term = vq_Term req, vr_VoteGranted = False\<rparr>)"
      using ng False
      by (auto simp: HandleRequestVote_def grants_def up_to_date_def vote_free_def n1_def raft_simps
            Let_def upd_state_def)
    with ng False show thesis by (intro refused) (auto simp: n1_def)
  qed
qed

text \<open>
  The contract of the handler in one statement: it always answers, it grants exactly the votes
  that \<open>grants\<close> describes, the term never falls, and log and commit index stay.
\<close>

lemma HandleRequestVote_spec:
  assumes "node_ok n"
  obtains n' resp where
    "HandleRequestVote hb now rnd n req = Some (n', resp)" "node_ok n'"
    "vr_VoteGranted resp \<longleftrightarrow> grants req (nd_state n)"
    "currentTerm (nd_state n') = max (currentTerm (nd_state n)) (vq_Term req)"
    "vr_Term resp = currentTerm (nd_state n')"
    "st_log (nd_state n') = st_log (nd_state n)"
    "commitIndex (nd_state n') = commitIndex (nd_state n)"
    "vr_VoteGranted resp \<Longrightarrow> votedFor (nd_state n') = vq_CandidateID req"
    "vr_VoteGranted resp \<Longrightarrow> vr_Term resp = vq_Term req"
    "\<not> vr_VoteGranted resp \<Longrightarrow>
       votedFor (nd_state n') = (if currentTerm (nd_state n) < vq_Term req then '''' else votedFor (nd_state n))"
    "nd_id n' = nd_id n" "nd_peers n' = nd_peers n"
proof -
  have frame: "nd_id n' = nd_id n \<and> nd_peers n' = nd_peers n"
    if "HandleRequestVote hb now rnd n req = Some (n', r)" for n' and r
    using that
    by (auto simp: HandleRequestVote_def Let_def raft_simps dest: resetElectionTimer_frame split: if_splits)
  from assms show thesis
  proof (cases rule: HandleRequestVote_cases [where req = req and hb = hb and now = now and rnd = rnd])
    case stale
    with assms show thesis by (intro that [OF stale(2)]) (auto simp: grants_def max_def)
  next
    case (refused n')
    with assms frame [OF refused(3)] show thesis
      by (intro that [OF refused(3)]) (auto simp: max_def node_ok_def state_wf_def raft_simps)
  next
    case (granted n' s')
    then have "currentTerm (nd_state n) \<le> vq_Term req" by (simp add: grants_def)
    with granted frame [OF granted(2)] show thesis
      by (intro that [OF granted(2)]) (auto simp: max_def raft_simps)
  qed
qed

section \<open>One vote per term\<close>

text \<open>A sequence of vote requests handled one after the other, with the answers.\<close>

type_synonym vote_call = "instant \<times> instant \<times> nat \<times> VoteRequest"

fun serve_votes :: "vote_call list \<Rightarrow> 'm Node \<Rightarrow> ('m Node \<times> VoteResponse list) option" where
  "serve_votes [] n = Some (n, [])"
| "serve_votes ((hb, now, rnd, req) # cs) n =
     (case HandleRequestVote hb now rnd n req of
        None \<Rightarrow> None
      | Some (n1, r) \<Rightarrow> map_option (\<lambda>(n2, rs). (n2, r # rs)) (serve_votes cs n1))"

abbreviation call_req :: "vote_call \<Rightarrow> VoteRequest" where
  "call_req c \<equiv> snd (snd (snd c))"

text \<open>The node is past term \<open>T\<close>, or still in it and bound to candidate \<open>c\<close>.\<close>

definition bound_to :: "u64 \<Rightarrow> string \<Rightarrow> State \<Rightarrow> bool" where
  "bound_to T c s \<longleftrightarrow> T < currentTerm s \<or> (T = currentTerm s \<and> votedFor s = c)"

lemma bound_to_step:
  assumes "node_ok n" "bound_to T c (nd_state n)" "c \<noteq> ''''"
    and "HandleRequestVote hb now rnd n req = Some (n', r)"
  shows "bound_to T c (nd_state n')" and "vr_VoteGranted r \<Longrightarrow> vq_Term req = T \<Longrightarrow> vq_CandidateID req = c"
    and "node_ok n'"
proof -
  obtain m r' where m: "HandleRequestVote hb now rnd n req = Some (m, r')" "node_ok m"
    "vr_VoteGranted r' \<longleftrightarrow> grants req (nd_state n)"
    "currentTerm (nd_state m) = max (currentTerm (nd_state n)) (vq_Term req)"
    "vr_VoteGranted r' \<Longrightarrow> votedFor (nd_state m) = vq_CandidateID req"
    "\<not> vr_VoteGranted r' \<Longrightarrow>
       votedFor (nd_state m) = (if currentTerm (nd_state n) < vq_Term req then '''' else votedFor (nd_state n))"
    using HandleRequestVote_spec [OF assms(1)] by metis
  then have eq: "n' = m" "r = r'" using assms(4) by auto
  have g: "vr_VoteGranted r \<Longrightarrow> grants req (nd_state n)" using m eq by simp
  show c: "vr_VoteGranted r \<Longrightarrow> vq_Term req = T \<Longrightarrow> vq_CandidateID req = c"
    using g assms(2,3) by (auto simp: grants_def vote_free_def bound_to_def)
  show "node_ok n'" using m eq by simp
  show "bound_to T c (nd_state n')"
  proof (cases "vq_Term req \<le> currentTerm (nd_state n)")
    case True
    with m(4) eq have "currentTerm (nd_state n') = currentTerm (nd_state n)" by (simp add: max_def)
    with True assms(2) m c eq g show ?thesis
      by (cases "vr_VoteGranted r") (auto simp: bound_to_def grants_def)
  next
    case False
    with m(4) eq assms(2) show ?thesis by (auto simp: bound_to_def max_def)
  qed
qed

lemma serve_votes_bound:
  assumes "node_ok n" "bound_to T c (nd_state n)" "c \<noteq> ''''"
    and "serve_votes cs n = Some (n', rs)" "j < length rs"
    and "vr_VoteGranted (rs ! j)" "vq_Term (call_req (cs ! j)) = T"
  shows "vq_CandidateID (call_req (cs ! j)) = c"
  using assms
proof (induction cs arbitrary: n rs j)
  case (Cons call cs)
  obtain hb now rnd req where call: "call = (hb, now, rnd, req)" by (metis prod_cases4)
  from Cons.prems(4) obtain n1 r rs' where n1: "HandleRequestVote hb now rnd n req = Some (n1, r)"
    and rest: "serve_votes cs n1 = Some (n', rs')" and rs: "rs = r # rs'"
    by (auto simp: call split: option.splits)
  note step = bound_to_step [OF Cons.prems(1-3) n1]
  show ?case
  proof (cases j)
    case 0
    with Cons.prems(6,7) step(2) show ?thesis by (simp add: rs call)
  next
    case (Suc k)
    with Cons.IH [OF step(3,1) Cons.prems(3) rest, of k] Cons.prems show ?thesis
      by (simp add: rs)
  qed
qed simp

text \<open>
  Two votes granted in the same term go to the same candidate, as long as the node only serves
  vote requests.
\<close>

lemma serve_votes_once:
  assumes ok: "node_ok n" and run: "serve_votes cs n = Some (n', rs)"
    and ij: "i < j" "j < length rs"
    and granted: "vr_VoteGranted (rs ! i)" "vr_VoteGranted (rs ! j)"
    and same: "vq_Term (call_req (cs ! i)) = vq_Term (call_req (cs ! j))"
    and named: "vq_CandidateID (call_req (cs ! i)) \<noteq> ''''"
  shows "vq_CandidateID (call_req (cs ! i)) = vq_CandidateID (call_req (cs ! j))"
  using assms
proof (induction cs arbitrary: n rs i j)
  case (Cons call cs)
  obtain hb now rnd req where call: "call = (hb, now, rnd, req)" by (metis prod_cases4)
  from Cons.prems(2) obtain n1 r rs' where n1: "HandleRequestVote hb now rnd n req = Some (n1, r)"
    and rest: "serve_votes cs n1 = Some (n', rs')" and rs: "rs = r # rs'"
    by (auto simp: call split: option.splits)
  obtain m r' where m: "HandleRequestVote hb now rnd n req = Some (m, r')" "node_ok m"
    "vr_VoteGranted r' \<longleftrightarrow> grants req (nd_state n)"
    "currentTerm (nd_state m) = max (currentTerm (nd_state n)) (vq_Term req)"
    "vr_VoteGranted r' \<Longrightarrow> votedFor (nd_state m) = vq_CandidateID req"
    using HandleRequestVote_spec [OF Cons.prems(1)] by metis
  then have eq: "n1 = m" "r = r'" using n1 by auto
  obtain k where k: "j = Suc k" using Cons.prems(3) by (cases j) auto
  show ?case
  proof (cases i)
    case 0
    then have "vr_VoteGranted r" using Cons.prems(5) rs by simp
    then have "bound_to (vq_Term req) (vq_CandidateID req) (nd_state n1)"
      using m eq by (auto simp: bound_to_def grants_def max_def)
    from serve_votes_bound [OF _ this _ rest, of k] Cons.prems 0 show ?thesis
      using m(2) eq by (simp add: rs k call)
  next
    case (Suc i')
    with Cons.IH [OF _ rest, of i' k] m(2) eq Cons.prems show ?thesis by (simp add: rs k)
  qed
qed simp

section \<open>Winning an election\<close>

text \<open>The answers that \<open>runCandidate\<close> counts, and those that make it step down.\<close>

definition counts :: "u64 \<Rightarrow> instant \<times> VoteResponse option \<Rightarrow> bool" where
  "counts term a \<longleftrightarrow> (\<exists>r. snd a = Some r \<and> vr_Term r \<le> term \<and> vr_VoteGranted r)"

definition outdated :: "u64 \<Rightarrow> instant \<times> VoteResponse option \<Rightarrow> bool" where
  "outdated term a \<longleftrightarrow> (\<exists>r. snd a = Some r \<and> term < vr_Term r)"

lemma candidate_reply_cases:
  "candidate_reply term (n, v) a =
     (if outdated term a
      then (upd_state (State_BecomeFollower (fst a) (vr_Term (the (snd a))) '''') n, v)
      else (n, v + (if counts term a then 1 else 0)))"
  by (cases a; cases "snd a") (auto simp: counts_def outdated_def)

lemma replies_votes:
  "snd (foldl (candidate_reply term) (n, v) rs) = v + length (filter (counts term) rs)"
proof (induction rs arbitrary: n v)
  case (Cons a rs)
  have "outdated term a \<Longrightarrow> \<not> counts term a" by (auto simp: outdated_def counts_def)
  then show ?case using Cons.IH by (simp add: candidate_reply_cases)
qed simp

lemma replies_node:
  "\<forall>a \<in> set rs. \<not> outdated term a \<Longrightarrow> fst (foldl (candidate_reply term) (n, v) rs) = n"
  by (induction rs arbitrary: v) (simp_all add: candidate_reply_cases)

lemma replies_frame:
  "nd_id (fst (foldl (candidate_reply term) (n, v) rs)) = nd_id n"
  "nd_peers (fst (foldl (candidate_reply term) (n, v) rs)) = nd_peers n"
  by (induction rs arbitrary: n v) (simp_all add: candidate_reply_cases)

lemma replies_node_ok:
  "node_ok n \<Longrightarrow> node_ok (fst (foldl (candidate_reply term) (n, v) rs))"
proof (induction rs arbitrary: n v)
  case (Cons a rs)
  have "node_ok (upd_state (State_BecomeFollower (fst a) (vr_Term (the (snd a))) '''') n)"
    using Cons.prems by (intro upd_state_node_ok) (auto simp: node_ok_def state_wf_def raft_simps)
  then show ?case using Cons by (simp add: candidate_reply_cases)
qed simp

lemma candidate_begin_ok:
  assumes "node_ok n"
  obtains n1 where "candidate_begin now rnd n = Some (n1, currentTerm (nd_state n) + 1)" "node_ok n1"
    "nd_state n1 = (nd_state n)\<lparr>st_state := Candidate, currentTerm := currentTerm (nd_state n) + 1,
                                leaderID := '''', votedFor := nd_id n\<rparr>"
    "nd_id n1 = nd_id n" "nd_peers n1 = nd_peers n"
proof -
  define m where "m = upd_state (State_SetVotedFor (nd_id n)) (n\<lparr>nd_state := fst (State_BecomeCandidate (nd_state n))\<rparr>)"
  have ok: "node_ok m"
    using assms by (auto simp: m_def node_ok_def state_wf_def raft_simps Let_def)
  obtain n1 where n1: "resetElectionTimer now rnd m = Some n1"
    using resetElectionTimer_ex [OF ok] by blast
  show thesis
  proof (rule that)
    show "candidate_begin now rnd n = Some (n1, currentTerm (nd_state n) + 1)"
      using n1 by (simp add: candidate_begin_def m_def raft_simps Let_def)
    show "node_ok n1" by (rule resetElectionTimer_node_ok [OF n1 ok])
  qed (use resetElectionTimer_frame [OF n1] in \<open>simp_all add: m_def raft_simps Let_def\<close>)
qed

lemma runCandidate_done:
  assumes ok: "node_ok n"
  obtains n' where "runCandidate now rnd rs CDone now' rnd' n = Some n'"
    "IsLeader n' \<longleftrightarrow> votesNeeded n \<le> 1 + length (filter (counts (currentTerm (nd_state n) + 1)) rs)"
    "\<forall>a \<in> set rs. \<not> outdated (currentTerm (nd_state n) + 1) a \<Longrightarrow>
       currentTerm (nd_state n') = currentTerm (nd_state n) + 1 \<and> votedFor (nd_state n') = nd_id n"
    "IsLeader n' \<Longrightarrow> GetLeaderID n' = nd_id n \<and>
       (\<forall>p \<in> set (nd_peers n). nextIndex (nd_state n') p = Some (Log_LastIndex (st_log (nd_state n')) + 1)
                             \<and> matchIndex (nd_state n') p = Some 0)"
proof -
  let ?T = "currentTerm (nd_state n) + 1"
  obtain n1 where n1: "candidate_begin now rnd n = Some (n1, ?T)" "node_ok n1"
    "nd_state n1 = (nd_state n)\<lparr>st_state := Candidate, currentTerm := ?T, leaderID := '''', votedFor := nd_id n\<rparr>"
    "nd_id n1 = nd_id n" "nd_peers n1 = nd_peers n"
    using candidate_begin_ok [OF ok] by blast
  define n2 where "n2 = fst (foldl (candidate_reply ?T) (n1, 1) rs)"
  define votes where "votes = snd (foldl (candidate_reply ?T) (n1, 1) rs)"
  have v: "votes = 1 + length (filter (counts ?T) rs)" by (simp add: votes_def replies_votes)
  have run: "runCandidate now rnd rs CDone now' rnd' n = candidate_finish now' rnd' n2 votes"
    by (simp add: runCandidate_def n1(1) n2_def votes_def case_prod_unfold Let_def)
  have id2: "nd_id n2 = nd_id n" "nd_peers n2 = nd_peers n"
    using n1 by (simp_all add: n2_def replies_frame)
  have same: "n2 = n1" if "\<forall>a \<in> set rs. \<not> outdated ?T a"
    using replies_node [OF that] by (simp add: n2_def)
  have need: "votesNeeded n2 = votesNeeded n" using id2 by (simp add: votesNeeded_def)
  show thesis
  proof (cases "votesNeeded n \<le> votes")
    case True
    then have fin: "candidate_finish now' rnd' n2 votes =
        Some (upd_state (State_BecomeLeader (nd_id n2) (nd_peers n2)) n2)"
      by (simp add: candidate_finish_def need)
    show thesis
      by (rule that [OF run [unfolded fin]])
         (use True v same n1(3) id2 in \<open>auto simp: IsLeader_def GetLeaderID_def raft_simps\<close>)
  next
    case False
    have ok2: "node_ok (upd_state (State_SetState Follower) n2)"
      using replies_node_ok [OF n1(2)]
      by (intro upd_state_node_ok) (auto simp: n2_def node_ok_def state_wf_def raft_simps)
    obtain n' where n': "resetElectionTimer now' rnd' (upd_state (State_SetState Follower) n2) = Some n'"
      using resetElectionTimer_ex [OF ok2] by blast
    have fin: "candidate_finish now' rnd' n2 votes = Some n'"
      using False n' by (simp add: candidate_finish_def need)
    show thesis
      by (rule that [OF run [unfolded fin]])
         (use False v same n1(3) resetElectionTimer_frame [OF n'] in
           \<open>auto simp: IsLeader_def GetLeaderID_def raft_simps\<close>)
  qed
qed

section \<open>Quorums\<close>

text \<open>
  What counting votes relies on: any two quorums share a member, so members that each choose
  once cannot give two quorums to different choices.
\<close>

locale quorum_system =
  fixes is_quorum :: "'a set \<Rightarrow> bool"
  assumes overlap: "is_quorum A \<Longrightarrow> is_quorum B \<Longrightarrow> A \<inter> B \<noteq> {}"
begin

lemma quorum_nonempty: "is_quorum A \<Longrightarrow> A \<noteq> {}"
  using overlap by blast

lemma unique_choice:
  assumes "is_quorum A" "is_quorum B"
    and "\<And>v. v \<in> A \<Longrightarrow> choice v = Some a" "\<And>v. v \<in> B \<Longrightarrow> choice v = Some b"
  shows "a = b"
proof -
  from overlap [OF assms(1,2)] obtain v where "v \<in> A" "v \<in> B" by blast
  with assms(3,4) have "Some a = Some b" by metis
  then show ?thesis by simp
qed

end

text \<open>The members of a node's cluster, and the sets of voters that make it a leader.\<close>

definition members :: "'m Node \<Rightarrow> string set" where
  "members n = insert (nd_id n) (set (nd_peers n))"

definition vote_quorum :: "'m Node \<Rightarrow> string set \<Rightarrow> bool" where
  "vote_quorum n A \<longleftrightarrow> A \<subseteq> members n \<and> votesNeeded n \<le> card A"

lemma card_members: "card (members n) \<le> length (nd_peers n) + 1"
  using card_length [of "nd_id n # nd_peers n"] by (simp add: members_def)

lemma majority_overlap:
  assumes "A \<subseteq> M" "B \<subseteq> M" "finite M" "card M < card A + card B"
  shows "A \<inter> B \<noteq> {}"
proof
  assume "A \<inter> B = {}"
  then have "card (A \<union> B) = card A + card B"
    using assms by (metis card_Un_disjoint finite_subset)
  moreover have "card (A \<union> B) \<le> card M" using assms by (intro card_mono) auto
  ultimately show False using assms(4) by simp
qed

interpretation votes: quorum_system "vote_quorum n" for n :: "'m Node"
proof
  fix A B assume "vote_quorum n A" "vote_quorum n B"
  then show "A \<inter> B \<noteq> {}"
    using card_members [of n]
    by (intro majority_overlap [of A "members n" B])
       (auto simp: vote_quorum_def votesNeeded_def members_def)
qed

section \<open>Properties\<close>

text \<open>
  C10. \<open>HandleRequestVote\<close> always answers. It grants the vote exactly when the request is not
  stale, the node has no vote for another candidate in that term and the candidate's log is at
  least as up to date. The term becomes the larger of the two terms and is what the answer
  carries; the log and the commit index do not change; a granted vote is recorded in
  \<open>votedFor\<close>, and a refusal leaves \<open>votedFor\<close> alone unless the term advanced, which clears it.
\<close>

theorem HandleRequestVote_contract:
  assumes "node_ok n"
  shows "\<exists>n' resp. HandleRequestVote hb now rnd n req = Some (n', resp) \<and> node_ok n' \<and>
      vr_VoteGranted resp = grants req (nd_state n) \<and>
      currentTerm (nd_state n') = max (currentTerm (nd_state n)) (vq_Term req) \<and>
      vr_Term resp = currentTerm (nd_state n') \<and>
      st_log (nd_state n') = st_log (nd_state n) \<and>
      commitIndex (nd_state n') = commitIndex (nd_state n) \<and>
      votedFor (nd_state n') =
        (if vr_VoteGranted resp then vq_CandidateID req
         else if currentTerm (nd_state n) < vq_Term req then '''' else votedFor (nd_state n))"
  using HandleRequestVote_spec [OF assms, where hb = hb and now = now and rnd = rnd and req = req]
  by metis

definition example_config :: RaftConfig where
  "example_config = Raft DefaultConfig"

lemma example_config_ok: "raft_config_ok example_config"
  by (simp add: example_config_def DefaultConfig_raft_ok)

definition example_request :: VoteRequest where
  "example_request = \<lparr>vq_Term = 1, vq_CandidateID = ''node2'', vq_LastLogIndex = 0, vq_LastLogTerm = 0\<rparr>"

theorem HandleRequestVote_contract_witness:
  "\<exists>n' resp. HandleRequestVote 0 0 0 (NewNode ''node1'' [''node2'', ''node3''] example_config) example_request
       = Some (n', resp) \<and> vr_VoteGranted resp \<and> votedFor (nd_state n') = ''node2''"
proof -
  let ?n = "NewNode ''node1'' [''node2'', ''node3''] example_config"
  have "grants example_request (nd_state ?n)"
    by (simp add: grants_def vote_free_def up_to_date_def example_request_def NewNode_def raft_simps
        NewState_def NewLog_def Log_LastTerm_def Log_LastIndex_def)
  with HandleRequestVote_contract [OF node_ok_NewNode [OF example_config_ok],
      of 0 0 0 "''node1''" "[''node2'', ''node3'']" example_request]
  show ?thesis by (force simp: example_request_def)
qed

text \<open>
  C6. A node that serves any sequence of vote requests grants its votes of one term to one
  candidate only.
\<close>

theorem one_vote_per_term:
  assumes "node_ok n" and "serve_votes cs n = Some (n', rs)"
    and "i < j" "j < length rs" and "vr_VoteGranted (rs ! i)" "vr_VoteGranted (rs ! j)"
    and "vq_Term (call_req (cs ! i)) = vq_Term (call_req (cs ! j))"
    and "vq_CandidateID (call_req (cs ! i)) \<noteq> ''''"
  shows "vq_CandidateID (call_req (cs ! i)) = vq_CandidateID (call_req (cs ! j))"
  using assms by (rule serve_votes_once)

definition example_calls :: "vote_call list" where
  "example_calls = [(0, 0, 0, example_request), (1, 1, 7, example_request)]"

lemma example_calls_granted:
  "map_option (map vr_VoteGranted \<circ> snd)
     (serve_votes example_calls (NewNode ''node1'' [''node2'', ''node3''] example_config :: unit Node)) = Some [True, True]"
  by code_simp

theorem one_vote_per_term_witness:
  "\<exists>n' rs. serve_votes example_calls (NewNode ''node1'' [''node2'', ''node3''] example_config :: unit Node) = Some (n', rs) \<and>
     vr_VoteGranted (rs ! 0) \<and> vr_VoteGranted (rs ! 1) \<and>
     vq_CandidateID (call_req (example_calls ! 0)) = vq_CandidateID (call_req (example_calls ! 1))"
proof -
  obtain n' rs where run: "serve_votes example_calls (NewNode ''node1'' [''node2'', ''node3''] example_config :: unit Node) = Some (n', rs)"
    and rs: "map vr_VoteGranted rs = [True, True]"
    using example_calls_granted by auto
  then have "vr_VoteGranted (rs ! 0)" "vr_VoteGranted (rs ! 1)" "length rs = 2" by (auto simp: map_eq_Cons_conv)
  with run one_vote_per_term [OF node_ok_NewNode [OF example_config_ok] run, of 0 1] show ?thesis
    by (auto simp: example_calls_def example_request_def)
qed

end
