(* ===== verification/RaftReplication.thy ===== *)
theory RaftReplication
  imports RaftVoting
begin

text \<open>
  Log replication: what \<open>HandleAppendEntries\<close> does to a follower, how the leader's probing of
  \<open>nextIndex\<close> brings a follower's log in line, how \<open>updateCommitIndex\<close> chooses the commit
  index, and what one pass of \<open>applyLoop\<close> applies.
\<close>

section \<open>The handler\<close>

text \<open>The consistency check fails.\<close>

definition conflicts :: "AppendEntriesRequest \<Rightarrow> Log \<Rightarrow> bool" where
  "conflicts req l \<longleftrightarrow> aq_PrevLogIndex req > 0 \<and> Log_TermAt l (aq_PrevLogIndex req) \<noteq> aq_PrevLogTerm req"

definition last_new :: "AppendEntriesRequest \<Rightarrow> u64" where
  "last_new req = (if aq_Entries req = [] then aq_PrevLogIndex req else le_Index (last (aq_Entries req)))"

definition commit_after :: "AppendEntriesRequest \<Rightarrow> u64 \<Rightarrow> u64" where
  "commit_after req ci = (if ci < aq_LeaderCommit req then min (last_new req) (aq_LeaderCommit req) else ci)"

definition log_after :: "AppendEntriesRequest \<Rightarrow> Log \<Rightarrow> Log" where
  "log_after req l =
     (if aq_Entries req = [] then l else fst (Log_AppendEntries l (aq_PrevLogIndex req) (aq_Entries req)))"

lemma HandleAppendEntries_spec:
  assumes "node_ok n" and "unat (aq_PrevLogIndex req) + length (aq_Entries req) \<le> max_len"
  obtains
    (stale) "aq_Term req < currentTerm (nd_state n)"
      "HandleAppendEntries hb now rnd n req =
         Some (n, \<lparr>ar_Term = currentTerm (nd_state n), ar_Success = False\<rparr>)"
  | (conflict) n' where "currentTerm (nd_state n) \<le> aq_Term req" "conflicts req (st_log (nd_state n))"
      "HandleAppendEntries hb now rnd n req = Some (n', \<lparr>ar_Term = aq_Term req, ar_Success = False\<rparr>)"
      "nd_state n' = State_BecomeFollower hb (aq_Term req) (aq_LeaderID req) (nd_state n)"
      "node_ok n'" "nd_id n' = nd_id n" "nd_peers n' = nd_peers n"
  | (accept) n' where "currentTerm (nd_state n) \<le> aq_Term req" "\<not> conflicts req (st_log (nd_state n))"
      "HandleAppendEntries hb now rnd n req = Some (n', \<lparr>ar_Term = aq_Term req, ar_Success = True\<rparr>)"
      "nd_state n' = (State_BecomeFollower hb (aq_Term req) (aq_LeaderID req) (nd_state n))
         \<lparr>st_log := log_after req (st_log (nd_state n)),
          commitIndex := commit_after req (commitIndex (nd_state n))\<rparr>"
      "node_ok n'" "nd_id n' = nd_id n" "nd_peers n' = nd_peers n"
proof (cases "aq_Term req < currentTerm (nd_state n)")
  case True
  then show thesis by (intro stale) (simp_all add: HandleAppendEntries_def raft_simps)
next
  case False
  obtain n1 where n1: "resetElectionTimer now rnd n = Some n1"
    using resetElectionTimer_ex [OF assms(1)] by blast
  note fr = resetElectionTimer_frame [OF n1]
  have ok1: "node_ok n1" by (rule resetElectionTimer_node_ok [OF n1 assms(1)])
  let ?s = "State_BecomeFollower hb (aq_Term req) (aq_LeaderID req) (nd_state n)"
  show thesis
  proof (cases "conflicts req (st_log (nd_state n))")
    case True
    let ?n2 = "upd_state (State_BecomeFollower hb (aq_Term req) (aq_LeaderID req)) n1"
    have "HandleAppendEntries hb now rnd n req = Some (?n2, \<lparr>ar_Term = aq_Term req, ar_Success = False\<rparr>)"
      using False True fr
      by (auto simp: HandleAppendEntries_def n1 conflicts_def raft_simps Let_def not_less)
    moreover have "node_ok ?n2"
      using ok1 by (intro upd_state_node_ok) (auto simp: node_ok_def state_wf_def raft_simps)
    ultimately show thesis using False True fr by (intro conflict [of ?n2]) auto
  next
    case nc: False
    let ?s4 = "?s\<lparr>st_log := log_after req (st_log (nd_state n)),
                   commitIndex := commit_after req (commitIndex (nd_state n))\<rparr>"
    have h: "HandleAppendEntries hb now rnd n req =
        Some (n1\<lparr>nd_state := ?s4\<rparr>, \<lparr>ar_Term = aq_Term req, ar_Success = True\<rparr>)"
      using False nc fr
      by (auto simp: HandleAppendEntries_def n1 conflicts_def raft_simps Let_def log_after_def
            commit_after_def last_new_def last_conv_nth min_def not_less intro!: Node.equality State.equality)
    have "log_wf (log_after req (st_log (nd_state n)))"
      using assms Log_AppendEntries_wf [OF node_ok_log [OF assms(1)]] node_ok_log [OF assms(1)]
      by (simp add: log_after_def)
    then have "node_ok (n1\<lparr>nd_state := ?s4\<rparr>)"
      using ok1 by (auto simp: node_ok_def state_wf_def)
    then show thesis using False nc fr h by (intro accept [of "n1\<lparr>nd_state := ?s4\<rparr>"]) auto
  qed
qed

text \<open>The term of a node never falls when it handles an AppendEntries request.\<close>

lemma HandleAppendEntries_total:
  assumes "node_ok n" and "unat (aq_PrevLogIndex req) + length (aq_Entries req) \<le> max_len"
  obtains n' resp where "HandleAppendEntries hb now rnd n req = Some (n', resp)" "node_ok n'"
    "currentTerm (nd_state n') = max (currentTerm (nd_state n)) (aq_Term req)"
    "ar_Term resp = currentTerm (nd_state n')"
    "ar_Success resp \<longleftrightarrow> currentTerm (nd_state n) \<le> aq_Term req \<and> \<not> conflicts req (st_log (nd_state n))"
    "st_log (nd_state n') = (if ar_Success resp then log_after req (st_log (nd_state n)) else st_log (nd_state n))"
    "commitIndex (nd_state n') =
       (if ar_Success resp then commit_after req (commitIndex (nd_state n)) else commitIndex (nd_state n))"
  using assms
proof (cases rule: HandleAppendEntries_spec [where hb = hb and now = now and rnd = rnd])
  case stale
  with assms show thesis by (intro that [OF stale(2)]) (auto simp: max_def)
next
  case (conflict n')
  then show thesis by (intro that [OF conflict(3)]) (auto simp: max_def raft_simps)
next
  case (accept n')
  then show thesis by (intro that [OF accept(3)]) (auto simp: max_def raft_simps)
qed

section \<open>Choosing the commit index\<close>

lemma swap_props:
  assumes "i < length xs" "j < length xs"
  shows "length (swap xs i j) = length xs" "mset (swap xs i j) = mset xs"
  using assms mset_swap [of j xs i] by (simp_all add: swap_def list_update_swap)

text \<open>One run of the inner loop brings the smallest element of the tail to position \<open>i\<close>.\<close>

lemma sort_inner_upto:
  fixes xs :: "u64 list"
  assumes "i < m" "m \<le> length xs"
  defines "ys \<equiv> foldl (\<lambda>ys j. if ys ! i > ys ! j then swap ys i j else ys) xs [i + 1..<m]"
  shows "length ys = length xs \<and> mset ys = mset xs \<and> (\<forall>k < i. ys ! k = xs ! k) \<and>
    (\<forall>k. i \<le> k \<and> k < m \<longrightarrow> ys ! i \<le> ys ! k)"
  using assms(1,2) unfolding ys_def
proof (induction m)
  case (Suc m)
  show ?case
  proof (cases "i = m")
    case True
    then show ?thesis by (auto simp: less_Suc_eq_le dest: antisym)
  next
    case False
    then have im: "i < m" and mlen: "m < length xs" using Suc.prems by auto
    define ys where "ys = foldl (\<lambda>ys j. if ys ! i > ys ! j then swap ys i j else ys) xs [i + 1..<m]"
    have IH: "length ys = length xs" "mset ys = mset xs" "\<forall>k < i. ys ! k = xs ! k"
      "\<forall>k. i \<le> k \<and> k < m \<longrightarrow> ys ! i \<le> ys ! k"
      using Suc.IH im mlen by (auto simp: ys_def)
    have last: "[i + 1..<Suc m] = [i + 1..<m] @ [m]" using im by simp
    have res: "foldl (\<lambda>ys j. if ys ! i > ys ! j then swap ys i j else ys) xs [i + 1..<Suc m]
        = (if ys ! i > ys ! m then swap ys i m else ys)"
      unfolding last by (simp add: ys_def)
    show ?thesis
    proof (cases "ys ! i > ys ! m")
      case True
      have sw: "swap ys i m ! k = (if k = m then ys ! i else if k = i then ys ! m else ys ! k)" if "k < length xs" for k
        using that im mlen IH(1) by (simp add: swap_def nth_list_update)
      have min: "swap ys i m ! i \<le> swap ys i m ! k" if "i \<le> k" "k < Suc m" for k
      proof -
        have "ys ! m \<le> ys ! k" if "k < m"
          using IH(4) \<open>i \<le> k\<close> that True by (meson less_imp_le order.trans)
        then show ?thesis using that sw im mlen True by (auto simp: less_Suc_eq)
      qed
      have "swap ys i m ! k = xs ! k" if "k < i" for k
        using that sw [of k] IH(3) im mlen by simp
      then show ?thesis
        unfolding res using True min IH(1,2) im mlen swap_props [of i ys m] by simp
    next
      case nle: False
      then show ?thesis unfolding res using IH by (auto simp: less_Suc_eq)
    qed
  qed
qed simp

lemma sort_inner_props:
  assumes "i < length xs"
  shows "length (sort_inner i xs) = length xs" "mset (sort_inner i xs) = mset xs"
    "\<And>k. k < i \<Longrightarrow> sort_inner i xs ! k = xs ! k"
    "\<And>k. i \<le> k \<Longrightarrow> k < length xs \<Longrightarrow> sort_inner i xs ! i \<le> sort_inner i xs ! k"
  using sort_inner_upto [OF assms order_refl] by (simp_all add: sort_inner_def)

lemma set_drop_eq:
  assumes "length ys = length xs" "mset ys = mset xs" "\<forall>k < i. ys ! k = xs ! k" "i \<le> length xs"
  shows "set (drop i ys) = set (drop i xs)"
proof -
  have "take i ys = take i xs" using assms by (intro nth_equalityI) auto
  moreover have "mset (take i ys) + mset (drop i ys) = mset (take i xs) + mset (drop i xs)"
    using assms(2) by (metis append_take_drop_id mset_append)
  ultimately have "mset (drop i ys) = mset (drop i xs)" by simp
  then show ?thesis by (metis set_mset_mset)
qed

text \<open>After \<open>t\<close> rounds of the outer loop the first \<open>t\<close> positions are final.\<close>

definition settled :: "nat \<Rightarrow> u64 list \<Rightarrow> bool" where
  "settled t ys \<longleftrightarrow> (\<forall>a < t. \<forall>b. a < b \<and> b < length ys \<longrightarrow> ys ! a \<le> ys ! b)"

lemma sort_inner_settles:
  assumes "settled t ys" "t < length ys"
  shows "settled (Suc t) (sort_inner t ys)"
  unfolding settled_def
proof (intro allI impI)
  fix a b assume a: "a < Suc t" and b: "a < b \<and> b < length (sort_inner t ys)"
  note p = sort_inner_props [OF assms(2)]
  show "sort_inner t ys ! a \<le> sort_inner t ys ! b"
  proof (cases "a = t")
    case True
    with p(1,4) b show ?thesis by simp
  next
    case False
    then have at: "a < t" using a by simp
    show ?thesis
    proof (cases "b < t")
      case True
      with at p(1,3) b assms(1) show ?thesis by (simp add: settled_def)
    next
      case bt: False
      then have "sort_inner t ys ! b = drop t (sort_inner t ys) ! (b - t)" and "b - t < length (drop t (sort_inner t ys))"
        using b by auto
      then have "sort_inner t ys ! b \<in> set (drop t (sort_inner t ys))" by (metis nth_mem)
      then have "sort_inner t ys ! b \<in> set (drop t ys)"
        using set_drop_eq [of "sort_inner t ys" ys t] p assms(2) by simp
      then obtain d where d: "d < length (drop t ys)" "sort_inner t ys ! b = drop t ys ! d"
        by (metis in_set_conv_nth)
      then obtain c where "t \<le> c" "c < length ys" "sort_inner t ys ! b = ys ! c"
        by (intro that [of "t + d"]) auto
      with at assms(1) p(3) show ?thesis by (simp add: settled_def)
    qed
  qed
qed

lemma sort_matchIndexes_upto:
  "t \<le> length xs - 1 \<Longrightarrow>
     length (foldl (\<lambda>ys i. sort_inner i ys) xs [0..<t]) = length xs \<and>
     mset (foldl (\<lambda>ys i. sort_inner i ys) xs [0..<t]) = mset xs \<and>
     settled t (foldl (\<lambda>ys i. sort_inner i ys) xs [0..<t])"
proof (induction t)
  case 0
  then show ?case by (simp add: settled_def)
next
  case (Suc t)
  then show ?case using sort_inner_settles sort_inner_props by fastforce
qed

text \<open>The hand-written loops sort: they compute what the library's sort computes.\<close>

lemma sort_matchIndexes_eq_sort: "sort_matchIndexes xs = sort xs"
proof -
  let ?ys = "sort_matchIndexes xs"
  have p: "length ?ys = length xs" "mset ?ys = mset xs" "settled (length xs - 1) ?ys"
    using sort_matchIndexes_upto [of "length xs - 1" xs] by (simp_all add: sort_matchIndexes_def)
  have "sorted ?ys"
    using p(1,3) by (auto simp: sorted_iff_nth_mono_less settled_def)
  with p(2) show ?thesis by (metis properties_for_sort)
qed

lemma sorted_ge_count:
  assumes "sorted ys" "k < length ys"
  shows "length ys - k \<le> length (filter (\<lambda>x. ys ! k \<le> x) ys)"
proof -
  have "filter (\<lambda>x. ys ! k \<le> x) (drop k ys) = drop k ys"
    using assms by (auto simp: filter_id_conv in_set_conv_nth sorted_nth_mono)
  then have "length (drop k ys) \<le> length (filter (\<lambda>x. ys ! k \<le> x) (take k ys @ drop k ys))"
    by (simp del: append_take_drop_id)
  then show ?thesis by simp
qed

definition replicated_on :: "string list \<Rightarrow> 'm Node \<Rightarrow> u64 \<Rightarrow> nat" where
  "replicated_on keys n i = length (filter (\<lambda>x. i \<le> x) (matchIndexes keys n))"

lemma updateCommitIndex_cases:
  obtains (advance) i where "i > commitIndex (nd_state n)"
      "Log_TermAt (st_log (nd_state n)) i = currentTerm (nd_state n)"
      "Suc (length keys) - Suc (length keys) div 2 \<le> replicated_on keys n i"
      "updateCommitIndex keys n = upd_state (State_SetCommitIndex i) n"
  | (keep) "updateCommitIndex keys n = n"
proof -
  let ?ms = "sort_matchIndexes (matchIndexes keys n)"
  let ?i = "?ms ! (length ?ms div 2)"
  have len: "length ?ms = Suc (length keys)"
    by (simp add: sort_matchIndexes_eq_sort matchIndexes_def)
  have "length ?ms - length ?ms div 2 \<le> length (filter (\<lambda>x. ?i \<le> x) ?ms)"
    using len by (intro sorted_ge_count) (simp_all add: sort_matchIndexes_eq_sort)
  also have "\<dots> = replicated_on keys n ?i"
    by (metis mset_filter mset_sort replicated_on_def size_mset sort_matchIndexes_eq_sort)
  finally have q: "Suc (length keys) - Suc (length keys) div 2 \<le> replicated_on keys n ?i"
    by (simp add: len)
  show thesis
  proof (cases "?i > commitIndex (nd_state n) \<and> Log_TermAt (st_log (nd_state n)) ?i = currentTerm (nd_state n)")
    case True
    then show thesis
      by (intro advance [of ?i] q) (auto simp: updateCommitIndex_def Let_def raft_simps)
  next
    case False
    then show thesis by (intro keep) (auto simp: updateCommitIndex_def Let_def raft_simps)
  qed
qed

text \<open>The replicas that hold the entry, as a set of members.\<close>

definition replicas :: "string list \<Rightarrow> 'm Node \<Rightarrow> u64 \<Rightarrow> string set" where
  "replicas keys n i =
     (if i \<le> Log_LastIndex (st_log (nd_state n)) then {nd_id n} else {}) \<union>
     {p \<in> set keys. i \<le> map_get (matchIndex (nd_state n)) p}"

lemma card_replicas:
  assumes "distinct keys" "nd_id n \<notin> set keys"
  shows "card (replicas keys n i) = replicated_on keys n i"
proof -
  let ?P = "\<lambda>p. i \<le> map_get (matchIndex (nd_state n)) p"
  have "card {p \<in> set keys. ?P p} = length (filter ?P keys)"
    using assms(1) by (metis distinct_card distinct_filter set_filter)
  moreover have "length (filter ?P keys) = length (filter (\<lambda>x. i \<le> x) (map (map_get (matchIndex (nd_state n))) keys))"
    by (simp add: filter_map o_def)
  ultimately show ?thesis
    using assms(2) by (simp add: replicas_def replicated_on_def matchIndexes_def raft_simps)
qed

section \<open>Applying committed entries\<close>

definition apply_command :: "'m Node \<Rightarrow> LogEntry \<Rightarrow> 'm \<Rightarrow> 'm" where
  "apply_command n e m = (case nd_applyFunc n of None \<Rightarrow> m | Some f \<Rightarrow> fst (f e m))"

lemma drop_take_step:
  "k < c \<Longrightarrow> k < length xs \<Longrightarrow> drop k (take c xs) = xs ! k # drop (Suc k) (take c xs)"
  by (metis Cons_nth_drop_Suc length_take min_less_iff_conj nth_take)

lemma apply_entry_at:
  assumes "log_wf (st_log (nd_state n))" "unat i = Suc k"
  shows "apply_entry i (n, m) =
    (if k < length (log_entries (st_log (nd_state n)))
     then (upd_state (State_SetLastApplied i) n, apply_command n (log_entries (st_log (nd_state n)) ! k) m) else (n, m))"
proof -
  have "i \<noteq> 0" using assms(2) by (metis nat.distinct(1) unat_0)
  then show ?thesis using assms by (simp add: apply_entry_def Log_Get_wf raft_simps apply_command_def)
qed

lemma set_applied_last:
  assumes "k < c" "k < len"
  shows "(if Suc k < min c len then upd_state (State_SetLastApplied (of_nat (min c len))) n
      else upd_state (State_SetLastApplied (of_nat (Suc k))) n) = upd_state (State_SetLastApplied (of_nat (min c len))) n"
proof (cases "Suc k < min c len")
  case False
  then have "min c len = Suc k" using assms by linarith
  then show ?thesis by simp
qed simp

lemma apply_from_spec:
  assumes wf: "log_wf (st_log (nd_state n))" and ci: "unat ci + 1 < 2 ^ 64"
    and i: "unat i = Suc k"
  shows "apply_from i ci (n, m) =
    Some (if k < min (unat ci) (length (log_entries (st_log (nd_state n))))
          then upd_state (State_SetLastApplied (of_nat (min (unat ci) (length (log_entries (st_log (nd_state n))))))) n
          else n,
          foldl (\<lambda>m e. apply_command n e m) m (drop k (take (unat ci) (log_entries (st_log (nd_state n))))))"
  using assms
proof (induction "unat ci - k" arbitrary: i k n m)
  case 0
  then have "\<not> i \<le> ci" by (simp add: word_le_nat_alt)
  with 0 show ?case by (simp add: apply_from.simps)
next
  case (Suc d)
  let ?es = "log_entries (st_log (nd_state n))"
  have kc: "k < unat ci" using Suc.hyps(2) by simp
  then have le: "i \<le> ci" using Suc.prems(3) by (simp add: word_le_nat_alt)
  have i1: "unat (i + 1) = Suc (Suc k)" using kc Suc.prems(2,3) by (simp add: u64_Suc)
  have d: "d = unat ci - Suc k" using Suc.hyps(2) by simp
  have unfold: "apply_from i ci (n, m) = apply_from (i + 1) ci (apply_entry i (n, m))"
    using le by (subst apply_from.simps) simp
  show ?case
  proof (cases "k < length ?es")
    case True
    let ?n' = "upd_state (State_SetLastApplied i) n"
    have ent: "apply_entry i (n, m) = (?n', apply_command n (?es ! k) m)"
      using apply_entry_at [OF Suc.prems(1,3)] True by simp
    have same: "st_log (nd_state ?n') = st_log (nd_state n)" by (simp add: raft_simps)
    have ap: "apply_command ?n' = apply_command n" by (simp add: fun_eq_iff apply_command_def)
    have li: "i = of_nat (Suc k)" by (simp flip: Suc.prems(3))
    have collapse: "upd_state (State_SetLastApplied j) ?n' = upd_state (State_SetLastApplied j) n" for j
      by (simp add: raft_simps)
    note last = set_applied_last [OF kc True, of n]
    have wf': "log_wf (st_log (nd_state ?n'))" using Suc.prems(1) same by simp
    show ?thesis
      unfolding unfold ent Suc.hyps(1) [OF d wf' Suc.prems(2) i1, of "apply_command n (?es ! k) m"]
        same ap collapse last [folded li]
      using True kc by (simp add: drop_take_step)
  next
    case False
    then have ent: "apply_entry i (n, m) = (n, m)"
      using apply_entry_at [OF Suc.prems(1,3)] by simp
    show ?thesis
      unfolding unfold ent Suc.hyps(1) [OF d Suc.prems(1,2) i1]
      using False by simp
  qed
qed

text \<open>
  One pass applies exactly the entries after \<open>lastApplied\<close> up to the commit index, in log order
  and each once, and records the last of them.
\<close>

lemma apply_pass_spec:
  fixes n :: "'m Node"
  assumes "log_wf (st_log (nd_state n))" "unat (commitIndex (nd_state n)) + 1 < 2 ^ 64"
    "lastApplied (nd_state n) \<le> commitIndex (nd_state n)"
  defines "es \<equiv> log_entries (st_log (nd_state n))"
  defines "last_i \<equiv> min (unat (commitIndex (nd_state n))) (length es)"
  shows "apply_pass (n, m) =
    Some (if unat (lastApplied (nd_state n)) < last_i then upd_state (State_SetLastApplied (of_nat last_i)) n else n,
          foldl (\<lambda>m e. apply_command n e m) m
            (drop (unat (lastApplied (nd_state n))) (take (unat (commitIndex (nd_state n))) es)))"
proof (cases "lastApplied (nd_state n) < commitIndex (nd_state n)")
  case True
  then have "unat (lastApplied (nd_state n)) + 1 < 2 ^ 64"
    using assms(2) by (simp add: word_less_nat_alt)
  then have "unat (lastApplied (nd_state n) + 1) = Suc (unat (lastApplied (nd_state n)))"
    by (simp add: u64_Suc)
  from apply_from_spec [OF assms(1,2) this, of m] True show ?thesis
    by (simp add: apply_pass_def raft_simps Let_def es_def last_i_def)
next
  case False
  then have "lastApplied (nd_state n) = commitIndex (nd_state n)" using assms(3) by simp
  then show ?thesis by (simp add: apply_pass_def raft_simps Let_def last_i_def)
qed

section \<open>Bringing a follower in line\<close>

text \<open>
  One exchange between a leader and one follower with nothing else in between: the leader's
  heartbeat goroutine builds its request, the follower handles it, the goroutine handles the
  answer.
\<close>

definition sync_round ::
  "string \<Rightarrow> instant \<times> instant \<times> nat \<times> instant \<Rightarrow> 'm Node \<times> 'm Node \<Rightarrow> ('m Node \<times> 'm Node) option" where
  "sync_round peer args lf =
     (case args of (hb, now, rnd, hb') \<Rightarrow>
        (let term = State_CurrentTerm (nd_state (fst lf));
             req = heartbeat_request (fst lf) term peer
         in map_option (\<lambda>(f, resp). (heartbeat_reply hb' term peer (aq_Entries req) (Some resp) (fst lf), f))
              (HandleAppendEntries hb now rnd (snd lf) req)))"

fun sync_rounds ::
  "string \<Rightarrow> (instant \<times> instant \<times> nat \<times> instant) list \<Rightarrow> 'm Node \<times> 'm Node \<Rightarrow> ('m Node \<times> 'm Node) option" where
  "sync_rounds peer [] lf = Some lf"
| "sync_rounds peer (a # as) lf = Option.bind (sync_round peer a lf) (sync_rounds peer as)"

text \<open>
  Raft's Log Matching between two logs: entries with the same index and term have identical
  logs up to that index.
\<close>

definition log_matching :: "Log \<Rightarrow> Log \<Rightarrow> bool" where
  "log_matching a b \<longleftrightarrow> (\<forall>i. i < length (log_entries a) \<and> i < length (log_entries b) \<and>
      le_Term (log_entries a ! i) = le_Term (log_entries b ! i)
      \<longrightarrow> take (Suc i) (log_entries a) = take (Suc i) (log_entries b))"

text \<open>Terms of proposed entries are positive: a leader's term has been incremented.\<close>

definition positive_terms :: "Log \<Rightarrow> bool" where
  "positive_terms l \<longleftrightarrow> (\<forall>e \<in> set (log_entries l). le_Term e \<noteq> 0)"

text \<open>The leader is set up to talk to \<open>peer\<close>: the next index lies within its log.\<close>

definition probing :: "string \<Rightarrow> 'm Node \<Rightarrow> 'm Node \<Rightarrow> bool" where
  "probing peer l f \<longleftrightarrow> node_ok l \<and> node_ok f \<and>
     currentTerm (nd_state f) \<le> currentTerm (nd_state l) \<and>
     0 < unat (map_get (nextIndex (nd_state l)) peer) \<and>
     unat (map_get (nextIndex (nd_state l)) peer) \<le> Suc (length (log_entries (st_log (nd_state l)))) \<and>
     positive_terms (st_log (nd_state l)) \<and> log_matching (st_log (nd_state l)) (st_log (nd_state f))"

text \<open>A passed consistency check means that the two logs agree up to the probed index.\<close>

lemma no_conflict_agree:
  assumes wl: "log_wf l" and wf: "log_wf f" and pos: "positive_terms l" and lm: "log_matching l f"
    and p: "unat p \<le> length (log_entries l)"
    and ok: "p > 0 \<longrightarrow> Log_TermAt f p = Log_TermAt l p"
  shows "unat p \<le> length (log_entries f)" "take (unat p) (log_entries f) = take (unat p) (log_entries l)"
proof -
  show len: "unat p \<le> length (log_entries f)"
  proof (cases "p = 0")
    case False
    then have "0 < unat p" by (simp add: unat_gt_0)
    then have "unat p - 1 < length (log_entries l)" using p by simp
    then have "le_Term (log_entries l ! (unat p - 1)) \<noteq> 0"
      using pos by (simp add: positive_terms_def)
    then have "Log_TermAt l p \<noteq> 0" using False p wl by (simp add: Log_TermAt_wf)
    then have "Log_TermAt f p \<noteq> 0" using ok False by (simp add: word_gt_0)
    then show ?thesis using wf by (simp add: Log_TermAt_wf split: if_splits)
  qed simp
  show "take (unat p) (log_entries f) = take (unat p) (log_entries l)"
  proof (cases "p = 0")
    case False
    then obtain q where q: "unat p = Suc q" by (metis not0_implies_Suc unat_eq_zero)
    have "le_Term (log_entries f ! q) = le_Term (log_entries l ! q)"
      using ok False len p q wl wf by (simp add: Log_TermAt_wf word_gt_0)
    with lm q len p show ?thesis by (metis Suc_le_eq log_matching_def)
  qed simp
qed

lemma prev_index:
  assumes "0 < unat (x :: u64)"
  shows "unat (x - 1) = unat x - 1"
  using assms by (metis u64_pred unat_eq_zero less_irrefl)

text \<open>The request of a probing leader.\<close>

lemma probing_request:
  assumes pr: "probing peer l f"
  defines "x \<equiv> map_get (nextIndex (nd_state l)) peer" and "L \<equiv> st_log (nd_state l)"
  defines "req \<equiv> heartbeat_request l (currentTerm (nd_state l)) peer"
  shows "unat (x - 1) = unat x - 1" "unat (x - 1) \<le> length (log_entries L)"
    and "aq_PrevLogIndex req = x - 1" "aq_Term req = currentTerm (nd_state l)" "aq_PrevLogTerm req = Log_TermAt L (x - 1)"
    and "aq_Entries req = drop (unat (x - 1)) (log_entries L)"
    and "unat (aq_PrevLogIndex req) + length (aq_Entries req) \<le> max_len"
proof -
  have wl: "log_wf L" using pr by (auto simp: L_def probing_def node_ok_def)
  show p: "unat (x - 1) = unat x - 1" using pr by (intro prev_index) (simp add: x_def probing_def)
  show len: "unat (x - 1) \<le> length (log_entries L)" unfolding p using pr by (auto simp: x_def L_def probing_def)
  show "aq_Term req = currentTerm (nd_state l)" "aq_PrevLogTerm req = Log_TermAt L (x - 1)"
    by (simp_all add: x_def L_def req_def heartbeat_request_def Let_def raft_simps)
  show req: "aq_PrevLogIndex req = x - 1" "aq_Entries req = drop (unat (x - 1)) (log_entries L)"
    using wl by (simp_all add: x_def L_def req_def heartbeat_request_def Let_def raft_simps Log_EntriesAfter_wf)
  show "unat (aq_PrevLogIndex req) + length (aq_Entries req) \<le> max_len"
    using len log_wf_len [OF wl] by (simp add: req)
qed

text \<open>A passed check: the follower's log then begins with the leader's.\<close>

lemma accepted_prefix:
  assumes pr: "probing peer l f" and ok: "\<not> conflicts (heartbeat_request l (currentTerm (nd_state l)) peer) (st_log (nd_state f))"
  shows "prefix (log_entries (st_log (nd_state l)))
    (log_entries (log_after (heartbeat_request l (currentTerm (nd_state l)) peer) (st_log (nd_state f))))"
proof -
  let ?L = "st_log (nd_state l)" and ?F = "st_log (nd_state f)" and ?x = "map_get (nextIndex (nd_state l)) peer"
  let ?req = "heartbeat_request l (currentTerm (nd_state l)) peer"
  note req = probing_request [OF pr]
  have wl: "log_wf ?L" "log_wf ?F" and pos: "positive_terms ?L" "log_matching ?L ?F" using pr by (auto simp: probing_def node_ok_def)
  have "?x - 1 > 0 \<longrightarrow> Log_TermAt ?F (?x - 1) = Log_TermAt ?L (?x - 1)"
    using ok by (auto simp: conflicts_def req(3,5))
  note agree = no_conflict_agree [OF wl pos req(2) this]
  show ?thesis
  proof (cases "aq_Entries ?req = []")
    case True
    then have "log_entries ?L = take (unat (?x - 1)) (log_entries ?F)" using agree(2) by (simp add: req(6))
    with True show ?thesis by (simp add: log_after_def take_is_prefix)
  next
    case False
    have "Log_AppendEntries ?F (?x - 1) (Log_EntriesAfter ?L (?x - 1)) = (?L, True)"
      by (rule Log_AppendEntries_replicates [OF wl req(2) agree(2,1)])
    with False wl show ?thesis by (simp add: log_after_def req(3,6) Log_EntriesAfter_wf)
  qed
qed

text \<open>A failed check: the leader steps back by one.\<close>

lemma rejected_probing:
  fixes hb :: instant and es :: "LogEntry list"
  assumes pr: "probing peer l f" and x: "1 < unat (map_get (nextIndex (nd_state l)) peer)"
    and f': "node_ok f'" "st_log (nd_state f') = st_log (nd_state f)" "currentTerm (nd_state f') = currentTerm (nd_state l)"
  defines "l' \<equiv> heartbeat_reply hb (currentTerm (nd_state l)) peer es (Some \<lparr>ar_Term = currentTerm (nd_state l), ar_Success = False\<rparr>) l"
  shows "probing peer l' f'" "st_log (nd_state l') = st_log (nd_state l)"
    and "unat (map_get (nextIndex (nd_state l')) peer) = unat (map_get (nextIndex (nd_state l)) peer) - 1"
proof -
  let ?x = "map_get (nextIndex (nd_state l)) peer"
  have gt: "?x > 1" using x by (simp add: word_less_nat_alt)
  have l': "nd_state l' = (nd_state l)\<lparr>nextIndex := (nextIndex (nd_state l))(peer \<mapsto> ?x - 1)\<rparr>"
    "nd_config l' = nd_config l" "nd_electionTimer l' = nd_electionTimer l" "nd_timers l' = nd_timers l"
    using gt by (simp_all add: l'_def heartbeat_reply_def)
  note p = probing_request(1) [OF pr]
  show "probing peer l' f'" using pr f' l' p x by (auto simp: probing_def node_ok_def state_wf_def raft_simps)
  show "st_log (nd_state l') = st_log (nd_state l)" using l' by simp
  show "unat (map_get (nextIndex (nd_state l')) peer) = unat ?x - 1" using l' p by simp
qed

text \<open>
  What one exchange achieves: the check passes and the follower holds the leader's whole log,
  or it fails, the follower's log stays and the next index moves one step back.
\<close>

lemma sync_round_progress:
  assumes pr: "probing peer l f"
  obtains l' f' where "sync_round peer a (l, f) = Some (l', f')"
    "st_log (nd_state l') = st_log (nd_state l)" "currentTerm (nd_state f') = currentTerm (nd_state l)"
    "prefix (log_entries (st_log (nd_state l))) (log_entries (st_log (nd_state f'))) \<or>
       (probing peer l' f' \<and> 1 < unat (map_get (nextIndex (nd_state l)) peer) \<and>
        unat (map_get (nextIndex (nd_state l')) peer) = unat (map_get (nextIndex (nd_state l)) peer) - 1)"
proof -
  obtain hb now rnd hb' where a: "a = (hb, now, rnd, hb')" by (metis prod_cases4)
  let ?x = "map_get (nextIndex (nd_state l)) peer" and ?T = "currentTerm (nd_state l)"
  let ?req = "heartbeat_request l ?T peer"
  note req = probing_request [OF pr]
  have okf: "node_ok f" and Tle: "currentTerm (nd_state f) \<le> aq_Term ?req" using pr by (simp_all add: probing_def req(4))
  have round: "sync_round peer a (l, f) =
      map_option (\<lambda>(f, resp). (heartbeat_reply hb' ?T peer (aq_Entries ?req) (Some resp) l, f)) (HandleAppendEntries hb now rnd f ?req)"
    by (simp add: sync_round_def a raft_simps Let_def)
  from okf req(7) show thesis
  proof (cases rule: HandleAppendEntries_spec [where hb = hb and now = now and rnd = rnd])
    case stale
    with Tle show thesis by simp
  next
    case (conflict f')
    have "0 < ?x - 1" using conflict(2) by (simp add: conflicts_def req(3))
    then have "0 < unat (?x - 1)" by (simp add: word_less_nat_alt)
    then have x: "1 < unat ?x" unfolding req(1) by simp
    have f': "node_ok f'" "st_log (nd_state f') = st_log (nd_state f)" "currentTerm (nd_state f') = ?T"
      using conflict(4,5) by (simp_all add: raft_simps req(4))
    note step = rejected_probing [OF pr x f', of hb' "aq_Entries ?req"]
    have "sync_round peer a (l, f) =
        Some (heartbeat_reply hb' ?T peer (aq_Entries ?req) (Some \<lparr>ar_Term = ?T, ar_Success = False\<rparr>) l, f')"
      using conflict(3) by (simp add: round req(4))
    then show thesis by (rule that [OF _ step(2) f'(3)]) (use x step(1,3) in blast)
  next
    case (accept f')
    note accepted_prefix [OF pr accept(2)]
    moreover define l' where "l' = heartbeat_reply hb' ?T peer (aq_Entries ?req) (Some \<lparr>ar_Term = aq_Term ?req, ar_Success = True\<rparr>) l"
    moreover have "st_log (nd_state l') = st_log (nd_state l)" by (simp add: l'_def heartbeat_reply_def req(4) Let_def)
    ultimately show thesis
      using accept by (intro that [of l' f']) (auto simp: round raft_simps req(4))
  qed
qed

text \<open>
  Log repair terminates: after at most \<open>nextIndex\<close> uninterrupted exchanges the follower's log
  starts with the leader's log.
\<close>

lemma sync_rounds_converge:
  assumes "probing peer l f"
    and "unat (map_get (nextIndex (nd_state l)) peer) \<le> length as"
  obtains j l' f' where "j \<le> unat (map_get (nextIndex (nd_state l)) peer)"
    "sync_rounds peer (take j as) (l, f) = Some (l', f')"
    "st_log (nd_state l') = st_log (nd_state l)"
    "prefix (log_entries (st_log (nd_state l))) (log_entries (st_log (nd_state f')))"
proof -
  have "\<exists>j l' f'. j \<le> k \<and> sync_rounds peer (take j as) (l, f) = Some (l', f') \<and>
      st_log (nd_state l') = st_log (nd_state l) \<and>
      prefix (log_entries (st_log (nd_state l))) (log_entries (st_log (nd_state f')))"
    if "probing peer l f" "unat (map_get (nextIndex (nd_state l)) peer) = k" "k \<le> length as" for k
    using that
  proof (induction k arbitrary: l f as)
    case 0
    then show ?case by (simp add: probing_def)
  next
    case (Suc k)
    then obtain a as' where as: "as = a # as'" by (cases as) auto
    obtain l' f' where r: "sync_round peer a (l, f) = Some (l', f')"
      "st_log (nd_state l') = st_log (nd_state l)"
      "prefix (log_entries (st_log (nd_state l))) (log_entries (st_log (nd_state f'))) \<or>
       (probing peer l' f' \<and> 1 < unat (map_get (nextIndex (nd_state l)) peer) \<and>
        unat (map_get (nextIndex (nd_state l')) peer) = unat (map_get (nextIndex (nd_state l)) peer) - 1)"
      using sync_round_progress [OF Suc.prems(1)] by metis
    show ?case
    proof (cases "prefix (log_entries (st_log (nd_state l))) (log_entries (st_log (nd_state f')))")
      case True
      with r as show ?thesis by (intro exI [of _ 1] exI [of _ l'] exI [of _ f']) simp
    next
      case False
      with r(3) Suc.prems(2) have "probing peer l' f'" "unat (map_get (nextIndex (nd_state l')) peer) = k" by auto
      from Suc.IH [OF this, of as'] Suc.prems(3) as obtain j m g where
        "j \<le> k" "sync_rounds peer (take j as') (l', f') = Some (m, g)"
        "st_log (nd_state m) = st_log (nd_state l')"
        "prefix (log_entries (st_log (nd_state l'))) (log_entries (st_log (nd_state g)))" by auto
      with r(1,2) as show ?thesis by (intro exI [of _ "Suc j"] exI [of _ m] exI [of _ g]) simp
    qed
  qed
  from this [OF assms(1) refl assms(2)] show thesis using that by blast
qed

end
