(* ===== verification/RaftCluster.thy ===== *)
theory RaftCluster
  imports RaftReplication "HOL-Library.Monad_Syntax"
begin

text \<open>
  A cluster of Raft nodes: the loops of \<open>internal/raft/node.go\<close> and the goroutines they start,
  interleaved step by step. The main results are election safety for the executions in which three
  defects of the code do no harm, and an execution with two leaders in one term that shows that
  the defects matter.
\<close>

section \<open>Goroutines, control points and the cluster\<close>

text \<open>
  A goroutine of \<open>runCandidate\<close> or \<open>sendHeartbeats\<close>: started, with its request on the way, with
  the answer on the way back. The transport is gRPC: a call is served at most once and either
  gets its answer or fails.
\<close>

datatype rpc =
    VoteStart nat string
  | VoteSent nat string VoteRequest
  | VoteBack nat string VoteResponse
  | BeatStart string u64 string
  | BeatSent string u64 string AppendEntriesRequest
  | BeatBack string u64 string "LogEntry list" AppendEntriesResponse

text \<open>
  One call of \<open>runCandidate\<close>: its variables \<open>term\<close> and \<open>votes\<close>, which its goroutines share.
  \<open>run_from\<close> is a history variable, the voters counted in \<open>votes\<close>.
\<close>

record vote_run =
  run_node :: string
  run_term :: u64
  run_votes :: nat
  run_from :: "string list"

text \<open>
  Where the main loop of a node is: in \<open>run\<close>, between the start of its vote goroutines and
  the \<open>select\<close> of \<open>runCandidate\<close>, in that \<open>select\<close> with the timer it waits on, or in the loop of
  \<open>runLeader\<close>.
\<close>

datatype pc = Loop run_pc | Spawned nat | Counting nat "nat option" | Leading

text \<open>
  \<open>cl_addr\<close> gives the node listening at an address: the peers of a node are addresses, while
  votes and leaders are node ids. \<open>cl_granted\<close> is a history variable, the votes cast so far.
\<close>

record 'm cluster =
  cl_addr :: "string \<Rightarrow> string"
  cl_nodes :: "string \<rightharpoonup> 'm Node"
  cl_pc :: "string \<Rightarrow> pc"
  cl_runs :: "vote_run list"
  cl_rpcs :: "rpc list"
  cl_granted :: "(string \<times> u64 \<times> string) list"

definition set_node :: "string \<Rightarrow> 'm Node \<Rightarrow> 'm cluster \<Rightarrow> 'm cluster" where
  "set_node p n c = c\<lparr>cl_nodes := (cl_nodes c)(p \<mapsto> n)\<rparr>"

definition set_pc :: "string \<Rightarrow> pc \<Rightarrow> 'm cluster \<Rightarrow> 'm cluster" where
  "set_pc p x c = c\<lparr>cl_pc := (cl_pc c)(p := x)\<rparr>"

definition drop_nth :: "nat \<Rightarrow> 'a list \<Rightarrow> 'a list" where
  "drop_nth k xs = take k xs @ drop (Suc k) xs"

definition get_rpc :: "nat \<Rightarrow> 'm cluster \<Rightarrow> rpc option" where
  "get_rpc k c = (if k < length (cl_rpcs c) then Some (cl_rpcs c ! k) else None)"

definition put_rpc :: "nat \<Rightarrow> rpc \<Rightarrow> 'm cluster \<Rightarrow> 'm cluster" where
  "put_rpc k x c = c\<lparr>cl_rpcs := (cl_rpcs c)[k := x]\<rparr>"

definition end_rpc :: "nat \<Rightarrow> 'm cluster \<Rightarrow> 'm cluster" where
  "end_rpc k c = c\<lparr>cl_rpcs := drop_nth k (cl_rpcs c)\<rparr>"

text \<open>The addresses that goroutines of run \<open>r\<close> still deal with; \<open>wg\<close> is at zero when there are none.\<close>

fun target :: "nat \<Rightarrow> rpc \<Rightarrow> string list" where
  "target r (VoteStart r' a) = (if r' = r then [a] else [])"
| "target r (VoteSent r' a q) = (if r' = r then [a] else [])"
| "target r (VoteBack r' a q) = (if r' = r then [a] else [])"
| "target r (BeatStart p t a) = []"
| "target r (BeatSent p t a q) = []"
| "target r (BeatBack p t a es q) = []"

definition targets :: "nat \<Rightarrow> rpc list \<Rightarrow> string list" where
  "targets r xs = concat (map (target r) xs)"

section \<open>Steps\<close>

text \<open>
  The labels name the node or the goroutine that moves and carry what it reads from outside:
  clock readings, random draws, map orders, the ready channel of a \<open>select\<close>.
\<close>

datatype label =
    Clock string instant
  | Dispatch string
  | FollowerTimeout string
  | CandidateBegin string instant nat
  | CandidateSelect string
  | CandidateTimeout string
  | CandidateDone string instant nat
  | LeaderBegin string instant
  | LeaderSelect string instant "string list" leader_event
  | VoteSend nat
  | VoteServe nat instant instant nat
  | VoteReply nat instant
  | BeatSend nat
  | BeatServe nat instant instant nat
  | BeatReply nat instant
  | RpcFail nat
  | ProposeCall string bytes
  | StopNode string
  | StopSeen string

definition leader_ready :: "leader_event \<Rightarrow> 'm Node \<Rightarrow> bool" where
  "leader_ready ev n =
     (case ev of
        LStop \<Rightarrow> nd_stopped n
      | LTick \<Rightarrow> (case nd_heartbeatTimer n of None \<Rightarrow> True | Some t \<Rightarrow> timer_ready t n)
      | LCommit \<Rightarrow> nd_commitCh n)"

definition blocked :: "pc \<Rightarrow> bool" where
  "blocked x = (case x of Loop (WaitFollower t) \<Rightarrow> True | Counting r t \<Rightarrow> True | _ \<Rightarrow> False)"

text \<open>The steps of the main loop of node \<open>p\<close>.\<close>

fun main_step :: "label \<Rightarrow> 'm cluster \<Rightarrow> 'm cluster option" where
  "main_step (Clock p now) c =
     do {
       n \<leftarrow> cl_nodes c p;
       Some (set_node p (n\<lparr>nd_timers := map (Timer_tick now) (nd_timers n)\<rparr>) c)
     }"
| "main_step (Dispatch p) c =
     do {
       n \<leftarrow> cl_nodes c p;
       if cl_pc c p = Loop RunTop then Some (set_pc p (Loop (run_dispatch n)) c) else None
     }"
| "main_step (FollowerTimeout p) c =
     do {
       n \<leftarrow> cl_nodes c p;
       n' \<leftarrow> (case cl_pc c p of Loop (WaitFollower t) \<Rightarrow> follower_timeout t n | _ \<Rightarrow> None);
       Some (set_pc p (Loop RunTop) (set_node p n' c))
     }"
| "main_step (CandidateBegin p now rnd) c =
     do {
       n \<leftarrow> cl_nodes c p;
       (n', term) \<leftarrow> (if cl_pc c p = Loop InCandidate then candidate_begin now rnd n else None);
       let r = length (cl_runs c);
       let run = \<lparr>run_node = p, run_term = term, run_votes = 1, run_from = []\<rparr>;
       Some ((set_pc p (Spawned r) (set_node p n' c))
               \<lparr>cl_runs := cl_runs c @ [run], cl_rpcs := cl_rpcs c @ map (VoteStart r) (nd_peers n),
                cl_granted := (p, term, p) # cl_granted c\<rparr>)
     }"
| "main_step (CandidateSelect p) c =
     do {
       n \<leftarrow> cl_nodes c p;
       r \<leftarrow> (case cl_pc c p of Spawned r \<Rightarrow> Some r | _ \<Rightarrow> None);
       Some (set_pc p (Counting r (nd_electionTimer n)) c)
     }"
| "main_step (CandidateTimeout p) c =
     do {
       n \<leftarrow> cl_nodes c p;
       t \<leftarrow> (case cl_pc c p of Counting r t \<Rightarrow> t | _ \<Rightarrow> None);
       if timer_ready t n then Some (set_pc p (Loop RunTop) (set_node p (timer_receive t n) c)) else None
     }"
| "main_step (CandidateDone p now rnd) c =
     do {
       n \<leftarrow> cl_nodes c p;
       r \<leftarrow> (case cl_pc c p of Counting r t \<Rightarrow> Some r | _ \<Rightarrow> None);
       n' \<leftarrow> (if targets r (cl_rpcs c) = [] then candidate_finish now rnd n (run_votes (cl_runs c ! r)) else None);
       Some (set_pc p (Loop RunTop) (set_node p n' c))
     }"
| "main_step (LeaderBegin p now) c =
     do {
       n \<leftarrow> cl_nodes c p;
       (n', calls) \<leftarrow> (if cl_pc c p = Loop InLeader then Some (leader_begin now n) else None);
       Some ((set_pc p Leading (set_node p n' c))
               \<lparr>cl_rpcs := cl_rpcs c @ map (\<lambda>(term, a). BeatStart p term a) calls\<rparr>)
     }"
| "main_step (LeaderSelect p now keys ev) c =
     do {
       n \<leftarrow> cl_nodes c p;
       ((n', x), calls) \<leftarrow>
         (if cl_pc c p = Leading \<and> leader_ready ev n then Some (leader_select now keys ev n) else None);
       Some ((set_pc p (if x = InLeader then Leading else Loop x) (set_node p n' c))
               \<lparr>cl_rpcs := cl_rpcs c @ map (\<lambda>(term, a). BeatStart p term a) calls\<rparr>)
     }"
| "main_step (ProposeCall p cmd) c =
     do {
       n \<leftarrow> cl_nodes c p;
       Some (set_node p (fst (Propose n cmd)) c)
     }"
| "main_step (StopNode p) c =
     do {
       n \<leftarrow> cl_nodes c p;
       if nd_stopped n then None else Some (set_node p (Node_Stop n) c)
     }"
| "main_step (StopSeen p) c =
     do {
       n \<leftarrow> cl_nodes c p;
       if nd_stopped n \<and> blocked (cl_pc c p) then Some (set_pc p (Loop RunTop) c) else None
     }"
| "main_step _ c = None"

text \<open>The steps of goroutine \<open>k\<close>: build and send the request, be served, use the answer.\<close>

fun rpc_step :: "label \<Rightarrow> 'm cluster \<Rightarrow> 'm cluster option" where
  "rpc_step (VoteSend k) c =
     do {
       (r, a) \<leftarrow> (case get_rpc k c of Some (VoteStart r a) \<Rightarrow> Some (r, a) | _ \<Rightarrow> None);
       let run = cl_runs c ! r;
       n \<leftarrow> cl_nodes c (run_node run);
       Some (put_rpc k (VoteSent r a (candidate_request n (run_term run))) c)
     }"
| "rpc_step (VoteServe k hb now rnd) c =
     do {
       (r, a, req) \<leftarrow> (case get_rpc k c of Some (VoteSent r a req) \<Rightarrow> Some (r, a, req) | _ \<Rightarrow> None);
       let v = cl_addr c a;
       n \<leftarrow> cl_nodes c v;
       (n', resp) \<leftarrow> HandleRequestVote hb now rnd n req;
       let c' = put_rpc k (VoteBack r a resp) (set_node v n' c);
       Some (if vr_VoteGranted resp
             then c'\<lparr>cl_granted := (v, vq_Term req, vq_CandidateID req) # cl_granted c'\<rparr> else c')
     }"
| "rpc_step (VoteReply k hb) c =
     do {
       (r, a, resp) \<leftarrow> (case get_rpc k c of Some (VoteBack r a resp) \<Rightarrow> Some (r, a, resp) | _ \<Rightarrow> None);
       let run = cl_runs c ! r;
       n \<leftarrow> cl_nodes c (run_node run);
       let (n', votes) = candidate_reply (run_term run) (n, run_votes run) (hb, Some resp);
       let run' = run\<lparr>run_votes := votes,
                      run_from := (if votes = run_votes run then run_from run else cl_addr c a # run_from run)\<rparr>;
       Some ((end_rpc k (set_node (run_node run) n' c))\<lparr>cl_runs := (cl_runs c)[r := run']\<rparr>)
     }"
| "rpc_step (BeatSend k) c =
     do {
       (p, term, a) \<leftarrow> (case get_rpc k c of Some (BeatStart p term a) \<Rightarrow> Some (p, term, a) | _ \<Rightarrow> None);
       n \<leftarrow> cl_nodes c p;
       Some (put_rpc k (BeatSent p term a (heartbeat_request n term a)) c)
     }"
| "rpc_step (BeatServe k hb now rnd) c =
     do {
       (p, term, a, req) \<leftarrow>
         (case get_rpc k c of Some (BeatSent p term a req) \<Rightarrow> Some (p, term, a, req) | _ \<Rightarrow> None);
       let v = cl_addr c a;
       n \<leftarrow> cl_nodes c v;
       (n', resp) \<leftarrow> HandleAppendEntries hb now rnd n req;
       Some (put_rpc k (BeatBack p term a (aq_Entries req) resp) (set_node v n' c))
     }"
| "rpc_step (BeatReply k hb) c =
     do {
       (p, term, a, es, resp) \<leftarrow>
         (case get_rpc k c of Some (BeatBack p term a es resp) \<Rightarrow> Some (p, term, a, es, resp) | _ \<Rightarrow> None);
       n \<leftarrow> cl_nodes c p;
       Some (end_rpc k (set_node p (heartbeat_reply hb term a es (Some resp) n) c))
     }"
| "rpc_step (RpcFail k) c = (if k < length (cl_rpcs c) then Some (end_rpc k c) else None)"
| "rpc_step _ c = None"

definition cluster_step :: "label \<Rightarrow> 'm cluster \<Rightarrow> 'm cluster option" where
  "cluster_step l c = (case main_step l c of Some c' \<Rightarrow> Some c' | None \<Rightarrow> rpc_step l c)"

text \<open>A run of steps, each of which must pass a guard.\<close>

fun exec :: "(label \<Rightarrow> 'm cluster \<Rightarrow> bool) \<Rightarrow> label list \<Rightarrow> 'm cluster \<Rightarrow> 'm cluster option" where
  "exec g [] c = Some c"
| "exec g (l # ls) c = (if g l c then Option.bind (cluster_step l c) (exec g ls) else None)"

definition leaders :: "'m cluster \<Rightarrow> u64 \<Rightarrow> string set" where
  "leaders c T = {p. \<exists>n. cl_nodes c p = Some n \<and> IsLeader n \<and> currentTerm (nd_state n) = T}"

section \<open>Handlers, seen from the election\<close>

lemma reset_dest:
  "resetElectionTimer now rnd n = Some n' \<Longrightarrow> nd_state n' = nd_state n \<and> nd_id n' = nd_id n \<and> nd_peers n' = nd_peers n"
  by (simp add: resetElectionTimer_frame)

lemma HandleRequestVote_frame:
  assumes "HandleRequestVote hb now rnd n req = Some (n', resp)"
  shows "nd_id n' = nd_id n" "nd_peers n' = nd_peers n"
    and "\<not> vr_VoteGranted resp \<Longrightarrow> nd_state n' =
      (if currentTerm (nd_state n) < vq_Term req
       then State_BecomeFollower hb (vq_Term req) '''' (nd_state n) else nd_state n)"
    and "vr_VoteGranted resp \<Longrightarrow> grants req (nd_state n) \<and> nd_state n' =
      (if currentTerm (nd_state n) < vq_Term req
       then State_BecomeFollower hb (vq_Term req) '''' (nd_state n) else nd_state n)
        \<lparr>votedFor := vq_CandidateID req\<rparr>"
  using assms
  by (auto simp: HandleRequestVote_def Let_def raft_simps grants_def vote_free_def up_to_date_def
      dest!: reset_dest split: if_splits)

lemma HandleAppendEntries_frame:
  assumes "HandleAppendEntries hb now rnd n req = Some (n', resp)"
  shows "nd_id n' = nd_id n" "nd_peers n' = nd_peers n"
    and "aq_Term req < currentTerm (nd_state n) \<Longrightarrow> n' = n"
    and "currentTerm (nd_state n) \<le> aq_Term req \<Longrightarrow>
      currentTerm (nd_state n') = aq_Term req \<and> votedFor (nd_state n') = '''' \<and> st_state (nd_state n') = Follower"
  using assms
  by (auto simp: HandleAppendEntries_def Let_def raft_simps not_le
      dest!: reset_dest split: if_splits option.splits)

section \<open>The election invariant\<close>

text \<open>
  Every node knows the others: its peers are the addresses of the other nodes, each once. Node
  ids are not empty, since the empty string stands for no vote.
\<close>

definition topology :: "(string \<Rightarrow> string) \<Rightarrow> (string \<rightharpoonup> 'm Node) \<Rightarrow> bool" where
  "topology addr nodes \<longleftrightarrow> finite (dom nodes) \<and> '''' \<notin> dom nodes \<and>
     (\<forall>p n. nodes p = Some n \<longrightarrow>
        nd_id n = p \<and> distinct (map addr (nd_peers n)) \<and> addr ` set (nd_peers n) = dom nodes - {p})"

definition cluster_start :: "(string \<Rightarrow> string) \<Rightarrow> (string \<rightharpoonup> 'm Node) \<Rightarrow> 'm cluster" where
  "cluster_start addr nodes =
     \<lparr>cl_addr = addr, cl_nodes = nodes, cl_pc = (\<lambda>_. Loop RunTop), cl_runs = [], cl_rpcs = [], cl_granted = []\<rparr>"

definition cluster_initial :: "'m cluster \<Rightarrow> bool" where
  "cluster_initial c \<longleftrightarrow> c = cluster_start (cl_addr c) (cl_nodes c) \<and> topology (cl_addr c) (cl_nodes c) \<and>
     (\<forall>p n. cl_nodes c p = Some n \<longrightarrow> nd_state n = NewState)"

text \<open>More than half of the nodes: what a winning candidate has collected.\<close>

definition cluster_quorum :: "string set \<Rightarrow> string set \<Rightarrow> bool" where
  "cluster_quorum M S \<longleftrightarrow> finite M \<and> S \<subseteq> M \<and> card M div 2 + 1 \<le> card S"

interpretation cluster: quorum_system "cluster_quorum M" for M
proof
  fix A B assume "cluster_quorum M A" "cluster_quorum M B"
  then show "A \<inter> B \<noteq> {}" by (intro majority_overlap [of A M B]) (auto simp: cluster_quorum_def)
qed

text \<open>
  A vote that was cast is of no later term than those of the voter and of the candidate. And nobody
  has voted for two candidates in one term.
\<close>

definition node_term :: "'m cluster \<Rightarrow> string \<Rightarrow> u64" where
  "node_term c p = (case cl_nodes c p of None \<Rightarrow> 0 | Some n \<Rightarrow> currentTerm (nd_state n))"

lemma node_term_Some [simp]: "cl_nodes c p = Some n \<Longrightarrow> node_term c p = currentTerm (nd_state n)"
  by (simp add: node_term_def)

definition votes_once :: "'m cluster \<Rightarrow> bool" where
  "votes_once c \<longleftrightarrow> (\<forall>(v, T, x) \<in> set (cl_granted c). T \<le> node_term c v \<and> T \<le> node_term c x) \<and>
     (\<forall>v T x y. (v, T, x) \<in> set (cl_granted c) \<and> (v, T, y) \<in> set (cl_granted c) \<longrightarrow> x = y)"

text \<open>
  The votes that a run counts were cast by different nodes for its candidate in its term, and
  none of them is one of the nodes it still waits for.
\<close>

definition run_ok :: "'m cluster \<Rightarrow> nat \<Rightarrow> bool" where
  "run_ok c r \<longleftrightarrow>
     (let run = cl_runs c ! r
      in run_votes run = Suc (length (run_from run)) \<and>
         distinct (map (cl_addr c) (targets r (cl_rpcs c)) @ run_from run @ [run_node run]) \<and>
         (\<forall>v \<in> set (run_from run @ [run_node run]).
            v \<in> dom (cl_nodes c) \<and> (v, run_term run, run_node run) \<in> set (cl_granted c)))"

fun rpc_ok :: "'m cluster \<Rightarrow> rpc \<Rightarrow> bool" where
  "rpc_ok c (VoteStart r a) \<longleftrightarrow> r < length (cl_runs c)"
| "rpc_ok c (VoteSent r a req) \<longleftrightarrow> r < length (cl_runs c) \<and>
     vq_Term req = run_term (cl_runs c ! r) \<and> vq_CandidateID req = run_node (cl_runs c ! r)"
| "rpc_ok c (VoteBack r a resp) \<longleftrightarrow> r < length (cl_runs c) \<and>
     (vr_VoteGranted resp \<longrightarrow>
        cl_addr c a \<in> dom (cl_nodes c) \<and>
        (cl_addr c a, run_term (cl_runs c ! r), run_node (cl_runs c ! r)) \<in> set (cl_granted c))"
| "rpc_ok c _ \<longleftrightarrow> True"

definition leader_elected :: "'m cluster \<Rightarrow> bool" where
  "leader_elected c \<longleftrightarrow> (\<forall>p n. cl_nodes c p = Some n \<and> IsLeader n \<longrightarrow>
     (\<exists>S. cluster_quorum (dom (cl_nodes c)) S \<and> (\<forall>v \<in> S. (v, currentTerm (nd_state n), p) \<in> set (cl_granted c))))"

definition pc_ok :: "'m cluster \<Rightarrow> bool" where
  "pc_ok c \<longleftrightarrow> (\<forall>p r t. cl_pc c p = Spawned r \<or> cl_pc c p = Counting r t \<longrightarrow>
     r < length (cl_runs c) \<and> run_node (cl_runs c ! r) = p)"

definition election_inv :: "'m cluster \<Rightarrow> bool" where
  "election_inv c \<longleftrightarrow> topology (cl_addr c) (cl_nodes c) \<and> votes_once c \<and>
     (\<forall>r < length (cl_runs c). run_ok c r) \<and> (\<forall>x \<in> set (cl_rpcs c). rpc_ok c x) \<and> leader_elected c \<and> pc_ok c"

section \<open>Steps that keep the invariant\<close>

text \<open>A change of a node that lowers no term and makes no leader.\<close>

definition quiet :: "'m Node \<Rightarrow> 'm Node \<Rightarrow> bool" where
  "quiet n n' \<longleftrightarrow> nd_id n' = nd_id n \<and> nd_peers n' = nd_peers n \<and>
     currentTerm (nd_state n) \<le> currentTerm (nd_state n') \<and>
     (IsLeader n' \<longrightarrow> IsLeader n \<and> currentTerm (nd_state n') = currentTerm (nd_state n))"

lemma set_node_simps [simp]:
  "cl_addr (set_node p n c) = cl_addr c" "cl_nodes (set_node p n c) = (cl_nodes c)(p \<mapsto> n)"
  "cl_pc (set_node p n c) = cl_pc c" "cl_runs (set_node p n c) = cl_runs c"
  "cl_rpcs (set_node p n c) = cl_rpcs c" "cl_granted (set_node p n c) = cl_granted c"
  by (simp_all add: set_node_def)

lemma set_pc_simps [simp]:
  "cl_addr (set_pc p x c) = cl_addr c" "cl_nodes (set_pc p x c) = cl_nodes c"
  "cl_pc (set_pc p x c) = (cl_pc c)(p := x)" "cl_runs (set_pc p x c) = cl_runs c"
  "cl_rpcs (set_pc p x c) = cl_rpcs c" "cl_granted (set_pc p x c) = cl_granted c"
  by (simp_all add: set_pc_def)

lemma node_term_upd:
  "node_term (set_node p n c) q = (if q = p then currentTerm (nd_state n) else node_term c q)"
  "node_term (set_pc p x c) q = node_term c q"
  "node_term (c\<lparr>cl_granted := g\<rparr>) q = node_term c q" "node_term (c\<lparr>cl_rpcs := xs\<rparr>) q = node_term c q"
  "node_term (c\<lparr>cl_runs := rs\<rparr>) q = node_term c q"
  by (simp_all add: node_term_def)

lemma votes_once_terms: "votes_once c \<Longrightarrow> (v, T, x) \<in> set (cl_granted c) \<Longrightarrow> T \<le> node_term c v \<and> T \<le> node_term c x"
  by (auto simp: votes_once_def)

lemma votes_once_mono:
  assumes "votes_once c" "cl_granted c' = cl_granted c" "\<And>q. node_term c q \<le> node_term c' q"
  shows "votes_once c'"
proof -
  have "T \<le> node_term c' v \<and> T \<le> node_term c' x" if "(v, T, x) \<in> set (cl_granted c')" for v T x
  proof -
    have "T \<le> node_term c v" "T \<le> node_term c x" using assms(1,2) that by (auto simp: votes_once_def)
    then show ?thesis using assms(3) by (meson order_trans)
  qed
  then show ?thesis using assms(1,2) unfolding votes_once_def by auto
qed

lemma dom_upd_same: "m p = Some n \<Longrightarrow> dom (m(p \<mapsto> n')) = dom m"
  by auto

lemma topology_upd:
  assumes "topology addr nodes" "nodes p = Some n" "nd_id n' = nd_id n" "nd_peers n' = nd_peers n"
  shows "topology addr (nodes(p \<mapsto> n'))"
  using assms dom_upd_same [of nodes p n n', OF assms(2)]
  by (simp add: topology_def del: dom_fun_upd)

lemma rpc_ok_cong:
  "length (cl_runs c') = length (cl_runs c)
     \<Longrightarrow> (\<And>r. r < length (cl_runs c) \<Longrightarrow> run_term (cl_runs c' ! r) = run_term (cl_runs c ! r) \<and>
            run_node (cl_runs c' ! r) = run_node (cl_runs c ! r))
     \<Longrightarrow> cl_addr c' = cl_addr c \<Longrightarrow> dom (cl_nodes c') = dom (cl_nodes c)
     \<Longrightarrow> set (cl_granted c) \<subseteq> set (cl_granted c') \<Longrightarrow> rpc_ok c x \<Longrightarrow> rpc_ok c' x"
  by (cases x) auto

lemma inv_set_node:
  assumes inv: "election_inv c" and n: "cl_nodes c p = Some n" and q: "quiet n n'"
  shows "election_inv (set_node p n' c)"
proof -
  note dom = dom_upd_same [of "cl_nodes c" p n n', OF n]
  have once: "votes_once c" using inv by (simp add: election_inv_def)
  have "node_term c x \<le> node_term (set_node p n' c) x" for x using n q by (simp add: node_term_upd quiet_def)
  then have "votes_once (set_node p n' c)" by (intro votes_once_mono [OF once]) simp_all
  moreover have "leader_elected (set_node p n' c)"
    using inv n q by (auto simp: leader_elected_def election_inv_def quiet_def dom simp del: dom_fun_upd)
  moreover have "topology (cl_addr c) ((cl_nodes c)(p \<mapsto> n'))"
    using inv n q topology_upd by (auto simp: election_inv_def quiet_def)
  moreover have "rpc_ok c x \<Longrightarrow> rpc_ok (set_node p n' c) x" for x
    by (rule rpc_ok_cong [of _ c]) (simp_all add: dom del: dom_fun_upd)
  ultimately show ?thesis
    using inv by (auto simp: election_inv_def run_ok_def pc_ok_def Let_def dom simp del: dom_fun_upd)
qed

lemma inv_set_pc:
  assumes "election_inv c"
    and "\<And>r t. x = Spawned r \<or> x = Counting r t \<Longrightarrow> r < length (cl_runs c) \<and> run_node (cl_runs c ! r) = p"
  shows "election_inv (set_pc p x c)"
proof -
  have "rpc_ok c y \<Longrightarrow> rpc_ok (set_pc p x c) y" for y
    by (rule rpc_ok_cong [of _ c]) simp_all
  then show ?thesis
    using assms by (auto simp: election_inv_def run_ok_def votes_once_def node_term_upd leader_elected_def pc_ok_def)
qed

lemma inv_granted:
  assumes inv: "election_inv c" and terms: "T \<le> node_term c v" "T \<le> node_term c x"
    and uniq: "\<And>y. (v, T, y) \<in> set (cl_granted c) \<Longrightarrow> y = x"
  shows "election_inv (c\<lparr>cl_granted := (v, T, x) # cl_granted c\<rparr>)"
proof -
  let ?c = "c\<lparr>cl_granted := (v, T, x) # cl_granted c\<rparr>"
  have "rpc_ok c y \<Longrightarrow> rpc_ok ?c y" for y
    by (rule rpc_ok_cong [of _ c]) auto
  moreover have "votes_once ?c"
    using inv terms uniq unfolding election_inv_def votes_once_def by (auto simp: node_term_upd)
  moreover have "leader_elected ?c" using inv by (fastforce simp: election_inv_def leader_elected_def)
  ultimately show ?thesis
    using inv by (auto simp: election_inv_def run_ok_def pc_ok_def Let_def)
qed

lemma targets_append [simp]: "targets r (xs @ ys) = targets r xs @ targets r ys"
  by (simp add: targets_def)

lemma targets_Cons [simp]: "targets r (x # xs) = target r x @ targets r xs"
  by (simp add: targets_def)

lemma targets_Nil [simp]: "targets r [] = []"
  by (simp add: targets_def)

lemma targets_beats [simp]: "targets r (map (\<lambda>(term, a). BeatStart p term a) calls) = []"
  by (induction calls) auto

lemma targets_starts: "targets r (map (VoteStart r') as) = (if r' = r then as else [])"
  by (induction as) auto

lemma split_nth: "k < length xs \<Longrightarrow> \<exists>ys zs. xs = ys @ xs ! k # zs \<and> length ys = k"
  by (metis id_take_nth_drop length_take min.absorb4)

lemma inv_rpcs:
  assumes inv: "election_inv c" and ok: "\<And>x. x \<in> set xs \<Longrightarrow> rpc_ok c x"
    and dist: "\<And>r. r < length (cl_runs c) \<Longrightarrow> distinct (map (cl_addr c) (targets r (cl_rpcs c))) \<Longrightarrow> distinct (map (cl_addr c) (targets r xs))"
    and sub: "\<And>r. r < length (cl_runs c) \<Longrightarrow> set (targets r xs) \<subseteq> set (targets r (cl_rpcs c))"
  shows "election_inv (c\<lparr>cl_rpcs := xs\<rparr>)"
proof -
  let ?c = "c\<lparr>cl_rpcs := xs\<rparr>"
  have "rpc_ok c y \<Longrightarrow> rpc_ok ?c y" for y
    by (rule rpc_ok_cong [of _ c]) auto
  moreover have "run_ok ?c r" if "r < length (cl_runs c)" for r
    using inv that dist [OF that] sub [OF that] by (fastforce simp: election_inv_def run_ok_def Let_def)
  ultimately show ?thesis
    using inv ok by (auto simp: election_inv_def votes_once_def node_term_upd leader_elected_def pc_ok_def)
qed

lemma inv_put_rpc:
  assumes inv: "election_inv c" and k: "get_rpc k c = Some x" and y: "rpc_ok c y" "\<And>r. target r y = target r x"
  shows "election_inv (put_rpc k y c)"
proof -
  from k have "k < length (cl_rpcs c)" "x = cl_rpcs c ! k" by (auto simp: get_rpc_def split: if_splits)
  then obtain ys zs where xs: "cl_rpcs c = ys @ x # zs" "length ys = k" using split_nth by metis
  then have eq: "(cl_rpcs c)[k := y] = ys @ y # zs" by (metis list_update_length)
  show ?thesis
    unfolding put_rpc_def using inv xs y
    by (intro inv_rpcs) (auto simp: eq election_inv_def)
qed

lemma drop_nth_split: "drop_nth (length ys) (ys @ x # zs) = ys @ zs"
  by (simp add: drop_nth_def)

lemma inv_end_rpc:
  assumes inv: "election_inv c" and k: "k < length (cl_rpcs c)"
  shows "election_inv (end_rpc k c)"
proof -
  obtain ys x zs where xs: "cl_rpcs c = ys @ x # zs" "length ys = k" using split_nth [OF k] by blast
  show ?thesis
    unfolding end_rpc_def using inv xs
    by (intro inv_rpcs) (auto simp: drop_nth_split election_inv_def Int_Un_distrib)
qed

lemma inv_add_beats:
  assumes "election_inv c"
  shows "election_inv (c\<lparr>cl_rpcs := cl_rpcs c @ map (\<lambda>(term, a). BeatStart p term a) calls\<rparr>)"
  using assms by (intro inv_rpcs) (auto simp: election_inv_def)

text \<open>A new run starts with the candidate's own vote and a goroutine for every other node.\<close>

lemma targets_fresh:
  "election_inv c \<Longrightarrow> length (cl_runs c) \<le> r \<Longrightarrow> targets r (cl_rpcs c) = []"
proof -
  assume inv: "election_inv c" "length (cl_runs c) \<le> r"
  have "rpc_ok c x \<Longrightarrow> target r x = []" for x using inv(2) by (cases x) auto
  then show "targets r (cl_rpcs c) = []" using inv(1) by (auto simp: election_inv_def targets_def)
qed

lemma inv_new_run:
  assumes inv: "election_inv c" and p: "p \<in> dom (cl_nodes c)" "(p, T, p) \<in> set (cl_granted c)"
    and as: "distinct (map (cl_addr c) as)" "p \<notin> cl_addr c ` set as"
  shows "election_inv (c\<lparr>cl_runs := cl_runs c @ [\<lparr>run_node = p, run_term = T, run_votes = 1, run_from = []\<rparr>],
                         cl_rpcs := cl_rpcs c @ map (VoteStart (length (cl_runs c))) as\<rparr>)"
    (is "election_inv ?c")
proof -
  have "rpc_ok c x \<Longrightarrow> rpc_ok ?c x" for x by (cases x) (auto simp: nth_append)
  then have rpcs: "\<forall>x \<in> set (cl_rpcs ?c). rpc_ok ?c x" using inv by (auto simp: election_inv_def)
  have "run_ok ?c r" if "r < Suc (length (cl_runs c))" for r
  proof (cases "r = length (cl_runs c)")
    case True
    then show ?thesis using p as targets_fresh [OF inv, of r] by (auto simp: run_ok_def Let_def targets_starts)
  next
    case False
    then have "r < length (cl_runs c)" "run_ok c r" using that inv by (simp_all add: election_inv_def)
    then show ?thesis by (simp add: run_ok_def Let_def nth_append targets_starts)
  qed
  with rpcs inv show ?thesis
    by (auto simp: election_inv_def votes_once_def node_term_upd leader_elected_def pc_ok_def nth_append less_Suc_eq)
qed

text \<open>Counting a granted vote.\<close>

lemma inv_count:
  assumes inv: "election_inv c" and k: "get_rpc k c = Some (VoteBack r a resp)" "vr_VoteGranted resp"
  defines "run \<equiv> cl_runs c ! r"
  shows "election_inv ((end_rpc k c)\<lparr>cl_runs := (cl_runs c)
           [r := run\<lparr>run_votes := run_votes run + 1, run_from := cl_addr c a # run_from run\<rparr>]\<rparr>)"
    (is "election_inv ?c")
proof -
  from k have kl: "k < length (cl_rpcs c)" "cl_rpcs c ! k = VoteBack r a resp"
    by (auto simp: get_rpc_def split: if_splits)
  then obtain ys zs where xs: "cl_rpcs c = ys @ VoteBack r a resp # zs" "length ys = k"
    using split_nth by metis
  have vb: "rpc_ok c (VoteBack r a resp)" and r: "r < length (cl_runs c)"
    using inv xs by (auto simp: election_inv_def)
  have inv1: "election_inv (end_rpc k c)" by (rule inv_end_rpc [OF inv kl(1)])
  have e: "end_rpc k c = c\<lparr>cl_rpcs := ys @ zs\<rparr>" using xs by (simp add: end_rpc_def) (metis drop_nth_split)
  have ok: "rpc_ok (end_rpc k c) x \<Longrightarrow> rpc_ok ?c x" for x
    by (rule rpc_ok_cong [of _ "end_rpc k c"]) (auto simp: nth_list_update run_def e r)
  have "run_ok c r" using inv r by (simp add: election_inv_def)
  then have "run_ok ?c r"
    using vb k(2) r by (auto simp: run_ok_def Let_def run_def e xs)
  moreover have "run_ok ?c q" if "q < length (cl_runs c)" "q \<noteq> r" for q
    using inv1 that by (auto simp: election_inv_def run_ok_def Let_def e)
  ultimately have "\<forall>q < length (cl_runs ?c). run_ok ?c q" by auto
  moreover have "pc_ok ?c" using inv r by (auto simp: pc_ok_def election_inv_def nth_list_update run_def e)
  moreover have "votes_once ?c" "leader_elected ?c" "topology (cl_addr ?c) (cl_nodes ?c)"
    using inv1 by (auto simp: election_inv_def votes_once_def node_term_upd leader_elected_def)
  moreover have "\<forall>x \<in> set (cl_rpcs ?c). rpc_ok ?c x"
    using inv1 ok by (auto simp: election_inv_def)
  ultimately show ?thesis by (simp add: election_inv_def)
qed

text \<open>A candidate that has the votes of a majority for its current term may become leader.\<close>

lemma inv_win:
  assumes inv: "election_inv c" and n: "cl_nodes c p = Some n" and r: "r < length (cl_runs c)"
    and run: "run_node (cl_runs c ! r) = p" "run_term (cl_runs c ! r) = currentTerm (nd_state n)"
    and votes: "votesNeeded n \<le> run_votes (cl_runs c ! r)"
  shows "election_inv (set_node p (upd_state (State_BecomeLeader (nd_id n) (nd_peers n)) n) c)"
proof -
  define n' where "n' = upd_state (State_BecomeLeader (nd_id n) (nd_peers n)) n"
  have same: "currentTerm (nd_state n') = currentTerm (nd_state n)"
    "nd_id n' = nd_id n" "nd_peers n' = nd_peers n"
    by (simp_all add: n'_def raft_simps)
  let ?c = "set_node p n' c" and ?M = "dom (cl_nodes c)"
  define S where "S = set (p # run_from (cl_runs c ! r))"
  note dom = dom_upd_same [of "cl_nodes c" p n n', OF n]
  have rok: "run_ok c r" using inv r by (simp add: election_inv_def)
  have top: "topology (cl_addr c) (cl_nodes c)" using inv by (simp add: election_inv_def)
  then have "distinct (map (cl_addr c) (nd_peers n))" "set (map (cl_addr c) (nd_peers n)) = ?M - {p}"
    using n by (auto simp: topology_def)
  then have "length (nd_peers n) = card (?M - {p})" by (metis distinct_card length_map)
  moreover have "finite ?M" "p \<in> ?M" using top n by (auto simp: topology_def)
  ultimately have cardM: "card ?M = length (nd_peers n) + 1"
    using card_Suc_Diff1 [of ?M p] by simp
  have "card S = run_votes (cl_runs c ! r)"
    using rok run by (simp add: S_def run_ok_def Let_def distinct_card)
  moreover have "S \<subseteq> ?M" and gr: "\<forall>v \<in> S. (v, currentTerm (nd_state n), p) \<in> set (cl_granted c)"
    using rok run by (auto simp: S_def run_ok_def Let_def)
  ultimately have "cluster_quorum ?M S"
    using votes cardM \<open>finite ?M\<close> by (simp add: cluster_quorum_def votesNeeded_def)
  then have "leader_elected ?c"
    using inv gr by (auto simp: election_inv_def leader_elected_def dom same simp del: dom_fun_upd)
  moreover have "votes_once ?c"
  proof (rule votes_once_mono [of c])
    show "votes_once c" using inv by (simp add: election_inv_def)
  qed (use n in \<open>simp_all add: node_term_upd same\<close>)
  moreover have "topology (cl_addr c) ((cl_nodes c)(p \<mapsto> n'))"
    by (rule topology_upd [OF top n]) (simp_all add: same)
  moreover have "rpc_ok c x \<Longrightarrow> rpc_ok ?c x" for x
    by (rule rpc_ok_cong [of _ c]) (simp_all add: dom del: dom_fun_upd)
  ultimately have "election_inv ?c"
    using inv by (auto simp: election_inv_def run_ok_def pc_ok_def Let_def dom simp del: dom_fun_upd)
  then show ?thesis by (simp add: n'_def)
qed

section \<open>Election safety\<close>

text \<open>
  The steps that break Raft's rules, and that the code takes nevertheless. \<open>BecomeFollower\<close> erases
  the vote of the current term when a heartbeat of that term arrives, so that the node can vote a
  second time in it; it lowers the term when an answer carries an older one; \<open>runCandidate\<close> makes
  the node leader of whatever its term is when the votes have been counted. The harm is excluded
  where it is done: a second vote for another candidate, a term that goes down, a leader of another
  term. The remaining exclusions are the wrap-around of the term and of the log's indices.
\<close>

definition votes_again :: "string \<Rightarrow> VoteRequest \<Rightarrow> 'm cluster \<Rightarrow> bool" where
  "votes_again v req c \<longleftrightarrow>
     (\<exists>(u, T, x) \<in> set (cl_granted c). u = v \<and> T = vq_Term req \<and> x \<noteq> vq_CandidateID req)"

fun avoids_defects :: "label \<Rightarrow> 'm cluster \<Rightarrow> bool" where
  "avoids_defects (VoteServe k hb now rnd) c =
     (case get_rpc k c of
        Some (VoteSent r a req) \<Rightarrow>
          (case Option.bind (cl_nodes c (cl_addr c a)) (\<lambda>n. HandleRequestVote hb now rnd n req) of
             Some (n', resp) \<Rightarrow> vr_VoteGranted resp \<longrightarrow> \<not> votes_again (cl_addr c a) req c | None \<Rightarrow> True)
      | _ \<Rightarrow> True)"
| "avoids_defects (BeatReply k hb) c =
     (case get_rpc k c of
        Some (BeatBack p term a es resp) \<Rightarrow> term < ar_Term resp \<longrightarrow> node_term c p \<le> ar_Term resp | _ \<Rightarrow> True)"
| "avoids_defects (VoteReply k hb) c =
     (case get_rpc k c of
        Some (VoteBack r a resp) \<Rightarrow> run_term (cl_runs c ! r) < vr_Term resp
          \<longrightarrow> node_term c (run_node (cl_runs c ! r)) \<le> vr_Term resp | _ \<Rightarrow> True)"
| "avoids_defects (CandidateDone p now rnd) c =
     (case cl_pc c p of Counting r t \<Rightarrow> run_term (cl_runs c ! r) = node_term c p | _ \<Rightarrow> True)"
| "avoids_defects (CandidateBegin p now rnd) c = (node_term c p + 1 \<noteq> 0)"
| "avoids_defects (ProposeCall p cmd) c =
     (case cl_nodes c p of None \<Rightarrow> True | Some n \<Rightarrow> int (length (log_entries (st_log (nd_state n)))) < 2 ^ 63 - 1)"
| "avoids_defects _ c = True"

text \<open>
  A voter whose votes are still on record never casts such a second vote: the exclusion only
  concerns votes that have been erased.
\<close>

lemma kept_votes_bind:
  assumes "cl_nodes c v = Some n" "HandleRequestVote hb now rnd n req = Some (n', resp)" "vr_VoteGranted resp"
    and "\<And>T x. (v, T, x) \<in> set (cl_granted c) \<Longrightarrow> x \<noteq> '''' \<and> bound_to T x (nd_state n)"
  shows "\<not> votes_again v req c"
proof -
  have "grants req (nd_state n)" using HandleRequestVote_frame(4) [OF assms(2,3)] by simp
  then show ?thesis using assms(4) by (force simp: votes_again_def grants_def vote_free_def bound_to_def)
qed

lemma quiet_same: "nd_state n' = nd_state n \<Longrightarrow> nd_id n' = nd_id n \<Longrightarrow> nd_peers n' = nd_peers n \<Longrightarrow> quiet n n'"
  by (simp add: quiet_def IsLeader_def)

lemma quiet_follower:
  "currentTerm (nd_state n) \<le> T \<Longrightarrow> quiet n (upd_state (State_BecomeFollower hb T l) n)"
  by (simp add: quiet_def IsLeader_def raft_simps)

lemma quiet_upd:
  "currentTerm (f (nd_state n)) = currentTerm (nd_state n)
     \<Longrightarrow> st_state (f (nd_state n)) = st_state (nd_state n) \<or> st_state (f (nd_state n)) \<noteq> Leader
     \<Longrightarrow> quiet n (upd_state f n)"
  by (auto simp: quiet_def IsLeader_def raft_simps)

lemma quiet_trans_same:
  "quiet n m \<Longrightarrow> nd_state n' = nd_state m \<Longrightarrow> nd_id n' = nd_id m \<Longrightarrow> nd_peers n' = nd_peers m \<Longrightarrow> quiet n n'"
  by (simp add: quiet_def IsLeader_def)

lemma less_add_one: "x + 1 \<noteq> 0 \<Longrightarrow> x < x + (1 :: u64)"
  by (simp add: word_less_nat_alt unatSuc add.commute)

lemma timer_receive_frame [simp]:
  "nd_state (timer_receive t n) = nd_state n" "nd_id (timer_receive t n) = nd_id n" "nd_peers (timer_receive t n) = nd_peers n"
  by (simp_all add: timer_receive_def)

lemma quiet_follower_timeout: "follower_timeout t n = Some n' \<Longrightarrow> quiet n n'"
  by (auto simp: follower_timeout_def quiet_def IsLeader_def raft_simps split: if_splits)

lemma quiet_candidate_begin:
  assumes "candidate_begin now rnd n = Some (n', T)" "currentTerm (nd_state n) + 1 \<noteq> 0"
  shows "quiet n n'" "T = currentTerm (nd_state n')" "currentTerm (nd_state n) < T"
  using assms less_add_one [OF assms(2)]
  by (auto simp: candidate_begin_def quiet_def IsLeader_def raft_simps Let_def dest!: reset_dest)

lemma quiet_vote:
  assumes "HandleRequestVote hb now rnd n req = Some (n', resp)"
  shows "quiet n n'"
    and "vr_VoteGranted resp \<Longrightarrow> currentTerm (nd_state n') = vq_Term req"
  using HandleRequestVote_frame [OF assms]
  by (cases "vr_VoteGranted resp";
      auto simp: quiet_def IsLeader_def raft_simps grants_def vote_free_def bound_to_def split: if_splits)+

lemma quiet_append:
  assumes "HandleAppendEntries hb now rnd n req = Some (n', resp)"
  shows "quiet n n'"
proof (cases "aq_Term req < currentTerm (nd_state n)")
  case True
  with HandleAppendEntries_frame(3) [OF assms] show ?thesis by (simp add: quiet_same)
next
  case False
  with HandleAppendEntries_frame [OF assms] show ?thesis
    by (simp add: quiet_def IsLeader_def raft_simps not_less)
qed

lemma quiet_beat_reply:
  assumes "\<And>resp. r = Some resp \<Longrightarrow> term < ar_Term resp \<Longrightarrow> currentTerm (nd_state n) \<le> ar_Term resp"
  shows "quiet n (heartbeat_reply hb term a es r n)"
  using assms
  by (auto simp: heartbeat_reply_def Let_def quiet_def IsLeader_def raft_simps split: option.split)

lemma quiet_lose:
  assumes "candidate_finish now rnd n votes = Some n'" "votes < votesNeeded n"
  shows "quiet n n'"
  using assms by (auto simp: candidate_finish_def quiet_def IsLeader_def raft_simps dest!: reset_dest)

lemma updateCommitIndex_frame:
  "nd_id (updateCommitIndex keys n) = nd_id n \<and> nd_peers (updateCommitIndex keys n) = nd_peers n \<and>
   currentTerm (nd_state (updateCommitIndex keys n)) = currentTerm (nd_state n) \<and>
   st_state (nd_state (updateCommitIndex keys n)) = st_state (nd_state n)"
  by (simp add: updateCommitIndex_def Let_def raft_simps)

lemma quiet_leader_select:
  "quiet n (fst (fst (leader_select now keys ev n)))"
  using updateCommitIndex_frame [of keys "n\<lparr>nd_commitCh := False\<rparr>"]
  by (auto simp: leader_select_def leader_check_def quiet_def IsLeader_def raft_simps
      split: leader_event.split option.split)

lemma quiet_propose: "quiet n (fst (Propose n cmd))"
  by (simp add: Propose_def Let_def case_prod_unfold quiet_def IsLeader_def raft_simps)

lemma quiet_stop: "quiet n (Node_Stop n)"
  by (rule quiet_same) (simp_all add: Node_Stop_def)

lemma inv_move:
  assumes "election_inv c" "cl_nodes c p = Some n" "quiet n n'"
    and "\<And>r t. x \<noteq> Spawned r \<and> x \<noteq> Counting r t"
  shows "election_inv (set_pc p x (set_node p n' c))"
  using assms by (intro inv_set_pc inv_set_node) auto

lemma pc_run:
  "election_inv c \<Longrightarrow> cl_pc c p = Spawned r \<or> cl_pc c p = Counting r t
     \<Longrightarrow> r < length (cl_runs c) \<and> run_node (cl_runs c ! r) = p"
  unfolding election_inv_def pc_ok_def by blast

lemma inv_candidate_begin:
  assumes inv: "election_inv c" and n: "cl_nodes c p = Some n"
    and b: "candidate_begin now rnd n = Some (n', T)" "node_term c p + 1 \<noteq> 0"
  defines "r \<equiv> length (cl_runs c)"
  shows "election_inv ((set_pc p (Spawned r) (set_node p n' c))
           \<lparr>cl_runs := cl_runs c @ [\<lparr>run_node = p, run_term = T, run_votes = 1, run_from = []\<rparr>],
            cl_rpcs := cl_rpcs c @ map (VoteStart r) (nd_peers n),
            cl_granted := (p, T, p) # cl_granted c\<rparr>)" (is "election_inv ?c")
proof -
  note q = quiet_candidate_begin [OF b(1)] and top = inv [unfolded election_inv_def, THEN conjunct1]
  have p: "nd_id n = p" "p \<noteq> ''''" "distinct (map (cl_addr c) (nd_peers n))" "p \<notin> cl_addr c ` set (nd_peers n)"
    using top n by (auto simp: topology_def)
  let ?c1 = "set_node p n' c"
  let ?c2 = "?c1\<lparr>cl_granted := (p, T, p) # cl_granted ?c1\<rparr>"
  let ?c3 = "?c2\<lparr>cl_runs := cl_runs ?c2 @ [\<lparr>run_node = p, run_term = T, run_votes = 1, run_from = []\<rparr>],
                  cl_rpcs := cl_rpcs ?c2 @ map (VoteStart (length (cl_runs ?c2))) (nd_peers n)\<rparr>"
  have "election_inv ?c1" using inv n q b(2) by (intro inv_set_node) auto
  moreover have "(p, T, y) \<notin> set (cl_granted c)" for y
  proof
    assume "(p, T, y) \<in> set (cl_granted c)"
    then have "T \<le> node_term c p" using inv votes_once_terms by (auto simp: election_inv_def)
    then show False using q(3) b(2) n by simp
  qed
  ultimately have "election_inv ?c2"
    using q b(2) n by (intro inv_granted) (auto simp: node_term_upd)
  then have "election_inv ?c3" using p by (intro inv_new_run) auto
  then have "election_inv (set_pc p (Spawned r) ?c3)" by (rule inv_set_pc) (auto simp: r_def)
  also have "set_pc p (Spawned r) ?c3 = ?c" by (simp add: set_pc_def set_node_def r_def)
  finally show ?thesis .
qed

lemma candidate_finish_cases:
  "candidate_finish now rnd n votes = Some n' \<Longrightarrow>
     (votesNeeded n \<le> votes \<and> n' = upd_state (State_BecomeLeader (nd_id n) (nd_peers n)) n) \<or> quiet n n'"
  using quiet_lose [of now rnd n votes n'] by (auto simp: candidate_finish_def split: if_splits)

lemma inv_candidate_done:
  assumes inv: "election_inv c" and n: "cl_nodes c p = Some n" and pc: "cl_pc c p = Counting r t"
    and fin: "candidate_finish now rnd n (run_votes (cl_runs c ! r)) = Some n'"
    and same: "run_term (cl_runs c ! r) = node_term c p"
  shows "election_inv (set_pc p (Loop RunTop) (set_node p n' c))"
proof -
  have r: "r < length (cl_runs c)" "run_node (cl_runs c ! r) = p"
    using pc_run [OF inv] pc by blast+
  from candidate_finish_cases [OF fin] show ?thesis
  proof
    assume "votesNeeded n \<le> run_votes (cl_runs c ! r) \<and> n' = upd_state (State_BecomeLeader (nd_id n) (nd_peers n)) n"
    with inv_win [OF inv n r(1)] r same n show ?thesis by (intro inv_set_pc) auto
  next
    assume "quiet n n'"
    with inv n show ?thesis by (intro inv_move) auto
  qed
qed

lemma bind_Some_iff: "Option.bind x f = Some y \<longleftrightarrow> (\<exists>z. x = Some z \<and> f z = Some y)"
  by (cases x) auto

lemma inv_leader_begin:
  assumes inv: "election_inv c" and step: "main_step (LeaderBegin p now) c = Some c'"
  shows "election_inv c'"
proof -
  from step obtain n where n: "cl_nodes c p = Some n"
    and c': "c' = (set_pc p Leading (set_node p (fst (leader_begin now n)) c))
               \<lparr>cl_rpcs := cl_rpcs c @ map (\<lambda>(term, a). BeatStart p term a) (snd (leader_begin now n))\<rparr>"
    by (auto simp: bind_Some_iff case_prod_unfold split: if_splits)
  have "quiet n (fst (leader_begin now n))" by (rule quiet_same) (simp_all add: leader_begin_def)
  then have "election_inv (set_pc p Leading (set_node p (fst (leader_begin now n)) c))"
    by (rule inv_move [OF inv n]) simp
  from inv_add_beats [OF this] show ?thesis by (simp add: c')
qed

lemma inv_leader_select:
  assumes inv: "election_inv c" and step: "main_step (LeaderSelect p now keys ev) c = Some c'"
  shows "election_inv c'"
proof -
  define x where "x n = (if snd (fst (leader_select now keys ev n)) = InLeader then Leading
                         else Loop (snd (fst (leader_select now keys ev n))))" for n :: "'a Node"
  from step obtain n where n: "cl_nodes c p = Some n"
    and c': "c' = (set_pc p (x n) (set_node p (fst (fst (leader_select now keys ev n))) c))
               \<lparr>cl_rpcs := cl_rpcs c @ map (\<lambda>(term, a). BeatStart p term a) (snd (leader_select now keys ev n))\<rparr>"
    by (auto simp: bind_Some_iff case_prod_unfold x_def split: if_splits)
  have "election_inv (set_pc p (x n) (set_node p (fst (fst (leader_select now keys ev n))) c))"
    by (rule inv_move [OF inv n quiet_leader_select]) (simp add: x_def)
  from inv_add_beats [OF this] show ?thesis by (simp add: c')
qed

lemma main_step_inv:
  assumes inv: "election_inv c" and "avoids_defects l c" and "main_step l c = Some c'"
  shows "election_inv c'"
proof (cases l)
  case (CandidateBegin p now rnd)
  with assms show ?thesis
    by (auto simp: bind_Some_iff Let_def split: if_splits
        intro!: inv_candidate_begin [unfolded One_nat_def])
next
  case (CandidateSelect p)
  with assms show ?thesis
    by (auto simp: bind_Some_iff split: pc.splits dest: pc_run [OF inv disjI1] intro!: inv_set_pc)
next
  case (CandidateDone p now rnd)
  with assms show ?thesis
    by (auto simp: bind_Some_iff split: if_splits pc.splits intro!: inv_candidate_done)
next
  case (LeaderBegin p now)
  with inv assms(3) show ?thesis using inv_leader_begin by blast
next
  case (LeaderSelect p now keys ev)
  with inv assms(3) show ?thesis using inv_leader_select by blast
next
  case (Clock p now)
  with assms(3) show ?thesis
    by (auto simp: bind_Some_iff intro!: inv_set_node [OF inv] quiet_same)
next
  case (FollowerTimeout p)
  show ?thesis
  proof (cases "cl_pc c p")
    case (Loop x)
    with FollowerTimeout assms(3) show ?thesis
      by (cases x) (auto simp: bind_Some_iff intro!: inv_move [OF inv] quiet_follower_timeout)
  qed (use FollowerTimeout assms(3) in \<open>auto simp: bind_Some_iff\<close>)
next
  case (CandidateTimeout p)
  with assms(3) show ?thesis
    by (auto simp: bind_Some_iff split: pc.splits if_splits intro!: inv_move [OF inv] quiet_same)
qed (use assms(3) in \<open>auto simp: bind_Some_iff split: if_splits intro!: inv_set_pc [OF inv] inv_set_node [OF inv] quiet_propose quiet_stop\<close>)

lemma get_rpc_ok: "election_inv c \<Longrightarrow> get_rpc k c = Some x \<Longrightarrow> rpc_ok c x \<and> k < length (cl_rpcs c)"
  by (auto simp: get_rpc_def election_inv_def split: if_splits)

lemma get_rpc_set_node [simp]: "get_rpc k (set_node p n c) = get_rpc k c"
  by (simp add: get_rpc_def)

lemma get_rpc_granted [simp]: "get_rpc k (c\<lparr>cl_granted := g\<rparr>) = get_rpc k c"
  by (simp add: get_rpc_def)

lemma inv_vote_serve:
  assumes inv: "election_inv c" and k: "get_rpc k c = Some (VoteSent r a req)"
    and n: "cl_nodes c (cl_addr c a) = Some n" and h: "HandleRequestVote hb now rnd n req = Some (n', resp)"
    and once: "vr_VoteGranted resp \<Longrightarrow> \<not> votes_again (cl_addr c a) req c"
  defines "c' \<equiv> put_rpc k (VoteBack r a resp) (set_node (cl_addr c a) n' c)"
  shows "election_inv (if vr_VoteGranted resp
           then c'\<lparr>cl_granted := (cl_addr c a, vq_Term req, vq_CandidateID req) # cl_granted c'\<rparr> else c')"
proof -
  let ?v = "cl_addr c a"
  let ?c1 = "set_node ?v n' c"
  have sent: "r < length (cl_runs c)" "vq_Term req = run_term (cl_runs c ! r)" "vq_CandidateID req = run_node (cl_runs c ! r)"
    using get_rpc_ok [OF inv k] by simp_all
  have inv1: "election_inv ?c1" by (rule inv_set_node [OF inv n quiet_vote(1) [OF h]])
  show ?thesis
  proof (cases "vr_VoteGranted resp")
    case True
    have "(run_node (cl_runs c ! r), run_term (cl_runs c ! r), run_node (cl_runs c ! r)) \<in> set (cl_granted c)"
      using inv sent(1) by (simp add: election_inv_def run_ok_def Let_def)
    then have "vq_Term req \<le> node_term ?c1 (vq_CandidateID req)"
      using inv1 sent(2,3) votes_once_terms [of ?c1] by (simp add: election_inv_def)
    then have "election_inv (?c1\<lparr>cl_granted := (?v, vq_Term req, vq_CandidateID req) # cl_granted ?c1\<rparr>)"
      (is "election_inv ?c2")
      using inv1 quiet_vote(2) [OF h True] once [OF True]
      by (intro inv_granted) (auto simp: node_term_upd votes_again_def)
    then have "election_inv (put_rpc k (VoteBack r a resp) ?c2)"
      using k sent n by (intro inv_put_rpc [where x = "VoteSent r a req"]) auto
    moreover have "put_rpc k (VoteBack r a resp) ?c2 =
        c'\<lparr>cl_granted := (cl_addr c a, vq_Term req, vq_CandidateID req) # cl_granted c'\<rparr>"
      by (simp add: c'_def put_rpc_def set_node_def)
    ultimately show ?thesis using True by simp
  next
    case False
    then show ?thesis
      using inv1 k sent by (auto simp: c'_def intro!: inv_put_rpc [where x = "VoteSent r a req"])
  qed
qed

lemma inv_vote_reply:
  assumes inv: "election_inv c" and k: "get_rpc k c = Some (VoteBack r a resp)"
    and n: "cl_nodes c (run_node (cl_runs c ! r)) = Some n"
    and up: "run_term (cl_runs c ! r) < vr_Term resp \<Longrightarrow> currentTerm (nd_state n) \<le> vr_Term resp"
    and res: "candidate_reply (run_term (cl_runs c ! r)) (n, run_votes (cl_runs c ! r)) (hb, Some resp) = (n', votes)"
  defines "run \<equiv> cl_runs c ! r"
  shows "election_inv ((end_rpc k (set_node (run_node run) n' c))
           \<lparr>cl_runs := (cl_runs c)[r := run\<lparr>run_votes := votes,
              run_from := (if votes = run_votes run then run_from run else cl_addr c a # run_from run)\<rparr>]\<rparr>)"
proof -
  have kl: "k < length (cl_rpcs c)" using get_rpc_ok [OF inv k] by simp
  have keep: "(cl_runs c)[r := run\<lparr>run_votes := run_votes run, run_from := run_from run\<rparr>] = cl_runs c"
    by (simp add: run_def)
  have dropped: "election_inv ((end_rpc k (set_node (run_node run) m c))\<lparr>cl_runs := cl_runs c\<rparr>)" if "quiet n m" for m
    using inv_end_rpc [OF inv_set_node [OF inv n that], of k] kl by (simp add: run_def end_rpc_def set_node_def)
  consider (outdated) "run_term run < vr_Term resp" | (granted) "\<not> run_term run < vr_Term resp" "vr_VoteGranted resp"
    | (refused) "\<not> run_term run < vr_Term resp" "\<not> vr_VoteGranted resp" by blast
  then show ?thesis
  proof cases
    case outdated
    with res have "n' = upd_state (State_BecomeFollower hb (vr_Term resp) '''') n" "votes = run_votes run"
      by (auto simp: run_def)
    with dropped [OF quiet_follower [OF up]] outdated keep show ?thesis by (simp add: run_def)
  next
    case granted
    with res have "n' = n" "votes = run_votes run + 1" by (auto simp: run_def)
    moreover have "set_node (run_node run) n c = c" using n by (simp add: set_node_def run_def fun_upd_idem)
    ultimately show ?thesis using inv_count [OF inv k granted(2)] by (simp add: run_def)
  next
    case refused
    with res have "n' = n" "votes = run_votes run" by (auto simp: run_def)
    with dropped [OF quiet_same] keep show ?thesis by simp
  qed
qed

lemma inv_vote_reply_step:
  assumes inv: "election_inv c" and av: "avoids_defects (VoteReply k hb) c" and st: "rpc_step (VoteReply k hb) c = Some c'"
  shows "election_inv c'"
proof -
  from st obtain r a resp n where k: "get_rpc k c = Some (VoteBack r a resp)"
    and n: "cl_nodes c (run_node (cl_runs c ! r)) = Some n"
    by (auto simp: bind_Some_iff Let_def simp del: candidate_reply.simps split: option.splits rpc.splits)
  obtain n' votes where
    res: "candidate_reply (run_term (cl_runs c ! r)) (n, run_votes (cl_runs c ! r)) (hb, Some resp) = (n', votes)"
    by fastforce
  have c': "c' = (end_rpc k (set_node (run_node (cl_runs c ! r)) n' c))
           \<lparr>cl_runs := (cl_runs c)[r := (cl_runs c ! r)\<lparr>run_votes := votes,
              run_from := (if votes = run_votes (cl_runs c ! r) then run_from (cl_runs c ! r)
                           else cl_addr c a # run_from (cl_runs c ! r))\<rparr>]\<rparr>"
    using st k n res by (simp add: bind_Some_iff Let_def del: candidate_reply.simps)
  show ?thesis
    unfolding c' by (rule inv_vote_reply [OF inv k n _ res]) (use av k n in auto)
qed

lemma inv_beat_serve:
  assumes inv: "election_inv c" and st: "rpc_step (BeatServe k hb now rnd) c = Some c'"
  shows "election_inv c'"
proof -
  from st obtain p T a req n n' resp where k: "get_rpc k c = Some (BeatSent p T a req)"
    and n: "cl_nodes c (cl_addr c a) = Some n" and h: "HandleAppendEntries hb now rnd n req = Some (n', resp)"
    and c': "c' = put_rpc k (BeatBack p T a (aq_Entries req) resp) (set_node (cl_addr c a) n' c)"
    by (auto simp: bind_Some_iff Let_def split: option.splits rpc.splits)
  have "quiet n n'" by (rule quiet_append [OF h])
  from inv_set_node [OF inv n this] show ?thesis
    unfolding c' using k by (intro inv_put_rpc [where x = "BeatSent p T a req"]) auto
qed

lemma rpc_step_inv:
  assumes inv: "election_inv c" and av: "avoids_defects l c" and st: "rpc_step l c = Some c'"
  shows "election_inv c'"
proof (cases l)
  case (VoteSend k)
  with st obtain r a n where k: "get_rpc k c = Some (VoteStart r a)" and n: "cl_nodes c (run_node (cl_runs c ! r)) = Some n"
    and c': "c' = put_rpc k (VoteSent r a (candidate_request n (run_term (cl_runs c ! r)))) c"
    by (auto simp: bind_Some_iff Let_def split: option.splits rpc.splits)
  have "nd_id n = run_node (cl_runs c ! r)" using inv n by (auto simp: election_inv_def topology_def)
  then show ?thesis unfolding c' using get_rpc_ok [OF inv k]
    by (intro inv_put_rpc [OF inv k]) (auto simp: candidate_request_def)
next
  case (VoteServe k hb now rnd)
  with st inv av show ?thesis
    by (auto simp: bind_Some_iff Let_def split: option.splits rpc.splits simp del: if_image_distrib
        intro!: inv_vote_serve split del: if_split)
next
  case (VoteReply k hb)
  with assms show ?thesis using inv_vote_reply_step by blast
next
  case (BeatSend k)
  with st inv show ?thesis
    by (auto simp: bind_Some_iff split: option.splits rpc.splits intro!: inv_put_rpc)
next
  case (BeatServe k hb now rnd)
  with assms show ?thesis using inv_beat_serve by blast
next
  case (BeatReply k hb)
  with st obtain p T a es resp n where k: "get_rpc k c = Some (BeatBack p T a es resp)"
    and n: "cl_nodes c p = Some n"
    and c': "c' = end_rpc k (set_node p (heartbeat_reply hb T a es (Some resp) n) c)"
    by (auto simp: bind_Some_iff Let_def split: option.splits rpc.splits)
  have "quiet n (heartbeat_reply hb T a es (Some resp) n)"
    using av k n BeatReply by (intro quiet_beat_reply) auto
  from inv_set_node [OF inv n this] show ?thesis
    unfolding c' using get_rpc_ok [OF inv k] by (intro inv_end_rpc) auto
qed (use st inv in \<open>auto split: if_splits intro: inv_end_rpc\<close>)

lemma cluster_step_inv:
  assumes "election_inv c" "avoids_defects l c" "cluster_step l c = Some c'"
  shows "election_inv c'"
proof (cases "main_step l c")
  case None
  with assms(3) have "rpc_step l c = Some c'" by (simp add: cluster_step_def)
  with assms(1,2) show ?thesis by (rule rpc_step_inv)
next
  case (Some d)
  with assms(3) have "main_step l c = Some c'" by (simp add: cluster_step_def)
  with assms(1,2) show ?thesis by (rule main_step_inv)
qed

lemma cluster_initial_inv: "cluster_initial c \<Longrightarrow> election_inv c"
proof -
  assume c: "cluster_initial c"
  then have c0: "c = cluster_start (cl_addr c) (cl_nodes c)"
    unfolding cluster_initial_def by (rule conjunct1)
  have e: "cl_runs c = []" "cl_rpcs c = []" "cl_granted c = []" "cl_pc c = (\<lambda>_. Loop RunTop)"
    by (subst c0, simp add: cluster_start_def)+
  have top: "topology (cl_addr c) (cl_nodes c)" and new: "\<And>p n. cl_nodes c p = Some n \<Longrightarrow> nd_state n = NewState"
    using c unfolding cluster_initial_def by blast+
  have "\<not> IsLeader n" if "cl_nodes c p = Some n" for p n
    using new [OF that] by (simp add: IsLeader_def raft_simps NewState_def)
  with top e show ?thesis
    by (auto simp: election_inv_def votes_once_def leader_elected_def pc_ok_def)
qed

text \<open>The executions that take none of the defective steps, and all executions.\<close>

definition sound_step :: "'m cluster \<Rightarrow> 'm cluster \<Rightarrow> bool" where
  "sound_step c c' \<longleftrightarrow> (\<exists>l. avoids_defects l c \<and> cluster_step l c = Some c')"

definition any_step :: "'m cluster \<Rightarrow> 'm cluster \<Rightarrow> bool" where
  "any_step c c' \<longleftrightarrow> (\<exists>l. cluster_step l c = Some c')"

interpretation election: transition_system cluster_initial sound_step election_inv
proof
  show "cluster_initial c \<Longrightarrow> election_inv c" for c :: "'m cluster" by (rule cluster_initial_inv)
  show "election_inv c \<Longrightarrow> sound_step c c' \<Longrightarrow> election_inv c'" for c c' :: "'m cluster"
    unfolding sound_step_def using cluster_step_inv by blast
qed

lemma leader_quorum:
  "election_inv c \<Longrightarrow> p \<in> leaders c T \<Longrightarrow>
     \<exists>S. cluster_quorum (dom (cl_nodes c)) S \<and> (\<forall>v \<in> S. (v, T, p) \<in> set (cl_granted c))"
  unfolding election_inv_def leader_elected_def leaders_def by blast

lemma leaders_agree:
  assumes inv: "election_inv c" and p: "p \<in> leaders c T" and q: "q \<in> leaders c T"
  shows "p = q"
proof -
  from leader_quorum [OF inv p] obtain A where
    A: "cluster_quorum (dom (cl_nodes c)) A" "\<forall>v \<in> A. (v, T, p) \<in> set (cl_granted c)" by blast
  from leader_quorum [OF inv q] obtain B where
    B: "cluster_quorum (dom (cl_nodes c)) B" "\<forall>v \<in> B. (v, T, q) \<in> set (cl_granted c)" by blast
  obtain v where v: "(v, T, p) \<in> set (cl_granted c)" "(v, T, q) \<in> set (cl_granted c)"
    using cluster.overlap [OF A(1) B(1)] A(2) B(2) by blast
  with inv show "p = q" unfolding election_inv_def votes_once_def by blast
qed

lemma exec_reachable:
  assumes "\<And>c l c'. g l c \<Longrightarrow> cluster_step l c = Some c' \<Longrightarrow> step c c'"
    and "reachable init step c" and "exec g ls c = Some c'"
  shows "reachable init step c'"
  using assms(2,3)
proof (induction ls arbitrary: c)
  case (Cons l ls)
  then obtain d where d: "g l c" "cluster_step l c = Some d" "exec g ls d = Some c'"
    by (auto simp: bind_Some_iff split: if_splits)
  with Cons.prems(1) assms(1) have "reachable init step d" by (blast intro: reach_step)
  with Cons.IH d(3) show ?case by blast
qed simp

section \<open>Properties\<close>


text \<open>A cluster of three started nodes with the default configuration.\<close>

definition example_node :: "string \<Rightarrow> string list \<Rightarrow> unit Node" where
  "example_node i ps = the (Node_Start 0 0 (NewNode i ps example_config))"

definition example_addr :: "string \<Rightarrow> string" where
  "example_addr a = (if a = ''a1'' then ''n1'' else if a = ''a2'' then ''n2'' else ''n3'')"

definition example_cluster :: "unit cluster" where
  "example_cluster = cluster_start example_addr
     [''n1'' \<mapsto> example_node ''n1'' [''a2'', ''a3''], ''n2'' \<mapsto> example_node ''n2'' [''a1'', ''a3''],
      ''n3'' \<mapsto> example_node ''n3'' [''a1'', ''a2'']]"

lemma example_node_simps:
  "nd_id (example_node i ps) = i" "nd_peers (example_node i ps) = ps" "nd_state (example_node i ps) = NewState"
proof -
  obtain n where n: "Node_Start 0 0 (NewNode i ps example_config :: unit Node) = Some n"
    unfolding Node_Start_def using resetElectionTimer_ex [OF node_ok_NewNode [OF example_config_ok]] by blast
  then show "nd_id (example_node i ps) = i" "nd_peers (example_node i ps) = ps" "nd_state (example_node i ps) = NewState"
    using reset_dest [OF n [unfolded Node_Start_def]] by (simp_all add: example_node_def NewNode_def)
qed

lemma example_cluster_initial: "cluster_initial example_cluster"
  unfolding cluster_initial_def
proof (intro conjI)
  show "topology (cl_addr example_cluster) (cl_nodes example_cluster)"
    by (auto simp: topology_def example_cluster_def cluster_start_def example_node_simps example_addr_def)
qed (auto simp: example_cluster_def cluster_start_def example_node_simps split: if_splits)

text \<open>Node 1 times out and wins the election with the vote of node 2.\<close>

definition first_election :: "label list" where
  "first_election =
     [Dispatch ''n1'', Clock ''n1'' Second, FollowerTimeout ''n1'', Dispatch ''n1'',
      CandidateBegin ''n1'' Second 0, CandidateSelect ''n1'', VoteSend 0, VoteServe 0 Second Second 0,
      VoteReply 0 Second, RpcFail 0, CandidateDone ''n1'' Second 0]"

definition roles :: "'m cluster \<Rightarrow> (bool \<times> u64) option list" where
  "roles c = map (\<lambda>p. map_option (\<lambda>n. (IsLeader n, currentTerm (nd_state n))) (cl_nodes c p)) [''n1'', ''n2'', ''n3'']"

lemma first_election_run:
  "map_option roles (exec avoids_defects first_election example_cluster)
     = Some [Some (True, 1), Some (False, 1), Some (False, 0)]"
  by code_simp

lemma roles_leader:
  "roles c = [r1, r2, r3] \<Longrightarrow> r1 = Some (True, T) \<Longrightarrow> ''n1'' \<in> leaders c T"
  "roles c = [r1, r2, r3] \<Longrightarrow> r3 = Some (True, T) \<Longrightarrow> ''n3'' \<in> leaders c T"
  by (auto simp: roles_def leaders_def)


text \<open>
  Node 1 sends its first heartbeat to node 2, which forgets its vote; then node 3 times out and
  gets the vote of node 2 for the same term.
\<close>

definition second_election :: "label list" where
  "second_election =
     [Dispatch ''n1'', LeaderBegin ''n1'' Second, BeatSend 0, BeatServe 0 Second Second 0,
      Dispatch ''n3'', Clock ''n3'' Second, FollowerTimeout ''n3'', Dispatch ''n3'',
      CandidateBegin ''n3'' Second 0, CandidateSelect ''n3'', VoteSend 3, VoteServe 3 Second Second 0,
      VoteReply 3 Second, RpcFail 2, CandidateDone ''n3'' Second 0]"

lemma second_election_run:
  "map_option roles (exec (\<lambda>_ _. True) (first_election @ second_election) example_cluster)
     = Some [Some (True, 1), Some (False, 1), Some (True, 1)]"
  by code_simp

text \<open>
  C21. The exclusions of election safety are needed: the code as it stands lets a cluster of three
  nodes reach a state with two different leaders in the same term, because a heartbeat makes a
  follower forget the vote it cast in that term.
\<close>

theorem two_leaders_one_term:
  "\<exists>c T p q. reachable cluster_initial any_step (c :: unit cluster) \<and> p \<in> leaders c T \<and> q \<in> leaders c T \<and> p \<noteq> q"
proof -
  obtain c where run: "exec (\<lambda>_ _. True) (first_election @ second_election) example_cluster = Some c"
    and r: "roles c = [Some (True, 1), Some (False, 1), Some (True, 1)]"
    using second_election_run by auto
  have "reachable cluster_initial any_step c"
    by (rule exec_reachable [OF _ reach_init [where init = cluster_initial, OF example_cluster_initial] run]) (auto simp: any_step_def)
  moreover have "''n1'' \<in> leaders c 1" "''n3'' \<in> leaders c 1"
    using roles_leader [OF r] by auto
  moreover have "''n1'' \<noteq> ''n3''" by simp
  ultimately show ?thesis by blast
qed

end
