(* ===== verification/RaftProperties.thy ===== *)
theory RaftProperties
  imports RaftCluster
begin

text \<open>
  What the Raft node promises, stated over the operations of \<open>internal/raft\<close>: replication and
  commitment, the apply loop, and the places where the code gives up a guarantee of Raft.
\<close>

section \<open>Elections\<close>

text \<open>
  C22. A run of \<open>runCandidate\<close> that waits for all answers ends; the node is leader afterwards exactly
  when the granted votes of answers that are not from a later term, with its own, are a majority
  of the cluster. If no answer was from a later term, the node has voted for itself in the next
  term, and a leader starts with \<open>nextIndex\<close> just past its log and \<open>matchIndex\<close> zero for every
  peer.
\<close>

theorem runCandidate_outcome:
  assumes "node_ok n"
  shows "\<exists>n'. runCandidate now rnd rs CDone now' rnd' n = Some n' \<and>
      (IsLeader n' \<longleftrightarrow> (length (nd_peers n) + 1) div 2 < 1 + length (filter (counts (currentTerm (nd_state n) + 1)) rs)) \<and>
      ((\<forall>a \<in> set rs. \<not> outdated (currentTerm (nd_state n) + 1) a) \<longrightarrow>
         currentTerm (nd_state n') = currentTerm (nd_state n) + 1 \<and> votedFor (nd_state n') = nd_id n) \<and>
      (IsLeader n' \<longrightarrow> GetLeaderID n' = nd_id n \<and>
         (\<forall>p \<in> set (nd_peers n). nextIndex (nd_state n') p = Some (Log_LastIndex (st_log (nd_state n')) + 1) \<and>
                               matchIndex (nd_state n') p = Some 0))"
proof -
  obtain n' where "runCandidate now rnd rs CDone now' rnd' n = Some n'"
    "IsLeader n' \<longleftrightarrow> votesNeeded n \<le> 1 + length (filter (counts (currentTerm (nd_state n) + 1)) rs)"
    "\<forall>a \<in> set rs. \<not> outdated (currentTerm (nd_state n) + 1) a \<Longrightarrow>
       currentTerm (nd_state n') = currentTerm (nd_state n) + 1 \<and> votedFor (nd_state n') = nd_id n"
    "IsLeader n' \<Longrightarrow> GetLeaderID n' = nd_id n \<and>
       (\<forall>p \<in> set (nd_peers n). nextIndex (nd_state n') p = Some (Log_LastIndex (st_log (nd_state n')) + 1)
                             \<and> matchIndex (nd_state n') p = Some 0)"
    using runCandidate_done [OF assms, where now = now and rnd = rnd and rs = rs and now' = now' and rnd' = rnd']
    by blast
  then show ?thesis by (intro exI [of _ n']) (simp add: votesNeeded_def Suc_le_eq)
qed

abbreviation node1 :: "unit Node" where
  "node1 \<equiv> NewNode ''node1'' [''a2'', ''a3''] example_config"

lemma node1_ok: "node_ok node1"
  by (rule node_ok_NewNode [OF example_config_ok])

definition one_grant :: "(instant \<times> VoteResponse option) list" where
  "one_grant = [(0, None), (0, Some \<lparr>vr_Term = 1, vr_VoteGranted = True\<rparr>)]"

theorem runCandidate_outcome_witness:
  "\<exists>n'. runCandidate 0 0 one_grant CDone 0 0 node1 = Some n' \<and> IsLeader n' \<and>
     currentTerm (nd_state n') = 1 \<and> votedFor (nd_state n') = ''node1'' \<and> nextIndex (nd_state n') ''a2'' = Some 1"
proof -
  have s: "currentTerm (nd_state node1) = 0" "nd_peers node1 = [''a2'', ''a3'']" "nd_id node1 = ''node1''"
    by (simp_all add: NewNode_def NewState_def)
  have c: "length (filter (counts 1) one_grant) = 1" "\<forall>a \<in> set one_grant. \<not> outdated 1 a"
    by (simp_all add: one_grant_def counts_def outdated_def)
  obtain n' where n': "runCandidate 0 0 one_grant CDone 0 0 node1 = Some n'" "IsLeader n'"
    "currentTerm (nd_state n') = 1" "votedFor (nd_state n') = ''node1''"
    "nextIndex (nd_state n') ''a2'' = Some (Log_LastIndex (st_log (nd_state n')) + 1)"
    using runCandidate_outcome [OF node1_ok, of 0 0 one_grant 0 0] c by (auto simp: s)
  moreover have "map_option (\<lambda>n. Log_LastIndex (st_log (nd_state n))) (runCandidate 0 0 one_grant CDone 0 0 node1) = Some 0"
    by code_simp
  ultimately show ?thesis by auto
qed

text \<open>
  A candidate that learns of a later term while it collects votes becomes leader all the same,
  and leader of that later term, in which nobody has voted for it: the vote count is checked after
  the goroutines have ended without looking at the role or the term.
\<close>

lemma leader_without_votes:
  "\<exists>n'. runCandidate 0 0
       [(0, Some \<lparr>vr_Term = 1, vr_VoteGranted = True\<rparr>), (0, Some \<lparr>vr_Term = 7, vr_VoteGranted = False\<rparr>)]
       CDone 0 0 node1 = Some n' \<and> IsLeader n' \<and> currentTerm (nd_state n') = 7 \<and> votedFor (nd_state n') = ''''"
proof -
  let ?run = "runCandidate 0 0
       [(0, Some \<lparr>vr_Term = 1, vr_VoteGranted = True\<rparr>), (0, Some \<lparr>vr_Term = 7, vr_VoteGranted = False\<rparr>)]
       CDone 0 0 node1"
  have "map_option (\<lambda>n. (IsLeader n, currentTerm (nd_state n), votedFor (nd_state n))) ?run = Some (True, 7, '''')"
    by code_simp
  then show ?thesis by auto
qed

section \<open>Replication\<close>


definition entry :: "u64 \<Rightarrow> u64 \<Rightarrow> LogEntry" where
  "entry i t = \<lparr>le_Index = i, le_Term = t, le_Type = LogEntryCommand, le_Command = ''set''\<rparr>"

definition two_entries :: AppendEntriesRequest where
  "two_entries = \<lparr>aq_Term = 3, aq_LeaderID = ''node2'', aq_PrevLogIndex = 0, aq_PrevLogTerm = 0,
                  aq_Entries = [entry 1 2, entry 2 3], aq_LeaderCommit = 1\<rparr>"


text \<open>
  C8. A leader that exchanges heartbeats with one follower brings the follower's log in line: if
  the two logs satisfy the log-matching property and the follower is not ahead in its term, then
  after at most \<open>nextIndex\<close> rounds the leader's whole log is a prefix of the follower's, and the
  leader's log has not changed.
\<close>

theorem replication_converges:
  assumes "probing peer l f" and "unat (map_get (nextIndex (nd_state l)) peer) \<le> length as"
  shows "\<exists>j l' f'. j \<le> unat (map_get (nextIndex (nd_state l)) peer) \<and>
      sync_rounds peer (take j as) (l, f) = Some (l', f') \<and>
      st_log (nd_state l') = st_log (nd_state l) \<and>
      prefix (log_entries (st_log (nd_state l))) (log_entries (st_log (nd_state f')))"
  using sync_rounds_converge [OF assms] by metis

text \<open>A leader of term 3 with two entries and a follower with a different second entry.\<close>

definition sync_leader :: "unit Node" where
  "sync_leader = node1\<lparr>nd_state := NewState\<lparr>currentTerm := 3, st_state := Leader,
     st_log := \<lparr>log_entries = [entry 1 1, entry 2 3]\<rparr>, nextIndex := [''a2'' \<mapsto> 3], matchIndex := [''a2'' \<mapsto> 0]\<rparr>\<rparr>"

definition sync_follower :: "unit Node" where
  "sync_follower = (NewNode ''node2'' [''a1'', ''a3''] example_config)
     \<lparr>nd_state := NewState\<lparr>currentTerm := 2, st_log := \<lparr>log_entries = [entry 1 1, entry 2 2]\<rparr>\<rparr>\<rparr>"

lemma two_le_max_len: "Suc (Suc 0) \<le> max_len"
proof -
  have "2 \<le> max_len" by (simp add: max_len_def)
  then show ?thesis by simp
qed

lemma sync_probing: "probing ''a2'' sync_leader sync_follower"
proof -
  have "log_wf (st_log (nd_state sync_leader))" "log_wf (st_log (nd_state sync_follower))"
    using two_le_max_len by (auto simp: log_wf_def sync_leader_def sync_follower_def entry_def less_Suc_eq)
  moreover have "log_matching (st_log (nd_state sync_leader)) (st_log (nd_state sync_follower))"
    by (auto simp: log_matching_def sync_leader_def sync_follower_def entry_def less_Suc_eq numeral_2_eq_2)
  ultimately show ?thesis
    using example_config_ok
    by (auto simp: probing_def node_ok_def state_wf_def positive_terms_def sync_leader_def sync_follower_def
        NewNode_def map_get_def entry_def)
qed

theorem replication_converges_witness:
  "\<exists>j l' f'. j \<le> 3 \<and> sync_rounds ''a2'' (take j (replicate 3 (0, 0, 0, 0))) (sync_leader, sync_follower) = Some (l', f') \<and>
      prefix [entry 1 1, entry 2 3] (log_entries (st_log (nd_state f')))"
proof -
  have s: "map_get (nextIndex (nd_state sync_leader)) ''a2'' = 3"
    "log_entries (st_log (nd_state sync_leader)) = [entry 1 1, entry 2 3]"
    by (simp_all add: sync_leader_def map_get_def)
  show ?thesis
    using replication_converges [OF sync_probing, of "replicate 3 (0, 0, 0, 0)"] by (auto simp: s)
qed

section \<open>Commitment\<close>

text \<open>
  C23. The nested loops of \<open>updateCommitIndex\<close> sort the match indexes: the result is the sorted
  list of the same values.
\<close>

theorem match_sort_correct: "sort_matchIndexes xs = sort xs"
  by (rule sort_matchIndexes_eq_sort)

lemma replicas_meet_votes:
  assumes keys: "distinct keys" "set keys = set (nd_peers n)" "nd_id n \<notin> set keys" "distinct (nd_peers n)"
    and commit: "Suc (length keys) - Suc (length keys) div 2 \<le> replicated_on keys n i"
    and vote: "vote_quorum n A"
  shows "replicas keys n i \<inter> A \<noteq> {}"
proof -
  have len: "length keys = length (nd_peers n)" using keys by (metis distinct_card)
  have fin: "finite (members n)" by (simp add: members_def)
  have card: "card (members n) = Suc (length (nd_peers n))"
    using keys by (simp add: members_def distinct_card)
  have "replicas keys n i \<subseteq> members n" using keys(2) by (auto simp: replicas_def members_def)
  moreover have "card (members n) < card (replicas keys n i) + card A"
    using card_replicas [OF keys(1,3), of i] commit vote card len
    by (auto simp: vote_quorum_def votesNeeded_def)
  moreover have "A \<subseteq> members n" using vote by (simp add: vote_quorum_def)
  ultimately show ?thesis using fin by (intro majority_overlap [of _ "members n"])
qed

text \<open>
  C14. The leader's commit index never falls, changes nothing else of the node, and advances only
  to an index whose entry is of the current term and that enough nodes have: they meet every set
  of voters that could elect another leader.
\<close>

theorem commit_safe:
  assumes "distinct keys" "set keys = set (nd_peers n)" "nd_id n \<notin> set keys" "distinct (nd_peers n)"
  shows "\<exists>i. updateCommitIndex keys n = upd_state (State_SetCommitIndex i) n \<and>
      commitIndex (nd_state n) \<le> i \<and>
      (i = commitIndex (nd_state n) \<or>
       Log_TermAt (st_log (nd_state n)) i = currentTerm (nd_state n) \<and>
       (\<forall>A. vote_quorum n A \<longrightarrow> replicas keys n i \<inter> A \<noteq> {}))"
proof (cases rule: updateCommitIndex_cases [where keys = keys and n = n])
  case (advance i)
  then show ?thesis using replicas_meet_votes [OF assms advance(3)] by (intro exI [of _ i]) auto
next
  case keep
  then show ?thesis by (intro exI [of _ "commitIndex (nd_state n)"]) (simp add: raft_simps)
qed

definition commit_leader :: "string list \<Rightarrow> (string \<rightharpoonup> u64) \<Rightarrow> unit Node" where
  "commit_leader ps m = (NewNode ''node1'' ps example_config)
     \<lparr>nd_state := NewState\<lparr>currentTerm := 1, st_state := Leader, st_log := \<lparr>log_entries = [entry 1 1]\<rparr>, matchIndex := m\<rparr>\<rparr>"

theorem commit_safe_witness:
  "\<exists>i. updateCommitIndex [''a2'', ''a3''] (commit_leader [''a2'', ''a3''] [''a2'' \<mapsto> 1, ''a3'' \<mapsto> 0])
         = upd_state (State_SetCommitIndex i) (commit_leader [''a2'', ''a3''] [''a2'' \<mapsto> 1, ''a3'' \<mapsto> 0]) \<and>
       i = 1 \<and> replicas [''a2'', ''a3''] (commit_leader [''a2'', ''a3''] [''a2'' \<mapsto> 1, ''a3'' \<mapsto> 0]) i \<inter> {''a2'', ''a3''} \<noteq> {}"
proof -
  let ?n = "commit_leader [''a2'', ''a3''] [''a2'' \<mapsto> 1, ''a3'' \<mapsto> 0]"
  have s: "nd_peers ?n = [''a2'', ''a3'']" "nd_id ?n = ''node1''" "commitIndex (nd_state ?n) = 0"
    by (simp_all add: commit_leader_def NewNode_def NewState_def)
  have one: "commitIndex (nd_state (updateCommitIndex [''a2'', ''a3''] ?n)) = 1" by code_simp
  have "vote_quorum ?n {''a2'', ''a3''}" by (auto simp: vote_quorum_def members_def votesNeeded_def s)
  with commit_safe [of "[''a2'', ''a3'']" ?n] obtain i where
    i: "updateCommitIndex [''a2'', ''a3''] ?n = upd_state (State_SetCommitIndex i) ?n"
      "i = 0 \<or> replicas [''a2'', ''a3''] ?n i \<inter> {''a2'', ''a3''} \<noteq> {}"
    by (auto simp: s)
  moreover have "i = 1" using one i(1) by (simp add: raft_simps)
  ultimately show ?thesis by auto
qed

section \<open>The apply loop\<close>

definition committed_node :: "unit Node" where
  "committed_node = node1\<lparr>nd_state := NewState\<lparr>currentTerm := 1, commitIndex := 2,
     st_log := \<lparr>log_entries = [entry 1 1, entry 2 1]\<rparr>\<rparr>\<rparr>"

definition late_heartbeat :: AppendEntriesRequest where
  "late_heartbeat = \<lparr>aq_Term = 1, aq_LeaderID = ''node2'', aq_PrevLogIndex = 1, aq_PrevLogTerm = 1,
                     aq_Entries = [], aq_LeaderCommit = 3\<rparr>"

text \<open>
  C24. A pass of the apply loop ends, although its index is an unsigned 64-bit integer that could
  wrap around, as long as the commit index is not the largest one. It applies the entries after
  \<open>lastApplied\<close> up to the commit index, in order and each once, and \<open>lastApplied\<close> becomes the last
  one that was there.
\<close>

theorem apply_pass_terminates:
  fixes n :: "'m Node"
  assumes "log_wf (st_log (nd_state n))" "unat (commitIndex (nd_state n)) + 1 < 2 ^ 64"
    and "lastApplied (nd_state n) \<le> commitIndex (nd_state n)"
  defines "es \<equiv> log_entries (st_log (nd_state n))"
  defines "last_i \<equiv> min (unat (commitIndex (nd_state n))) (length es)"
  shows "apply_pass (n, m) =
    Some (if unat (lastApplied (nd_state n)) < last_i then upd_state (State_SetLastApplied (of_nat last_i)) n else n,
          foldl (\<lambda>m e. apply_command n e m) m
            (drop (unat (lastApplied (nd_state n))) (take (unat (commitIndex (nd_state n))) es)))"
  unfolding es_def last_i_def by (rule apply_pass_spec [OF assms(1-3)])

definition apply_node :: "LogEntry list Node" where
  "apply_node = (NewNode ''node1'' [''a2''] example_config)
     \<lparr>nd_state := NewState\<lparr>st_log := \<lparr>log_entries = [entry 1 1, entry 2 1]\<rparr>, commitIndex := 5, lastApplied := 1\<rparr>,
      nd_applyFunc := Some (\<lambda>e m. (m @ [e], True))\<rparr>"

theorem apply_pass_terminates_witness:
  "\<exists>n'. apply_pass (apply_node, []) = Some (n', [entry 2 1]) \<and> lastApplied (nd_state n') = 2"
proof -
  have wf: "log_wf (st_log (nd_state apply_node))"
    using two_le_max_len by (auto simp: log_wf_def apply_node_def entry_def less_Suc_eq)
  have "apply_pass (apply_node, []) = Some (upd_state (State_SetLastApplied 2) apply_node, [entry 2 1])"
    by (subst apply_pass_terminates [OF wf]) (simp_all add: apply_node_def apply_command_def)
  then show ?thesis by (simp add: raft_simps)
qed

section \<open>Guarantees the code gives up\<close>

definition late_entries :: AppendEntriesRequest where
  "late_entries = \<lparr>aq_Term = 1, aq_LeaderID = ''node2'', aq_PrevLogIndex = 0, aq_PrevLogTerm = 0,
                   aq_Entries = [entry 1 1], aq_LeaderCommit = 1\<rparr>"

text \<open>
  A follower's commit index can move backwards: a heartbeat without entries whose
  \<open>PrevLogIndex\<close> is small sets it to that index, because the minimum with the last new entry is
  taken without comparing it with the present value.
\<close>

lemma commit_index_moves_back:
  "\<exists>n' resp. HandleAppendEntries 0 0 0 committed_node late_heartbeat = Some (n', resp) \<and> ar_Success resp \<and>
     commitIndex (nd_state committed_node) = 2 \<and> commitIndex (nd_state n') = 1"
proof -
  have "map_option (\<lambda>(n, r). (ar_Success r, commitIndex (nd_state n))) (HandleAppendEntries 0 0 0 committed_node late_heartbeat)
      = Some (True, 1)" by code_simp
  then show ?thesis by (auto simp: committed_node_def)
qed

text \<open>
  A request with entries the follower already has, delivered late, cuts off what follows them,
  committed entries included: the log is truncated at \<open>PrevLogIndex\<close> whether or not the entries
  conflict.
\<close>

lemma committed_entry_lost:
  "\<exists>n' resp. HandleAppendEntries 0 0 0 committed_node late_entries = Some (n', resp) \<and> ar_Success resp \<and>
     Log_Get (st_log (nd_state committed_node)) (commitIndex (nd_state committed_node)) = Some (entry 2 1) \<and>
     commitIndex (nd_state n') = 2 \<and> Log_Get (st_log (nd_state n')) (commitIndex (nd_state n')) = None"
proof -
  have "map_option (\<lambda>(n, r). (ar_Success r, commitIndex (nd_state n), Log_Get (st_log (nd_state n)) 2))
      (HandleAppendEntries 0 0 0 committed_node late_entries) = Some (True, 2, None)" by code_simp
  moreover have "Log_Get (st_log (nd_state committed_node)) 2 = Some (entry 2 1)" by code_simp
  ultimately show ?thesis by (auto simp: committed_node_def)
qed

section \<open>A follower that stops listening\<close>

text \<open>What can happen to a node while its main loop waits in \<open>runFollower\<close>.\<close>

datatype node_event =
    Tick instant
  | VoteCall instant instant nat VoteRequest
  | AppendCall instant instant nat AppendEntriesRequest

fun node_event_step :: "node_event \<Rightarrow> 'm Node \<Rightarrow> 'm Node option" where
  "node_event_step (Tick now) n = Some (n\<lparr>nd_timers := map (Timer_tick now) (nd_timers n)\<rparr>)"
| "node_event_step (VoteCall hb now rnd req) n = map_option fst (HandleRequestVote hb now rnd n req)"
| "node_event_step (AppendCall hb now rnd req) n = map_option fst (HandleAppendEntries hb now rnd n req)"

fun node_events :: "node_event list \<Rightarrow> 'm Node \<Rightarrow> 'm Node option" where
  "node_events [] n = Some n"
| "node_events (e # es) n = Option.bind (node_event_step e n) (node_events es)"

definition dead_timer :: "nat \<Rightarrow> 'm Node \<Rightarrow> bool" where
  "dead_timer t n \<longleftrightarrow> t < length (nd_timers n) \<and> \<not> tm_active (nd_timers n ! t) \<and> \<not> tm_fired (nd_timers n ! t)"

lemma dead_timer_stop: "dead_timer t n \<Longrightarrow> dead_timer t (stop_timer t' n)"
  by (cases "t' = Some t") (auto simp: dead_timer_def stop_timer_def Timer_Stop_def split: option.split)

lemma dead_timer_reset: "resetElectionTimer now rnd n = Some n' \<Longrightarrow> dead_timer t n \<Longrightarrow> dead_timer t n'"
  using dead_timer_stop [of t n "nd_electionTimer n"]
  by (auto simp: resetElectionTimer_def Let_def dead_timer_def nth_append split: option.splits)

lemma dead_timer_upd [simp]: "dead_timer t (upd_state f n) = dead_timer t n"
  by (simp add: dead_timer_def)

lemma dead_timer_vote:
  "HandleRequestVote hb now rnd n req = Some (n', r) \<Longrightarrow> dead_timer t n \<Longrightarrow> dead_timer t n'"
  by (auto simp: HandleRequestVote_def Let_def raft_simps(1) split: if_splits dest!: dead_timer_reset [where t = t])

text \<open>A request of the current term or a later one replaces the election timer, and nothing else of the timers changes.\<close>

lemma HandleAppendEntries_timers:
  assumes "HandleAppendEntries hb now rnd n req = Some (n', r)" "currentTerm (nd_state n) \<le> aq_Term req"
  shows "\<exists>m. resetElectionTimer now rnd n = Some m \<and> nd_timers n' = nd_timers m"
  using assms
  by (cases "resetElectionTimer now rnd n")
     (auto simp: HandleAppendEntries_def Let_def State_CurrentTerm_def split: if_splits)

lemma dead_timer_append:
  assumes "HandleAppendEntries hb now rnd n req = Some (n', r)" "dead_timer t n"
  shows "dead_timer t n'"
proof (cases "aq_Term req < currentTerm (nd_state n)")
  case True
  with HandleAppendEntries_frame(3) [OF assms(1)] assms(2) show ?thesis by simp
next
  case False
  then have "currentTerm (nd_state n) \<le> aq_Term req" by simp
  from HandleAppendEntries_timers [OF assms(1) this] obtain m where
    "resetElectionTimer now rnd n = Some m" "nd_timers n' = nd_timers m" by auto
  with dead_timer_reset [OF _ assms(2)] show ?thesis by (auto simp: dead_timer_def)
qed

lemma dead_timer_events: "node_events es n = Some n' \<Longrightarrow> dead_timer t n \<Longrightarrow> dead_timer t n'"
proof (induction es arbitrary: n)
  case (Cons e es)
  then obtain m where m: "node_event_step e n = Some m" "node_events es m = Some n'" by (auto simp: bind_Some_iff)
  have "dead_timer t m"
  proof (cases e)
    case (Tick now)
    with m(1) Cons.prems(2) show ?thesis by (auto simp: dead_timer_def Timer_tick_def)
  qed (use m(1) Cons.prems(2) dead_timer_vote dead_timer_append in fastforce)+
  with Cons.IH m(2) show ?case by blast
qed simp

text \<open>
  C25. A follower that has received one request of its current term never starts an election again:
  \<open>runFollower\<close> goes on waiting for the timer that was current when it began to wait, while the
  handler has stopped that timer and put a new one in its place. Whatever further requests arrive
  and however much time passes, the wait does not end by a timeout.
\<close>

theorem follower_never_times_out:
  assumes "node_ok n" and "run_dispatch n = WaitFollower t" and "\<not> timer_ready t n"
    and "HandleAppendEntries hb now rnd n req = Some (n1, r)" "currentTerm (nd_state n) \<le> aq_Term req"
    and "node_events es n1 = Some n2"
  shows "follower_timeout t n2 = None"
proof -
  have t: "nd_electionTimer n = Some t" using assms(2) by (auto simp: run_dispatch_def split: if_splits NodeState.splits option.splits)
  then have len: "t < length (nd_timers n)" using assms(1) by (simp add: node_ok_def)
  obtain m where m: "resetElectionTimer now rnd n = Some m" "nd_timers n1 = nd_timers m"
    using HandleAppendEntries_timers [OF assms(4,5)] by blast
  have "dead_timer t m"
    using m(1) t len assms(3)
    by (auto simp: resetElectionTimer_def Let_def dead_timer_def nth_append stop_timer_def Timer_Stop_def timer_ready_def
        split: option.splits)
  then have "dead_timer t n1" using m(2) by (simp add: dead_timer_def)
  from dead_timer_events [OF assms(6) this] show ?thesis
    by (simp add: follower_timeout_def timer_ready_def dead_timer_def)
qed

lemma example_node_ok: "node_ok (example_node i ps)"
proof -
  obtain n where n: "Node_Start 0 0 (NewNode i ps example_config :: unit Node) = Some n"
    unfolding Node_Start_def using resetElectionTimer_ex [OF node_ok_NewNode [OF example_config_ok]] by blast
  then show ?thesis
    using resetElectionTimer_node_ok [OF n [unfolded Node_Start_def] node_ok_NewNode [OF example_config_ok]]
    by (simp add: example_node_def)
qed

abbreviation follower1 :: "unit Node" where
  "follower1 \<equiv> example_node ''n1'' [''a2'', ''a3'']"

theorem follower_never_times_out_witness:
  "\<exists>n1 r n2. HandleAppendEntries 0 0 0 follower1 two_entries = Some (n1, r) \<and>
     node_events [Tick (1000 * Second), VoteCall 0 0 0 example_request, Tick (2000 * Second)] n1 = Some n2 \<and>
     follower_timeout 0 n2 = None"
proof -
  let ?es = "[Tick (1000 * Second), VoteCall 0 0 0 example_request, Tick (2000 * Second)]"
  have w: "run_dispatch follower1 = WaitFollower 0" "\<not> timer_ready 0 follower1"
    "currentTerm (nd_state follower1) \<le> aq_Term two_entries"
    by code_simp+
  have "Option.bind (HandleAppendEntries 0 0 0 follower1 two_entries) (\<lambda>(n1, r). node_events ?es n1) \<noteq> None"
    by code_simp
  then obtain n1 r n2 where run: "HandleAppendEntries 0 0 0 follower1 two_entries = Some (n1, r)" "node_events ?es n1 = Some n2"
    by (auto simp: bind_eq_None_conv split: option.splits prod.splits)
  from follower_never_times_out [OF example_node_ok w(1,2) run(1) w(3) run(2)] run show ?thesis by blast
qed

end
