(* ===== verification/KVStore.thy ===== *)
theory KVStore
  imports GoLib
begin

text \<open>
  The hierarchical in-memory store, \<open>internal/store/store.go\<close>. Every method runs under the
  store's mutex and is one function of the whole store. Callbacks are started as goroutines
  (\<open>go s.onNodeCreate(...)\<close>), so a method returns the list of goroutines it starts; the type
  variable \<open>'h\<close> is the type of the callback values, which the store never inspects. Clock
  readings and the order of a \<open>range\<close> over the node map are arguments.
\<close>

section \<open>Data\<close>

record StoreNode =
  sn_Path :: string
  sn_Data :: bytes
  sn_Version :: u64
  sn_Ephemeral :: bool
  sn_SessionID :: string
  sn_Sequential :: bool
  sn_Sequence :: u64
  sn_Children :: "string list"
  sn_CreateTime :: instant
  sn_ModifyTime :: instant

text \<open>
  The package's error values, the two errors made in place (\<open>errors.New\<close> in Create and
  Delete), and the nil dereference that \<open>Delete\<close> would commit if a parent were missing.
\<close>

datatype store_error =
    ErrNodeExists | ErrNodeNotFound | ErrVersionMismatch | ErrNotEmpty | ErrInvalidPath
  | ErrEphemeralParent | ErrCannotDeleteRoot | PanicNilParent

datatype 'h spawn = GoCreate 'h string StoreNode | GoUpdate 'h string StoreNode | GoDelete 'h string

record 'h Store =
  s_nodes :: "string \<rightharpoonup> StoreNode"
  s_seqCounter :: u64
  s_onNodeCreate :: "'h option"
  s_onNodeDelete :: "'h option"
  s_onNodeUpdate :: "'h option"

section \<open>Paths\<close>

definition normalizePath :: "string \<Rightarrow> string" where
  "normalizePath p =
     (if p = '''' then ''/''
      else (let p = (if \<not> strings_HasPrefix p ''/'' then ''/'' @ p else p) in path_Clean p))"

definition parentPath :: "string \<Rightarrow> string" where
  "parentPath p =
     (if p = ''/'' then ''''
      else (let parent = path_Dir p in if parent = ''.'' then ''/'' else parent))"

definition baseName :: "string \<Rightarrow> string" where
  "baseName p = path_Base p"

section \<open>Sequence numbers\<close>

function itoa_loop :: "u64 \<Rightarrow> string \<Rightarrow> string" where
  "itoa_loop n result =
     (if n > 0 then itoa_loop (n div 10) (char_of (48 + unat (n mod 10)) # result) else result)"
  by pat_completeness auto
termination
  by (relation "measure (\<lambda>(n, _). unat n)") (auto simp: unat_div word_gt_0 unat_gt_0 intro!: div_less_dividend)

declare itoa_loop.simps [simp del]

definition itoa :: "u64 \<Rightarrow> string" where
  "itoa n = (if n = 0 then ''0'' else itoa_loop n [])"

definition padLeft :: "string \<Rightarrow> nat \<Rightarrow> char \<Rightarrow> string" where
  "padLeft s len pad = (if length s \<ge> len then s else replicate (len - length s) pad @ s)"

definition formatSequence :: "u64 \<Rightarrow> string" where
  "formatSequence seq =
     strings_Replace1 (strings_Replace1 (strings_Replace1 ''%010d'' ''%d'' '''') ''%010d'' '''') '''' ''''
       @ padLeft (itoa seq) 10 (CHR ''0'')"

section \<open>Operations\<close>

definition NewStore :: "instant \<Rightarrow> instant \<Rightarrow> 'h Store" where
  "NewStore t1 t2 =
     \<lparr>s_nodes = [''/'' \<mapsto> \<lparr>sn_Path = ''/'', sn_Data = '''', sn_Version = 0, sn_Ephemeral = False,
                            sn_SessionID = '''', sn_Sequential = False, sn_Sequence = 0,
                            sn_Children = [], sn_CreateTime = t1, sn_ModifyTime = t2\<rparr>],
      s_seqCounter = 0, s_onNodeCreate = None, s_onNodeDelete = None, s_onNodeUpdate = None\<rparr>"

definition SetWatchCallbacks :: "'h option \<Rightarrow> 'h option \<Rightarrow> 'h option \<Rightarrow> 'h Store \<Rightarrow> 'h Store" where
  "SetWatchCallbacks onCreate onUpdate onDelete s =
     s\<lparr>s_onNodeCreate := onCreate, s_onNodeUpdate := onUpdate, s_onNodeDelete := onDelete\<rparr>"

definition go_create :: "'h Store \<Rightarrow> string \<Rightarrow> StoreNode \<Rightarrow> 'h spawn list" where
  "go_create s p n = (case s_onNodeCreate s of None \<Rightarrow> [] | Some h \<Rightarrow> [GoCreate h p n])"

definition go_update :: "'h Store \<Rightarrow> string \<Rightarrow> StoreNode \<Rightarrow> 'h spawn list" where
  "go_update s p n = (case s_onNodeUpdate s of None \<Rightarrow> [] | Some h \<Rightarrow> [GoUpdate h p n])"

definition go_delete :: "'h Store \<Rightarrow> string \<Rightarrow> 'h spawn list" where
  "go_delete s p = (case s_onNodeDelete s of None \<Rightarrow> [] | Some h \<Rightarrow> [GoDelete h p])"

text \<open>Mutation of a node that the map points to.\<close>

definition upd_node :: "string \<Rightarrow> (StoreNode \<Rightarrow> StoreNode) \<Rightarrow> (string \<rightharpoonup> StoreNode) \<Rightarrow> (string \<rightharpoonup> StoreNode)" where
  "upd_node p f m = (case m p of None \<Rightarrow> m | Some n \<Rightarrow> m(p \<mapsto> f n))"

definition add_child :: "string \<Rightarrow> StoreNode \<Rightarrow> StoreNode" where
  "add_child name n = n\<lparr>sn_Children := sn_Children n @ [name]\<rparr>"

definition del_child :: "string \<Rightarrow> StoreNode \<Rightarrow> StoreNode" where
  "del_child name n = n\<lparr>sn_Children := remove_first (\<lambda>child. child = name) (sn_Children n)\<rparr>"

definition Store_Create ::
  "'h Store \<Rightarrow> instant \<Rightarrow> instant \<Rightarrow> string \<Rightarrow> bytes \<Rightarrow> bool \<Rightarrow> string \<Rightarrow> bool
     \<Rightarrow> 'h Store \<times> 'h spawn list \<times> (store_error + string)" where
  "Store_Create s t1 t2 nodePath data ephemeral sessionID sequential =
     (let nodePath = normalizePath nodePath;
          parent = parentPath nodePath;
          parentNode = s_nodes s parent
      in if parent \<noteq> '''' \<and> parentNode = None then (s, [], Inl ErrNodeNotFound)
         else if parent \<noteq> '''' \<and> sn_Ephemeral (the parentNode) then (s, [], Inl ErrEphemeralParent)
         else
           (let (s1, actualPath) =
              (if sequential
               then (let seq = s_seqCounter s + 1
                     in (s\<lparr>s_seqCounter := seq\<rparr>, nodePath @ formatSequence seq))
               else (s, nodePath))
            in if s_nodes s1 actualPath \<noteq> None then (s1, [], Inl ErrNodeExists)
               else
                 (let node = \<lparr>sn_Path = actualPath, sn_Data = data, sn_Version = 1,
                              sn_Ephemeral = ephemeral, sn_SessionID = sessionID,
                              sn_Sequential = sequential, sn_Sequence = s_seqCounter s1,
                              sn_Children = [], sn_CreateTime = t1, sn_ModifyTime = t2\<rparr>;
                      nodes1 = (s_nodes s1)(actualPath \<mapsto> node);
                      nodes2 = (if parent \<noteq> '''' then upd_node parent (add_child (baseName actualPath)) nodes1
                                else nodes1)
                  in (s1\<lparr>s_nodes := nodes2\<rparr>, go_create s1 actualPath node, Inr actualPath))))"

definition Store_Get :: "'h Store \<Rightarrow> string \<Rightarrow> store_error + StoreNode" where
  "Store_Get s nodePath =
     (case s_nodes s (normalizePath nodePath) of
        None \<Rightarrow> Inl ErrNodeNotFound
      | Some node \<Rightarrow> Inr node)"

text \<open>The expected version is an \<open>int64\<close>; a negative one skips the comparison.\<close>

definition version_ok :: "int \<Rightarrow> StoreNode \<Rightarrow> bool" where
  "version_ok expectedVersion node \<longleftrightarrow>
     \<not> (expectedVersion \<ge> 0 \<and> (word_of_int expectedVersion :: u64) \<noteq> sn_Version node)"

definition Store_Set ::
  "'h Store \<Rightarrow> instant \<Rightarrow> string \<Rightarrow> bytes \<Rightarrow> int \<Rightarrow> 'h Store \<times> 'h spawn list \<times> (store_error + StoreNode)" where
  "Store_Set s now nodePath data expectedVersion =
     (let nodePath = normalizePath nodePath
      in case s_nodes s nodePath of
           None \<Rightarrow> (s, [], Inl ErrNodeNotFound)
         | Some node \<Rightarrow>
             if \<not> version_ok expectedVersion node then (s, [], Inl ErrVersionMismatch)
             else
               (let node' = node\<lparr>sn_Data := data, sn_Version := sn_Version node + 1, sn_ModifyTime := now\<rparr>
                in (s\<lparr>s_nodes := (s_nodes s)(nodePath \<mapsto> node')\<rparr>, go_update s nodePath node', Inr node')))"

definition Store_Delete ::
  "'h Store \<Rightarrow> string \<Rightarrow> int \<Rightarrow> 'h Store \<times> 'h spawn list \<times> (store_error + unit)" where
  "Store_Delete s nodePath expectedVersion =
     (let nodePath = normalizePath nodePath
      in if nodePath = ''/'' then (s, [], Inl ErrCannotDeleteRoot)
         else
           (case s_nodes s nodePath of
              None \<Rightarrow> (s, [], Inl ErrNodeNotFound)
            | Some node \<Rightarrow>
                if \<not> version_ok expectedVersion node then (s, [], Inl ErrVersionMismatch)
                else if length (sn_Children node) > 0 then (s, [], Inl ErrNotEmpty)
                else
                  (let parent = parentPath nodePath
                   in if parent \<noteq> '''' \<and> s_nodes s parent = None then (s, [], Inl PanicNilParent)
                      else
                        (let nodes1 = (if parent \<noteq> '''' then upd_node parent (del_child (baseName nodePath)) (s_nodes s)
                                       else s_nodes s)
                         in (s\<lparr>s_nodes := nodes1(nodePath := None)\<rparr>, go_delete s nodePath, Inr ())))))"

definition Store_GetChildren :: "'h Store \<Rightarrow> string \<Rightarrow> store_error + string list" where
  "Store_GetChildren s nodePath =
     (case s_nodes s (normalizePath nodePath) of
        None \<Rightarrow> Inl ErrNodeNotFound
      | Some node \<Rightarrow> Inr (sort_Strings (sn_Children node)))"

definition Store_Exists :: "'h Store \<Rightarrow> string \<Rightarrow> bool" where
  "Store_Exists s nodePath \<longleftrightarrow> s_nodes s (normalizePath nodePath) \<noteq> None"

definition owned_by :: "string \<Rightarrow> StoreNode \<Rightarrow> bool" where
  "owned_by sessionID node \<longleftrightarrow> sn_Ephemeral node \<and> sn_SessionID node = sessionID"

text \<open>
  \<open>sort.Slice\<close> by descending length is not stable; since the order of the walk over the map is
  arbitrary, a stable sort of an arbitrary order gives every possible result.
\<close>

definition ephemerals_of :: "string list \<Rightarrow> 'h Store \<Rightarrow> string \<Rightarrow> string list" where
  "ephemerals_of keys s sessionID =
     sort_key (\<lambda>p. - int (length p))
       (filter (\<lambda>p. case s_nodes s p of None \<Rightarrow> False | Some node \<Rightarrow> owned_by sessionID node) keys)"

definition delete_ephemeral :: "(string \<rightharpoonup> StoreNode) \<Rightarrow> string \<Rightarrow> (string \<rightharpoonup> StoreNode)" where
  "delete_ephemeral m nodePath =
     (let parent = parentPath nodePath;
          m1 = (if parent \<noteq> '''' then upd_node parent (del_child (baseName nodePath)) m else m)
      in m1(nodePath := None))"

definition Store_DeleteEphemerals ::
  "string list \<Rightarrow> 'h Store \<Rightarrow> string \<Rightarrow> 'h Store \<times> 'h spawn list \<times> string list" where
  "Store_DeleteEphemerals keys s sessionID =
     (let deleted = ephemerals_of keys s sessionID
      in (s\<lparr>s_nodes := foldl delete_ephemeral (s_nodes s) deleted\<rparr>,
          concat (map (go_delete s) deleted), deleted))"

definition Store_GetByPrefix :: "string list \<Rightarrow> 'h Store \<Rightarrow> string \<Rightarrow> StoreNode list" where
  "Store_GetByPrefix keys s pfx =
     (let pfx = normalizePath pfx
      in map (\<lambda>p. the (s_nodes s p)) (filter (\<lambda>p. strings_HasPrefix p pfx) keys))"

definition Store_Count :: "'h Store \<Rightarrow> nat" where
  "Store_Count s = card (dom (s_nodes s))"

section \<open>Paths in canonical form\<close>

lemma path_elems_slash: "path_elems (CHR ''/'' # p) = path_elems p"
  by (simp add: path_elems_def clean_elems_skip)

lemma path_elems_empty [simp]: "path_elems '''' = []"
  by (simp add: path_elems_def clean_elems_def clean_step_def)

lemma normalizePath_eq: "normalizePath p = path_of (path_elems p)"
proof (cases p)
  case Nil
  then show ?thesis by (simp add: normalizePath_def)
next
  case (Cons c cs)
  show ?thesis
  proof (cases "c = CHR ''/''")
    case True
    with Cons show ?thesis
      by (simp add: normalizePath_def strings_HasPrefix_def path_Clean_rooted)
  next
    case False
    with Cons have "normalizePath p = path_Clean (CHR ''/'' # p)"
      by (simp add: normalizePath_def strings_HasPrefix_def)
    then show ?thesis by (simp add: path_Clean_rooted path_elems_slash)
  qed
qed

lemma normalizePath_path_of [simp]: "list_all good_elem cs \<Longrightarrow> normalizePath (path_of cs) = path_of cs"
  by (simp add: normalizePath_eq)

lemma normalizePath_idem [simp]: "normalizePath (normalizePath p) = normalizePath p"
  by (simp add: normalizePath_eq)

lemma parentPath_root [simp]: "parentPath ''/'' = ''''"
  by (simp add: parentPath_def)

lemma path_of_not_dot [simp]: "path_of cs \<noteq> ''.''"
  by (cases cs) (auto simp: path_of_def)

lemma path_of_snoc_not_root [simp]: "c \<noteq> '''' \<Longrightarrow> path_of (cs @ [c]) \<noteq> ''/''"
  by (cases cs) (auto simp: path_of_def append_eq_Cons_conv)

lemma parentPath_snoc:
  "list_all good_elem (cs @ [c]) \<Longrightarrow> parentPath (path_of (cs @ [c])) = path_of cs"
  by (auto simp: parentPath_def path_Dir_snoc good_elem_def Let_def)

lemma baseName_snoc: "good_elem c \<Longrightarrow> baseName (path_of (cs @ [c])) = c"
  by (simp add: baseName_def path_Base_snoc)

lemma path_of_append_seq: "path_of (cs @ [c]) @ s = path_of (cs @ [c @ s])"
  by (simp add: path_of_def)

end
