(* ===== verification/Decimal.thy ===== *)
theory Decimal
  imports KVStore
begin

text \<open>
  Decimal strings: what \<open>itoa\<close>, \<open>padLeft\<close> and \<open>formatSequence\<close> of the store compute, and that
  the fixed-width form sorts like the numbers, on which the lock queue relies.
\<close>

definition is_digit :: "char \<Rightarrow> bool" where
  "is_digit c \<longleftrightarrow> 48 \<le> (of_char c :: nat) \<and> (of_char c :: nat) \<le> 57"

definition digit_value :: "char \<Rightarrow> nat" where
  "digit_value c = of_char c - 48"

fun dec_value :: "string \<Rightarrow> nat" where
  "dec_value [] = 0"
| "dec_value (c # cs) = digit_value c * 10 ^ length cs + dec_value cs"

lemma digit_value_less: "is_digit c \<Longrightarrow> digit_value c < 10"
  by (auto simp: is_digit_def digit_value_def)

lemma dec_value_less: "list_all is_digit s \<Longrightarrow> dec_value s < 10 ^ length s"
proof (induction s)
  case (Cons c cs)
  have "digit_value c * 10 ^ length cs + dec_value cs < digit_value c * 10 ^ length cs + 10 ^ length cs"
    using Cons by simp
  also have "\<dots> = Suc (digit_value c) * 10 ^ length cs" by simp
  also have "\<dots> \<le> 10 * 10 ^ length cs"
    using digit_value_less [of c] Cons.prems by (intro mult_right_mono) auto
  finally show ?case by simp
qed simp

lemma dec_value_append: "dec_value (s @ t) = dec_value s * 10 ^ length t + dec_value t"
  by (induction s) (simp_all add: algebra_simps power_add)

lemma dec_value_foldl: "foldl (\<lambda>v c. 10 * v + digit_value c) v s = v * 10 ^ length s + dec_value s"
  by (induction s arbitrary: v) (simp_all add: algebra_simps)

lemma dec_value_replicate_zero [simp]: "dec_value (replicate k CHR ''0'') = 0"
  by (induction k) (simp_all add: digit_value_def)

text \<open>Digit strings of one length are ordered like their values.\<close>

lemma digit_less: "is_digit c \<Longrightarrow> is_digit d \<Longrightarrow> c < d \<longleftrightarrow> digit_value c < digit_value d"
  by (auto simp: less_char_def is_digit_def digit_value_def)

lemma digit_eq: "is_digit c \<Longrightarrow> is_digit d \<Longrightarrow> c = d \<longleftrightarrow> digit_value c = digit_value d"
  by (metis digit_less linorder_neqE less_irrefl)

lemma dec_value_order:
  "\<lbrakk>length s = length t; list_all is_digit s; list_all is_digit t\<rbrakk> \<Longrightarrow> s < t \<longleftrightarrow> dec_value s < dec_value t"
proof (induction s t rule: list_induct2)
  case (Cons c cs d ds)
  then have dig: "is_digit c" "is_digit d" and IH: "cs < ds \<longleftrightarrow> dec_value cs < dec_value ds" by auto
  let ?k = "10 ^ length cs :: nat"
  have lc: "dec_value cs < ?k" and ld: "dec_value ds < ?k"
    using dec_value_less [of cs] dec_value_less [of ds] Cons by simp_all
  consider "digit_value c < digit_value d" | "digit_value c = digit_value d" | "digit_value d < digit_value c"
    by linarith
  then show ?case
  proof cases
    case 1
    then have "Suc (digit_value c) * ?k \<le> digit_value d * ?k" by (intro mult_right_mono) auto
    with lc have "dec_value (c # cs) < dec_value (d # ds)" using Cons.hyps by simp
    with 1 dig show ?thesis by (simp add: digit_less)
  next
    case 2
    then have "c = d" using dig by (simp add: digit_eq)
    then show ?thesis using IH Cons.hyps by simp
  next
    case 3
    then have "Suc (digit_value d) * ?k \<le> digit_value c * ?k" by (intro mult_right_mono) auto
    with ld have "\<not> dec_value (c # cs) < dec_value (d # ds)" using Cons.hyps by simp
    moreover have "\<not> c < d" "c \<noteq> d" using 3 dig by (auto simp: digit_less)
    ultimately show ?thesis by simp
  qed
qed simp

section \<open>itoa\<close>

lemma digit_char: "k < 10 \<Longrightarrow> is_digit (char_of (48 + k)) \<and> digit_value (char_of (48 + k)) = k"
  by (simp add: is_digit_def digit_value_def)

lemma unat_mod_10: "unat ((n :: u64) mod 10) = unat n mod 10"
  by (simp add: unat_mod)

lemma unat_div_10: "unat ((n :: u64) div 10) = unat n div 10"
  by (simp add: unat_div)

lemma itoa_loop_value:
  "list_all is_digit acc \<Longrightarrow>
     list_all is_digit (itoa_loop n acc) \<and>
     dec_value (itoa_loop n acc) = unat n * 10 ^ length acc + dec_value acc"
proof (induction n acc rule: itoa_loop.induct)
  case (1 n acc)
  show ?case
  proof (cases "n > 0")
    case True
    let ?d = "char_of (48 + unat (n mod 10)) :: char"
    have d: "is_digit ?d" "digit_value ?d = unat n mod 10"
      using digit_char [of "unat (n mod 10)"] by (simp_all add: unat_mod_10)
    have "list_all is_digit (itoa_loop (n div 10) (?d # acc)) \<and>
        dec_value (itoa_loop (n div 10) (?d # acc)) =
          unat (n div 10) * 10 ^ length (?d # acc) + dec_value (?d # acc)"
      using "1.IH" [OF True] "1.prems" d by simp
    moreover have "unat (n div 10) * 10 ^ length (?d # acc) + dec_value (?d # acc)
        = unat n * 10 ^ length acc + dec_value acc"
    proof -
      have "unat n * 10 ^ length acc = (unat n div 10 * 10 + unat n mod 10) * 10 ^ length acc" by simp
      also have "\<dots> = unat n div 10 * 10 ^ Suc (length acc) + unat n mod 10 * 10 ^ length acc"
        by (simp only: add_mult_distrib power_Suc mult.assoc)
      finally show ?thesis using d by (simp add: unat_div_10)
    qed
    ultimately show ?thesis using True by (simp add: itoa_loop.simps [of n acc])
  next
    case False
    then have "n = 0" by (simp add: word_gt_0)
    with "1.prems" show ?thesis by (simp add: itoa_loop.simps [of 0 acc])
  qed
qed

lemma itoa_loop_length: "unat n < 10 ^ k \<Longrightarrow> length (itoa_loop n acc) \<le> k + length acc"
proof (induction k arbitrary: n acc)
  case 0
  then have "n = 0" by (simp add: unat_eq_zero)
  then show ?case by (simp add: itoa_loop.simps)
next
  case (Suc k)
  have "unat (n div 10) < 10 ^ k" using Suc.prems by (simp add: unat_div_10 div_less_iff_less_mult mult.commute)
  from Suc.IH [OF this, of "char_of (48 + unat (n mod 10)) # acc"] show ?case
    by (subst itoa_loop.simps) simp
qed

lemma itoa_value: "list_all is_digit (itoa n) \<and> dec_value (itoa n) = unat n"
  using itoa_loop_value [of "[]" n] by (auto simp: itoa_def is_digit_def digit_value_def)

lemma itoa_length: "unat n < 10 ^ k \<Longrightarrow> 0 < k \<Longrightarrow> length (itoa n) \<le> k"
  using itoa_loop_length [of n k "[]"] by (auto simp: itoa_def)

lemma itoa_inject: "itoa m = itoa n \<longleftrightarrow> m = n"
  by (metis itoa_value word_unat_eq_iff)

section \<open>formatSequence\<close>

text \<open>The three nested Replace calls remove the whole format string.\<close>

lemma formatSequence_eq: "formatSequence seq = padLeft (itoa seq) 10 (CHR ''0'')"
  by (simp add: formatSequence_def strings_HasPrefix_def)

lemma padLeft_value:
  "list_all is_digit s \<Longrightarrow>
     list_all is_digit (padLeft s k (CHR ''0'')) \<and> dec_value (padLeft s k (CHR ''0'')) = dec_value s"
  by (auto simp: padLeft_def dec_value_append list_all_iff is_digit_def)

lemma formatSequence_value:
  "list_all is_digit (formatSequence n)" "dec_value (formatSequence n) = unat n"
  using itoa_value [of n] padLeft_value [of "itoa n" 10] by (simp_all add: formatSequence_eq)

lemma formatSequence_length_ge: "10 \<le> length (formatSequence n)"
  by (simp add: formatSequence_eq padLeft_def)

lemma formatSequence_length: "unat n < 10 ^ 10 \<Longrightarrow> length (formatSequence n) = 10"
  using itoa_length [of n 10] by (simp add: formatSequence_eq padLeft_def)

lemma formatSequence_inject: "formatSequence m = formatSequence n \<longleftrightarrow> m = n"
  by (metis formatSequence_value(2) word_unat_eq_iff)

lemma formatSequence_order:
  assumes "unat m < 10 ^ 10" "unat n < 10 ^ 10"
  shows "formatSequence m < formatSequence n \<longleftrightarrow> m < n"
  using dec_value_order [of "formatSequence m" "formatSequence n"] assms
  by (simp add: formatSequence_value formatSequence_length word_less_nat_alt)

lemma digit_not_slash: "list_all is_digit s \<Longrightarrow> CHR ''/'' \<notin> set s"
  by (auto simp: list_all_iff is_digit_def)

lemma good_elem_seq:
  assumes "good_elem c \<or> c = ''''"
  shows "good_elem (c @ formatSequence n)"
proof -
  have len: "10 \<le> length (c @ formatSequence n)" using formatSequence_length_ge [of n] by simp
  then have "c @ formatSequence n \<notin> {'''', ''.'', ''..''}"
    by (auto dest: arg_cong [of _ _ length])
  then show ?thesis
    using assms digit_not_slash [OF formatSequence_value(1)] by (auto simp: good_elem_def)
qed

end
