(* ===== verification/StoreTree.thy ===== *)
theory StoreTree
  imports Decimal
begin

text \<open>
  The store as a tree: an abstract specification over lists of path elements, the invariant of
  the store, and the refinement of the operations of \<open>internal/store/store.go\<close> to it.
\<close>

section \<open>The abstract tree\<close>

type_synonym tree = "string list \<rightharpoonup> StoreNode"

definition tree_of :: "'h Store \<Rightarrow> tree" where
  "tree_of s cs = (if list_all good_elem cs then s_nodes s (path_of cs) else None)"

text \<open>Adding and removing the child \<open>c\<close> of the node \<open>cs\<close>.\<close>

definition tree_insert :: "string list \<Rightarrow> string \<Rightarrow> StoreNode \<Rightarrow> tree \<Rightarrow> tree" where
  "tree_insert cs c n t =
     t(cs @ [c] \<mapsto> n, cs := map_option (add_child c) (t cs))"

definition tree_remove :: "string list \<Rightarrow> string \<Rightarrow> tree \<Rightarrow> tree" where
  "tree_remove cs c t = t(cs := map_option (del_child c) (t cs), cs @ [c] := None)"

text \<open>
  A well-formed tree: a finite number of nodes, a root that is not ephemeral, every other
  node below a node that is not ephemeral, child lists that name existing nodes once. Below the
  root, a node also lists all its children.
\<close>

definition tree_wf :: "tree \<Rightarrow> bool" where
  "tree_wf t \<longleftrightarrow>
     finite (dom t) \<and>
     (\<exists>r. t [] = Some r \<and> \<not> sn_Ephemeral r) \<and>
     (\<forall>cs n. t cs = Some n \<longrightarrow> list_all good_elem cs \<and> sn_Path n = path_of cs \<and> distinct (sn_Children n)) \<and>
     (\<forall>cs c n. t (cs @ [c]) = Some n \<longrightarrow>
        (\<exists>q. t cs = Some q \<and> \<not> sn_Ephemeral q \<and> (cs \<noteq> [] \<longrightarrow> c \<in> set (sn_Children q)))) \<and>
     (\<forall>cs q c. t cs = Some q \<longrightarrow> c \<in> set (sn_Children q) \<longrightarrow> t (cs @ [c]) \<noteq> None)"

text \<open>The root lists its children too: true as long as no sequential node is created at the root.\<close>

definition root_complete :: "tree \<Rightarrow> bool" where
  "root_complete t \<longleftrightarrow> (\<forall>c. t [c] \<noteq> None \<longrightarrow> (\<exists>r. t [] = Some r \<and> c \<in> set (sn_Children r)))"

definition store_wf :: "'h Store \<Rightarrow> bool" where
  "store_wf s \<longleftrightarrow> tree_wf (tree_of s) \<and>
     (\<forall>p \<in> dom (s_nodes s). \<exists>cs. list_all good_elem cs \<and> p = path_of cs)"

lemma tree_wfI:
  assumes "finite (dom t)" "\<exists>r. t [] = Some r \<and> \<not> sn_Ephemeral r"
    and "\<And>cs n. t cs = Some n \<Longrightarrow> list_all good_elem cs \<and> sn_Path n = path_of cs \<and> distinct (sn_Children n)"
    and "\<And>cs c n. t (cs @ [c]) = Some n \<Longrightarrow> \<exists>q. t cs = Some q \<and> \<not> sn_Ephemeral q \<and> (cs \<noteq> [] \<longrightarrow> c \<in> set (sn_Children q))"
    and "\<And>cs q c. t cs = Some q \<Longrightarrow> c \<in> set (sn_Children q) \<Longrightarrow> t (cs @ [c]) \<noteq> None"
  shows "tree_wf t"
  using assms unfolding tree_wf_def by blast

lemma tree_wf_finite: "tree_wf t \<Longrightarrow> finite (dom t)"
  by (simp add: tree_wf_def)

lemma tree_wf_root: "tree_wf t \<Longrightarrow> \<exists>r. t [] = Some r \<and> \<not> sn_Ephemeral r"
  by (simp add: tree_wf_def)

lemma tree_wf_node:
  "tree_wf t \<Longrightarrow> t cs = Some n \<Longrightarrow> list_all good_elem cs \<and> sn_Path n = path_of cs \<and> distinct (sn_Children n)"
  by (simp add: tree_wf_def)

lemma tree_wf_parent:
  "tree_wf t \<Longrightarrow> t (cs @ [c]) = Some n \<Longrightarrow>
     \<exists>q. t cs = Some q \<and> \<not> sn_Ephemeral q \<and> (cs \<noteq> [] \<longrightarrow> c \<in> set (sn_Children q))"
  by (simp add: tree_wf_def)

lemma tree_wf_child: "tree_wf t \<Longrightarrow> t cs = Some q \<Longrightarrow> c \<in> set (sn_Children q) \<Longrightarrow> t (cs @ [c]) \<noteq> None"
  by (simp add: tree_wf_def)

lemma store_wf_tree [dest]: "store_wf s \<Longrightarrow> tree_wf (tree_of s)"
  by (simp add: store_wf_def)

lemma store_wf_canonical:
  "store_wf s \<Longrightarrow> s_nodes s p = Some n \<Longrightarrow> \<exists>cs. list_all good_elem cs \<and> p = path_of cs \<and> tree_of s cs = Some n"
  by (auto simp: store_wf_def tree_of_def)

text \<open>Look-ups in the concrete map by path are look-ups in the tree by elements.\<close>

lemma nodes_normalize: "s_nodes s (normalizePath p) = tree_of s (path_elems p)"
  by (simp add: normalizePath_eq tree_of_def)

lemma Store_Get_elems [store_simps]:
  "Store_Get s p = (case tree_of s (path_elems p) of None \<Rightarrow> Inl ErrNodeNotFound | Some n \<Rightarrow> Inr n)"
  by (simp add: Store_Get_def nodes_normalize)

lemma Store_GetChildren_elems [store_simps]:
  "Store_GetChildren s p = (case tree_of s (path_elems p) of None \<Rightarrow> Inl ErrNodeNotFound | Some n \<Rightarrow> Inr (sort_Strings (sn_Children n)))"
  by (simp add: Store_GetChildren_def nodes_normalize)

lemma Store_Exists_elems [store_simps]: "Store_Exists s p \<longleftrightarrow> tree_of s (path_elems p) \<noteq> None"
  by (simp add: Store_Exists_def nodes_normalize)

lemma nodes_path_of: "list_all good_elem cs \<Longrightarrow> s_nodes s (path_of cs) = tree_of s cs"
  by (simp add: tree_of_def)

lemma tree_of_upd:
  "list_all good_elem cs \<Longrightarrow> tree_of (s\<lparr>s_nodes := (s_nodes s)(path_of cs := x)\<rparr>) = (tree_of s)(cs := x)"
  by (auto simp: tree_of_def fun_eq_iff path_of_inject)

lemma tree_of_cong: "s_nodes s = s_nodes s' \<Longrightarrow> tree_of s = tree_of s'"
  by (simp add: tree_of_def fun_eq_iff)

lemma tree_of_seqCounter [simp]: "tree_of (s\<lparr>s_seqCounter := k\<rparr>) = tree_of s"
  by (rule tree_of_cong) simp

lemma finite_nodes: "store_wf s \<Longrightarrow> finite (dom (s_nodes s))"
proof -
  assume wf: "store_wf s"
  have "dom (s_nodes s) \<subseteq> path_of ` dom (tree_of s)"
  proof
    fix p assume "p \<in> dom (s_nodes s)"
    with store_wf_canonical [OF wf] show "p \<in> path_of ` dom (tree_of s)" by blast
  qed
  moreover have "finite (dom (tree_of s))" using wf by (auto simp: tree_wf_def store_wf_def)
  ultimately show ?thesis by (meson finite_imageI finite_subset)
qed

section \<open>The abstract operations keep the tree well-formed\<close>

lemma snoc_neq [simp]: "cs @ [c] \<noteq> cs" "cs \<noteq> cs @ [c]"
  by simp_all

lemma tree_insert_wf:
  assumes wf: "tree_wf t" and q: "t cs = Some q" "\<not> sn_Ephemeral q" and new: "t (cs @ [c]) = None"
    and n: "sn_Children n = []" "sn_Path n = path_of (cs @ [c])" "good_elem c"
  shows "tree_wf (tree_insert cs c n t)"
proof (rule tree_wfI)
  let ?t = "tree_insert cs c n t"
  have look: "?t ds = (if ds = cs then Some (add_child c q) else if ds = cs @ [c] then Some n else t ds)" for ds
    using q by (simp add: tree_insert_def)
  have cq: "c \<notin> set (sn_Children q)" using tree_wf_child [OF wf q(1)] new by blast
  have nochild: "t (cs @ [c, d]) = None" for d
    using tree_wf_parent [OF wf, of "cs @ [c]" d] new by (cases "t (cs @ [c, d])") auto
  note node = tree_wf_node [OF wf] and par = tree_wf_parent [OF wf] and child = tree_wf_child [OF wf]
  have "dom ?t \<subseteq> insert cs (insert (cs @ [c]) (dom t))" by (auto simp: look dom_def)
  then show "finite (dom ?t)" using tree_wf_finite [OF wf] by (metis finite_insert finite_subset)
  show "\<exists>r. ?t [] = Some r \<and> \<not> sn_Ephemeral r"
    using tree_wf_root [OF wf] q by (simp add: look add_child_def)
  show "list_all good_elem ds \<and> sn_Path m = path_of ds \<and> distinct (sn_Children m)" if "?t ds = Some m" for ds m
    using that node [OF q(1)] node [of ds m] cq n by (auto simp: look add_child_def split: if_splits)
  show "\<exists>q'. ?t ds = Some q' \<and> \<not> sn_Ephemeral q' \<and> (ds \<noteq> [] \<longrightarrow> d \<in> set (sn_Children q'))"
    if "?t (ds @ [d]) = Some m" for ds d m
  proof -
    have "ds @ [d] = cs @ [c] \<or> (\<exists>m'. t (ds @ [d]) = Some m')" using that q(1) by (auto simp: look split: if_splits)
    then show ?thesis using par [of ds d] q nochild new by (auto simp: look add_child_def)
  qed
  show "?t (ds @ [d]) \<noteq> None" if "?t ds = Some m" "d \<in> set (sn_Children m)" for ds m d
  proof -
    have "ds @ [d] = cs @ [c] \<or> t (ds @ [d]) \<noteq> None"
      using that child [of ds m d] child [OF q(1), of d] n(1) by (auto simp: look add_child_def split: if_splits)
    then show ?thesis by (auto simp: look)
  qed
qed

text \<open>A node that has no children can be cut off.\<close>

definition childless :: "tree \<Rightarrow> string list \<Rightarrow> bool" where
  "childless t cs \<longleftrightarrow> (\<forall>c. t (cs @ [c]) = None)"

lemma tree_remove_wf:
  assumes wf: "tree_wf t" and n: "t (cs @ [c]) = Some n" and leaf: "childless t (cs @ [c])"
  shows "tree_wf (tree_remove cs c t)"
proof (rule tree_wfI)
  let ?t = "tree_remove cs c t"
  obtain q where q: "t cs = Some q" "\<not> sn_Ephemeral q"
    using tree_wf_parent [OF wf n] by blast
  have look: "?t ds = (if ds = cs @ [c] then None else if ds = cs then Some (del_child c q) else t ds)" for ds
    using q by (simp add: tree_remove_def)
  note node = tree_wf_node [OF wf] and par = tree_wf_parent [OF wf] and child = tree_wf_child [OF wf]
  have ch: "set (sn_Children (del_child c q)) = set (sn_Children q) - {c}" "distinct (sn_Children (del_child c q))"
      "sn_Path (del_child c q) = sn_Path q" "\<not> sn_Ephemeral (del_child c q)"
    using node [OF q(1)] q(2) by (simp_all add: del_child_def remove_first_eq_remove1)
  have "dom ?t \<subseteq> insert cs (dom t)" by (auto simp: look dom_def)
  then show "finite (dom ?t)" using tree_wf_finite [OF wf] by (metis finite_insert finite_subset)
  show "\<exists>r. ?t [] = Some r \<and> \<not> sn_Ephemeral r" using tree_wf_root [OF wf] ch(4) by (simp add: look)
  show "list_all good_elem ds \<and> sn_Path m = path_of ds \<and> distinct (sn_Children m)" if "?t ds = Some m" for ds m
    using that node [OF q(1)] node [of ds m] ch(2,3) by (auto simp: look split: if_splits)
  show "\<exists>q'. ?t ds = Some q' \<and> \<not> sn_Ephemeral q' \<and> (ds \<noteq> [] \<longrightarrow> d \<in> set (sn_Children q'))"
    if m: "?t (ds @ [d]) = Some m" for ds d m
  proof -
    have ne: "ds @ [d] \<noteq> cs @ [c]" and ex: "\<exists>m'. t (ds @ [d]) = Some m'" using m q(1) by (auto simp: look split: if_splits)
    then have "ds \<noteq> cs @ [c]" using leaf by (auto simp: childless_def)
    then show ?thesis using ne ex par [of ds d] q ch by (auto simp: look)
  qed
  show "?t (ds @ [d]) \<noteq> None" if m: "?t ds = Some m" "d \<in> set (sn_Children m)" for ds m d
    using m child [of ds m d] child [OF q(1), of d] ch(1) by (auto simp: look split: if_splits)
qed

text \<open>A sequential node at the root is entered into the map only.\<close>

lemma tree_orphan_wf:
  assumes wf: "tree_wf t" and new: "t [c] = None"
    and n: "sn_Children n = []" "sn_Path n = path_of [c]" "good_elem c"
  shows "tree_wf (t([c] \<mapsto> n))"
proof (rule tree_wfI)
  let ?t = "t([c] \<mapsto> n)"
  note par = tree_wf_parent [OF wf] and child = tree_wf_child [OF wf]
  have nochild: "t [c, d] = None" for d using par [of "[c]" d] new by (cases "t [c, d]") auto
  show "finite (dom ?t)" using tree_wf_finite [OF wf] by simp
  show "\<exists>r. ?t [] = Some r \<and> \<not> sn_Ephemeral r" using tree_wf_root [OF wf] by simp
  show "list_all good_elem ds \<and> sn_Path m = path_of ds \<and> distinct (sn_Children m)" if "?t ds = Some m" for ds m
    using that tree_wf_node [OF wf] n by (cases "ds = [c]") auto
  show "\<exists>q'. ?t ds = Some q' \<and> \<not> sn_Ephemeral q' \<and> (ds \<noteq> [] \<longrightarrow> d \<in> set (sn_Children q'))"
    if m: "?t (ds @ [d]) = Some m" for ds d m
    using m par [of ds d m] nochild tree_wf_root [OF wf] by (cases "ds = [c]") (auto split: if_splits)
  show "?t (ds @ [d]) \<noteq> None" if "?t ds = Some m" "d \<in> set (sn_Children m)" for ds m d
    using that child [of ds m d] n(1) by (cases "ds = [c]") auto
qed

section \<open>Abstract operations\<close>

text \<open>The elements of the path under which a sequential node is stored.\<close>

definition extend_last :: "string list \<Rightarrow> string \<Rightarrow> string list" where
  "extend_last es x = (if es = [] then [x] else butlast es @ [last es @ x])"

text \<open>
  Create, over elements: \<open>mk es ctr\<close> is the new node, \<open>ctr\<close> the sequence counter. The parent
  must exist and must not be ephemeral; a sequential node takes the next counter value, which is
  spent even when the resulting path is taken.
\<close>

definition tree_create ::
  "tree \<Rightarrow> u64 \<Rightarrow> string list \<Rightarrow> (string list \<Rightarrow> u64 \<Rightarrow> StoreNode) \<Rightarrow> bool
     \<Rightarrow> tree \<times> u64 \<times> (store_error + string list)" where
  "tree_create t ctr es mk sequential =
     (if es \<noteq> [] \<and> t (butlast es) = None then (t, ctr, Inl ErrNodeNotFound)
      else if es \<noteq> [] \<and> sn_Ephemeral (the (t (butlast es))) then (t, ctr, Inl ErrEphemeralParent)
      else
        (let ctr' = (if sequential then ctr + 1 else ctr);
             es' = (if sequential then extend_last es (formatSequence ctr') else es)
         in if t es' \<noteq> None then (t, ctr', Inl ErrNodeExists)
            else (if es = [] then t(es' \<mapsto> mk es' ctr')
                  else tree_insert (butlast es') (last es') (mk es' ctr') t, ctr', Inr es')))"

definition tree_set :: "tree \<Rightarrow> string list \<Rightarrow> instant \<Rightarrow> bytes \<Rightarrow> int \<Rightarrow> tree \<times> (store_error + StoreNode)" where
  "tree_set t es now data ev =
     (case t es of
        None \<Rightarrow> (t, Inl ErrNodeNotFound)
      | Some n \<Rightarrow>
          if \<not> version_ok ev n then (t, Inl ErrVersionMismatch)
          else (let n' = n\<lparr>sn_Data := data, sn_Version := sn_Version n + 1, sn_ModifyTime := now\<rparr>
                in (t(es \<mapsto> n'), Inr n')))"

definition tree_delete :: "tree \<Rightarrow> string list \<Rightarrow> int \<Rightarrow> tree \<times> (store_error + unit)" where
  "tree_delete t es ev =
     (if es = [] then (t, Inl ErrCannotDeleteRoot)
      else case t es of
             None \<Rightarrow> (t, Inl ErrNodeNotFound)
           | Some n \<Rightarrow>
               if \<not> version_ok ev n then (t, Inl ErrVersionMismatch)
               else if sn_Children n \<noteq> [] then (t, Inl ErrNotEmpty)
               else (tree_remove (butlast es) (last es) t, Inr ()))"

section \<open>The concrete operations refine the abstract ones\<close>

lemma snoc_cases: obtains "es = []" | cs c where "es = cs @ [c]"
  by (cases es rule: rev_cases) auto

lemma tree_of_upd_node:
  assumes "list_all good_elem cs"
  shows "tree_of (s\<lparr>s_nodes := upd_node (path_of cs) f (s_nodes s)\<rparr>) = (tree_of s)(cs := map_option f (tree_of s cs))"
proof (cases "s_nodes s (path_of cs)")
  case None
  with assms show ?thesis by (auto simp: upd_node_def tree_of_def fun_eq_iff)
next
  case (Some n)
  with assms show ?thesis
    using tree_of_upd [OF assms, of s "Some (f n)"] by (simp add: upd_node_def tree_of_def)
qed

lemma path_elems_snoc_good:
  "path_elems p = cs @ [c] \<Longrightarrow> list_all good_elem cs \<and> good_elem c"
  using path_elems_good [of p] by (metis list_all_append list.pred_inject(2))

definition new_node :: "bytes \<Rightarrow> bool \<Rightarrow> string \<Rightarrow> bool \<Rightarrow> instant \<Rightarrow> instant \<Rightarrow> string list \<Rightarrow> u64 \<Rightarrow> StoreNode" where
  "new_node data eph sid seqn t1 t2 es ctr =
     \<lparr>sn_Path = path_of es, sn_Data = data, sn_Version = 1, sn_Ephemeral = eph, sn_SessionID = sid,
      sn_Sequential = seqn, sn_Sequence = ctr, sn_Children = [], sn_CreateTime = t1, sn_ModifyTime = t2\<rparr>"

lemma path_of_extend_last: "path_of es @ x = path_of (extend_last es x)"
  by (cases es rule: rev_cases) (simp_all add: extend_last_def path_of_append_seq, simp add: path_of_def)

lemma extend_good:
  "list_all good_elem es \<Longrightarrow> list_all good_elem (extend_last es (formatSequence k))"
  by (cases es rule: rev_cases) (auto simp: extend_last_def good_elem_seq [of "''''", simplified] good_elem_seq)

lemma extend_snoc [simp]: "extend_last (cs @ [c]) x = cs @ [c @ x]"
  by (simp add: extend_last_def)

lemma extend_neq_Nil [simp]: "extend_last es x \<noteq> []"
  by (simp add: extend_last_def)

lemma butlast_extend: "es \<noteq> [] \<Longrightarrow> butlast (extend_last es x) = butlast es"
  by (simp add: extend_last_def)

text \<open>The part of a store that the specification talks about.\<close>

definition store_abs :: "'h Store \<times> 'h spawn list \<times> 'r \<Rightarrow> tree \<times> u64 \<times> 'r" where
  "store_abs x = (tree_of (fst x), s_seqCounter (fst x), snd (snd x))"

text \<open>\<open>Create\<close> with the path already split into elements.\<close>

definition seq_store :: "bool \<Rightarrow> 'h Store \<Rightarrow> 'h Store" where
  "seq_store seqn s = (if seqn then s\<lparr>s_seqCounter := s_seqCounter s + 1\<rparr> else s)"

definition seq_elems :: "bool \<Rightarrow> 'h Store \<Rightarrow> string list \<Rightarrow> string list" where
  "seq_elems seqn s es = (if seqn then extend_last es (formatSequence (s_seqCounter s + 1)) else es)"

lemma seq_store_tree [simp]: "tree_of (seq_store seqn s) = tree_of s" "s_nodes (seq_store seqn s) = s_nodes s"
  by (simp_all add: seq_store_def)

lemma seq_elems_good: "list_all good_elem es \<Longrightarrow> list_all good_elem (seq_elems seqn s es)"
  by (simp add: seq_elems_def extend_good)

lemma seq_elems_butlast: "es \<noteq> [] \<Longrightarrow> butlast (seq_elems seqn s es) = butlast es"
  by (simp add: seq_elems_def butlast_extend)

lemma Store_Create_elems:
  fixes s :: "'h Store" and seqn eph :: bool and data sid :: string and t1 t2 :: instant
  assumes es: "path_elems p = es"
  defines "s1 \<equiv> seq_store seqn s" and "es' \<equiv> seq_elems seqn s es"
  defines "n \<equiv> new_node data eph sid seqn t1 t2 es' (s_seqCounter s1)"
  shows "Store_Create s t1 t2 p data eph sid seqn =
      (if es \<noteq> [] \<and> tree_of s (butlast es) = None then (s, [], Inl ErrNodeNotFound)
       else if es \<noteq> [] \<and> sn_Ephemeral (the (tree_of s (butlast es))) then (s, [], Inl ErrEphemeralParent)
       else if tree_of s es' \<noteq> None then (s1, [], Inl ErrNodeExists)
       else (s1\<lparr>s_nodes := (if es = [] then (s_nodes s)(path_of es' \<mapsto> n)
                  else upd_node (path_of (butlast es)) (add_child (last es')) ((s_nodes s)(path_of es' \<mapsto> n)))\<rparr>,
             go_create s1 (path_of es') n, Inr (path_of es')))"
proof -
  have good: "list_all good_elem es" using es path_elems_good by blast
  have gd: "list_all good_elem es'" using good by (simp add: es'_def seq_elems_good)
  have norm: "normalizePath p = path_of es" by (simp add: normalizePath_eq es)
  have pair: "(if seqn then (s\<lparr>s_seqCounter := s_seqCounter s + 1\<rparr>, path_of es @ formatSequence (s_seqCounter s + 1))
      else (s, path_of es)) = (s1, path_of es')"
    by (simp add: s1_def es'_def seq_store_def seq_elems_def path_of_extend_last)
  have look: "s_nodes s (path_of es') = tree_of s es'" using gd by (simp add: nodes_path_of)
  show ?thesis
  proof (cases es rule: rev_cases)
    case Nil
    show ?thesis
      unfolding Store_Create_def norm Let_def pair n_def new_node_def
      using Nil by (simp add: s1_def look)
  next
    case (snoc cs c)
    have par: "parentPath (path_of es) = path_of cs" using good snoc by (simp add: parentPath_snoc)
    have lookp: "s_nodes s (path_of cs) = tree_of s cs" using good snoc by (simp add: nodes_path_of)
    have "es' = cs @ [last es']" by (simp add: es'_def seq_elems_def snoc)
    then have base: "baseName (path_of es') = last es'" using gd by (metis baseName_snoc list_all_append list.pred_inject(2))
    show ?thesis
      unfolding Store_Create_def norm Let_def pair par lookp n_def new_node_def
      using snoc by (auto simp: s1_def base look)
  qed
qed

lemma Store_Create_tree:
  assumes es: "path_elems p = es" and es': "es' = seq_elems seqn s0 es"
  shows "tree_of (s\<lparr>s_nodes := (if es = [] then (s_nodes s)(path_of es' \<mapsto> n)
           else upd_node (path_of (butlast es)) (add_child (last es')) ((s_nodes s)(path_of es' \<mapsto> n)))\<rparr>)
       = (if es = [] then (tree_of s)(es' \<mapsto> n) else tree_insert (butlast es') (last es') n (tree_of s))"
proof -
  have good: "list_all good_elem es" using es path_elems_good by blast
  have gd: "list_all good_elem es'" using good es' by (simp add: seq_elems_good)
  show ?thesis
  proof (cases "es = []")
    case True
    then show ?thesis using tree_of_upd [OF gd, where s = s and x = "Some n"] by simp
  next
    case False
    then have b: "butlast es = butlast es'" "es' = butlast es' @ [last es']"
      using es' by (auto simp: seq_elems_def butlast_extend)
    have gb: "list_all good_elem (butlast es')" using gd b(2) by (metis list_all_append)
    have ne: "butlast es' \<noteq> es'" using b(2) by (metis snoc_neq(1))
    show ?thesis
      using False tree_of_upd_node [OF gb, where f = "add_child (last es')" and s = "s\<lparr>s_nodes := (s_nodes s)(path_of es' \<mapsto> n)\<rparr>"]
        tree_of_upd [OF gd, where s = s and x = "Some n"] b ne
      by (simp add: tree_insert_def)
  qed
qed

lemma Store_Create_refines:
  "store_abs (Store_Create s t1 t2 p data eph sid seqn) =
     (case tree_create (tree_of s) (s_seqCounter s) (path_elems p) (new_node data eph sid seqn t1 t2) seqn of
        (t', ctr', r) \<Rightarrow> (t', ctr', map_sum id path_of r))"
  using Store_Create_tree [OF refl refl, where p = p and s = "seq_store seqn s" and seqn = seqn and s0 = s]
  unfolding Store_Create_elems [OF refl] tree_create_def store_abs_def Let_def
  by (auto simp: seq_elems_def seq_store_def)

lemma Store_Set_refines:
  "tree_of (fst (Store_Set s now p data ev)) = fst (tree_set (tree_of s) (path_elems p) now data ev)"
  "snd (snd (Store_Set s now p data ev)) = snd (tree_set (tree_of s) (path_elems p) now data ev)"
  by (auto simp: Store_Set_def tree_set_def nodes_normalize Let_def normalizePath_eq tree_of_upd
        nodes_path_of split: option.splits)

lemma Store_Delete_refines:
  assumes wf: "store_wf s"
  shows "tree_of (fst (Store_Delete s p ev)) = fst (tree_delete (tree_of s) (path_elems p) ev)"
    and "snd (snd (Store_Delete s p ev)) = snd (tree_delete (tree_of s) (path_elems p) ev)"
proof -
  have "tree_of (fst (Store_Delete s p ev)) = fst (tree_delete (tree_of s) (path_elems p) ev) \<and>
        snd (snd (Store_Delete s p ev)) = snd (tree_delete (tree_of s) (path_elems p) ev)"
  proof (cases "path_elems p" rule: rev_cases)
    case Nil
    then show ?thesis by (simp add: Store_Delete_def tree_delete_def normalizePath_eq)
  next
    case (snoc cs c)
    then have good: "list_all good_elem cs" "good_elem c" "list_all good_elem (cs @ [c])"
      using path_elems_snoc_good by auto
    have norm: "normalizePath p = path_of (cs @ [c])" by (simp add: normalizePath_eq snoc)
    have par: "parentPath (path_of (cs @ [c])) = path_of cs" using good by (simp add: parentPath_snoc)
    have nr: "path_of (cs @ [c]) \<noteq> ''/''" using good by (simp add: good_elem_def)
    have look: "s_nodes s (path_of cs) = tree_of s cs" "s_nodes s (path_of (cs @ [c])) = tree_of s (cs @ [c])"
      using good by (simp_all add: nodes_path_of)
    have base: "baseName (path_of (cs @ [c])) = c" using good by (simp add: baseName_snoc)
    have upd: "tree_of (s\<lparr>s_nodes := (upd_node (path_of cs) (del_child c) (s_nodes s))(path_of (cs @ [c]) := None)\<rparr>)
        = tree_remove cs c (tree_of s)"
      using tree_of_upd_node [OF good(1), where s = s and f = "del_child c"]
        tree_of_upd [OF good(3), where s = "s\<lparr>s_nodes := upd_node (path_of cs) (del_child c) (s_nodes s)\<rparr>" and x = None]
      by (simp add: tree_remove_def)
    show ?thesis
    proof (cases "tree_of s (cs @ [c])")
      case None
      then show ?thesis by (simp add: Store_Delete_def tree_delete_def norm nr look snoc)
    next
      case (Some n)
      then obtain q where "tree_of s cs = Some q"
        using tree_wf_parent store_wf_tree [OF wf] by blast
      then show ?thesis using Some upd
        by (simp add: Store_Delete_def tree_delete_def norm nr look snoc par base Let_def)
    qed
  qed
  then show "tree_of (fst (Store_Delete s p ev)) = fst (tree_delete (tree_of s) (path_elems p) ev)"
    and "snd (snd (Store_Delete s p ev)) = snd (tree_delete (tree_of s) (path_elems p) ev)" by auto
qed

section \<open>The invariant of the store\<close>

definition canonical :: "(string \<rightharpoonup> StoreNode) \<Rightarrow> bool" where
  "canonical m \<longleftrightarrow> (\<forall>p \<in> dom m. \<exists>cs. list_all good_elem cs \<and> p = path_of cs)"

lemma store_wf_iff: "store_wf s \<longleftrightarrow> tree_wf (tree_of s) \<and> canonical (s_nodes s)"
  by (simp add: store_wf_def canonical_def)

lemma dom_upd_node [simp]: "dom (upd_node p f m) = dom m"
  by (auto simp: upd_node_def split: option.splits)

lemma canonical_dom: "dom m' \<subseteq> dom m \<Longrightarrow> canonical m \<Longrightarrow> canonical m'"
  by (auto simp: canonical_def)

lemma canonical_upd_node [simp]: "canonical (upd_node p f m) = canonical m"
  by (simp add: canonical_def)

lemma canonical_upd: "canonical m \<Longrightarrow> list_all good_elem cs \<Longrightarrow> canonical (m(path_of cs \<mapsto> n))"
  by (auto simp: canonical_def)

lemma store_wf_NewStore: "store_wf (NewStore t1 t2 :: 'h Store)"
proof -
  have "tree_of (NewStore t1 t2 :: 'h Store) cs = None" if "cs \<noteq> []" for cs
    using that path_of_inject [of cs "[]"] by (auto simp: tree_of_def NewStore_def)
  then have "tree_of (NewStore t1 t2 :: 'h Store) =
      [[] \<mapsto> \<lparr>sn_Path = ''/'', sn_Data = '''', sn_Version = 0, sn_Ephemeral = False, sn_SessionID = '''',
              sn_Sequential = False, sn_Sequence = 0, sn_Children = [], sn_CreateTime = t1, sn_ModifyTime = t2\<rparr>]"
    by (auto simp: fun_eq_iff) (simp add: tree_of_def NewStore_def)
  moreover have "canonical (s_nodes (NewStore t1 t2 :: 'h Store))"
    by (auto simp: canonical_def NewStore_def intro!: exI [of _ "[]"])
  ultimately show ?thesis by (auto simp: store_wf_iff tree_wf_def)
qed

lemma new_node_simps [simp]:
  "sn_Children (new_node d e i q a b es k) = []" "sn_Path (new_node d e i q a b es k) = path_of es"
  "sn_Data (new_node d e i q a b es k) = d" "sn_Version (new_node d e i q a b es k) = 1"
  "sn_Ephemeral (new_node d e i q a b es k) = e" "sn_SessionID (new_node d e i q a b es k) = i"
  by (simp_all add: new_node_def)

lemma tree_create_wf:
  assumes wf: "tree_wf t" and es: "list_all good_elem es"
  shows "tree_wf (fst (tree_create t ctr es (new_node d e i q a b) seqn))"
proof -
  define ctr' where "ctr' = (if seqn then ctr + 1 else ctr)"
  define es' where "es' = (if seqn then extend_last es (formatSequence ctr') else es)"
  have gd: "list_all good_elem es'" using es by (simp add: es'_def extend_good)
  have res: "fst (tree_create t ctr es mk seqn) =
      (if es \<noteq> [] \<and> (t (butlast es) = None \<or> sn_Ephemeral (the (t (butlast es)))) \<or> t es' \<noteq> None then t
       else if es = [] then t(es' \<mapsto> mk es' ctr') else tree_insert (butlast es') (last es') (mk es' ctr') t)" for mk
    by (auto simp: tree_create_def ctr'_def es'_def Let_def)
  show ?thesis
  proof (cases "es = []")
    case True
    then have "t es' = None \<Longrightarrow> es' = [formatSequence ctr']"
      using tree_wf_root [OF wf] by (auto simp: es'_def extend_last_def split: if_splits)
    then show ?thesis
      unfolding res using True wf gd tree_orphan_wf [OF wf, of "formatSequence ctr'"] by auto
  next
    case False
    then have b: "butlast es' = butlast es" "es' = butlast es @ [last es']"
      by (auto simp: es'_def butlast_extend) (metis append_butlast_last_id butlast_extend extend_neq_Nil)
    moreover have "good_elem (last es')" using gd b(2) by (metis list_all_append list.pred_inject(2))
    ultimately show ?thesis
      unfolding res using False wf tree_insert_wf [OF wf, of "butlast es" _ "last es'"] by auto
  qed
qed

lemma Store_Create_wf:
  assumes "store_wf s"
  shows "store_wf (fst (Store_Create s t1 t2 p data eph sid seqn))"
proof -
  let ?r = "Store_Create s t1 t2 p data eph sid seqn"
  have "tree_of (fst ?r) = fst (store_abs ?r)" by (simp add: store_abs_def)
  also have "\<dots> = fst (tree_create (tree_of s) (s_seqCounter s) (path_elems p) (new_node data eph sid seqn t1 t2) seqn)"
    by (simp add: Store_Create_refines case_prod_unfold)
  finally have "tree_wf (tree_of (fst ?r))"
    using assms by (auto intro: tree_create_wf)
  moreover have "canonical (s_nodes (fst ?r))"
    using assms seq_elems_good [of "path_elems p" seqn s]
    by (auto simp: Store_Create_elems [OF refl] store_wf_iff canonical_upd)
  ultimately show ?thesis by (simp add: store_wf_iff)
qed

lemma tree_set_wf:
  assumes wf: "tree_wf t"
  shows "tree_wf (fst (tree_set t es now data ev))"
proof (cases "t es")
  case None
  with wf show ?thesis by (simp add: tree_set_def)
next
  case (Some n)
  define n' where "n' = n\<lparr>sn_Data := data, sn_Version := sn_Version n + 1, sn_ModifyTime := now\<rparr>"
  have same: "sn_Path n' = sn_Path n" "sn_Children n' = sn_Children n" "sn_Ephemeral n' = sn_Ephemeral n"
    by (simp_all add: n'_def)
  have look: "(t(es \<mapsto> n')) cs = (if cs = es then Some n' else t cs)" for cs by simp
  have rel: "\<exists>m. t cs = Some m \<and> sn_Path k = sn_Path m \<and> sn_Children k = sn_Children m \<and> sn_Ephemeral k = sn_Ephemeral m"
    if "(t(es \<mapsto> n')) cs = Some k" for cs k
    using that Some same by (auto split: if_splits)
  have rel': "\<exists>k. (t(es \<mapsto> n')) cs = Some k \<and> sn_Children k = sn_Children m \<and> sn_Ephemeral k = sn_Ephemeral m"
    if "t cs = Some m" for cs m
    using that Some same by auto
  note node = tree_wf_node [OF wf] and root = tree_wf_root [OF wf] and par = tree_wf_parent [OF wf]
    and child = tree_wf_child [OF wf]
  have "tree_wf (t(es \<mapsto> n'))"
    unfolding tree_wf_def
  proof (intro conjI allI impI)
    show "finite (dom (t(es \<mapsto> n')))" using wf by (simp add: tree_wf_def)
    show "\<exists>r. (t(es \<mapsto> n')) [] = Some r \<and> \<not> sn_Ephemeral r" using root rel' by metis
  next
    fix cs k assume "(t(es \<mapsto> n')) cs = Some k"
    with rel node show "list_all good_elem cs" "sn_Path k = path_of cs" "distinct (sn_Children k)" by metis+
  next
    fix cs c k assume "(t(es \<mapsto> n')) (cs @ [c]) = Some k"
    with rel obtain m where "t (cs @ [c]) = Some m" by blast
    with par rel' show "\<exists>q. (t(es \<mapsto> n')) cs = Some q \<and> \<not> sn_Ephemeral q \<and> (cs \<noteq> [] \<longrightarrow> c \<in> set (sn_Children q))" by metis
  next
    fix cs q c assume "(t(es \<mapsto> n')) cs = Some q" "c \<in> set (sn_Children q)"
    with rel child have "t (cs @ [c]) \<noteq> None" by metis
    then show "(t(es \<mapsto> n')) (cs @ [c]) \<noteq> None" by simp
  qed
  with Some wf show ?thesis by (simp add: tree_set_def n'_def Let_def)
qed

lemma Store_Set_wf: "store_wf s \<Longrightarrow> store_wf (fst (Store_Set s now p data ev))"
  using Store_Set_refines(1) [of s now p data ev] tree_set_wf [of "tree_of s" "path_elems p" now data ev]
  by (auto simp: store_wf_iff Store_Set_def Let_def normalizePath_eq canonical_upd split: option.splits)

lemma childless_if_no_children:
  assumes wf: "tree_wf t" and n: "t (cs @ [c]) = Some n" "sn_Children n = []"
  shows "childless t (cs @ [c])"
  unfolding childless_def
proof
  fix d
  show "t ((cs @ [c]) @ [d]) = None"
  proof (rule ccontr)
    assume "t ((cs @ [c]) @ [d]) \<noteq> None"
    then obtain m where "t ((cs @ [c]) @ [d]) = Some m" by blast
    from tree_wf_parent [OF wf this] n show False by simp
  qed
qed

lemma tree_delete_wf:
  assumes wf: "tree_wf t"
  shows "tree_wf (fst (tree_delete t es ev))"
proof (cases "es = []")
  case False
  then have es: "es = butlast es @ [last es]" by simp
  show ?thesis
  proof (cases "t es")
    case (Some n)
    then have "sn_Children n = [] \<Longrightarrow> tree_wf (tree_remove (butlast es) (last es) t)"
      using tree_remove_wf [OF wf] childless_if_no_children [OF wf] es by metis
    with Some wf False show ?thesis by (simp add: tree_delete_def)
  qed (use wf False in \<open>simp add: tree_delete_def\<close>)
qed (use wf in \<open>simp add: tree_delete_def\<close>)

lemma Store_Delete_wf:
  assumes "store_wf s"
  shows "store_wf (fst (Store_Delete s p ev))"
proof -
  have "tree_wf (tree_of (fst (Store_Delete s p ev)))"
    using Store_Delete_refines(1) [OF assms, of p ev] assms by (auto intro: tree_delete_wf)
  moreover have "dom (s_nodes (fst (Store_Delete s p ev))) \<subseteq> dom (s_nodes s)"
    by (auto simp: Store_Delete_def Let_def split: option.splits if_splits)
  ultimately show ?thesis using assms by (auto simp: store_wf_iff intro: canonical_dom)
qed

section \<open>Expiry of a session\<close>

text \<open>
  The specification of \<open>DeleteEphemerals\<close>: a set of nodes disappears at once, and the nodes that
  stay no longer list them.
\<close>

definition prune :: "string list set \<Rightarrow> tree \<Rightarrow> tree" where
  "prune D t cs =
     (if cs \<in> D then None
      else map_option (\<lambda>n. n\<lparr>sn_Children := filter (\<lambda>c. cs @ [c] \<notin> D) (sn_Children n)\<rparr>) (t cs))"

definition owned_elems :: "string \<Rightarrow> tree \<Rightarrow> string list set" where
  "owned_elems sid t = {cs. \<exists>n. t cs = Some n \<and> owned_by sid n}"

lemma prune_empty [simp]: "prune {} t = t"
  by (auto simp: prune_def fun_eq_iff option.map_ident)

lemma prune_insert:
  assumes wf: "tree_wf t" and cs: "cs \<notin> D"
  shows "tree_remove cs c (prune D t) = prune (insert (cs @ [c]) D) t"
proof
  fix ds
  have flt: "filter (\<lambda>d. cs @ [d] \<noteq> cs @ [c] \<and> cs @ [d] \<notin> D) xs = remove_first (\<lambda>d. d = c) (filter (\<lambda>d. cs @ [d] \<notin> D) xs)"
    if "distinct xs" for xs :: "string list"
    using that by (simp add: remove_first_eq_remove1 distinct_remove1_removeAll removeAll_filter_not_eq conj_commute
        eq_commute [of c])
  show "tree_remove cs c (prune D t) ds = prune (insert (cs @ [c]) D) t ds"
  proof (cases "ds = cs")
    case True
    then show ?thesis using cs flt tree_wf_node [OF wf, of cs]
      by (cases "t cs") (simp_all add: tree_remove_def prune_def del_child_def)
  next
    case False
    then show ?thesis
      by (cases "t ds") (auto simp: tree_remove_def prune_def)
  qed
qed

text \<open>The nodes of a session are ephemeral, so none of them is the root and none has a child.\<close>

lemma owned_childless:
  assumes "tree_wf t" "cs \<in> owned_elems sid t"
  shows "cs \<noteq> []" "childless t cs" "butlast cs \<notin> owned_elems sid t"
proof -
  from assms(2) obtain n where n: "t cs = Some n" "sn_Ephemeral n"
    by (auto simp: owned_elems_def owned_by_def)
  show ne: "cs \<noteq> []" using tree_wf_root [OF assms(1)] n by auto
  show "childless t cs" unfolding childless_def
    using tree_wf_parent [OF assms(1), of cs] n by (metis option.exhaust option.inject)
  have "t (butlast cs @ [last cs]) = Some n" using ne n by simp
  from tree_wf_parent [OF assms(1) this] show "butlast cs \<notin> owned_elems sid t"
    by (auto simp: owned_elems_def owned_by_def)
qed

lemma prune_wf:
  assumes wf: "tree_wf t" and "finite D" "D \<subseteq> owned_elems sid t"
  shows "tree_wf (prune D t)"
  using assms(2,3)
proof (induction D rule: finite_induct)
  case (insert cs D)
  then have cs: "cs \<in> owned_elems sid t" and sub: "D \<subseteq> owned_elems sid t" by auto
  note o = owned_childless [OF wf cs]
  have e: "butlast cs @ [last cs] = cs" using o(1) by simp
  obtain n where n: "t cs = Some n" using cs by (auto simp: owned_elems_def)
  have "childless (prune D t) cs" using o(2) by (simp add: childless_def prune_def)
  moreover have "prune D t cs \<noteq> None" using n insert.hyps by (simp add: prune_def)
  ultimately have "tree_wf (tree_remove (butlast cs) (last cs) (prune D t))"
    using tree_remove_wf [OF insert.IH [OF sub], of "butlast cs" "last cs"] e by auto
  moreover have "butlast cs \<notin> D" using o(3) sub by blast
  ultimately show ?case using prune_insert [OF wf, of "butlast cs" D "last cs"] e by simp
qed (use wf in simp)

lemma delete_ephemeral_tree:
  assumes "list_all good_elem (cs @ [c])"
  shows "tree_of (s\<lparr>s_nodes := delete_ephemeral m (path_of (cs @ [c]))\<rparr>) =
         tree_remove cs c (tree_of (s\<lparr>s_nodes := m\<rparr>))"
proof -
  have good: "list_all good_elem cs" "good_elem c" using assms by auto
  have "delete_ephemeral m (path_of (cs @ [c])) =
      (upd_node (path_of cs) (del_child c) m)(path_of (cs @ [c]) := None)"
    using good by (simp add: delete_ephemeral_def parentPath_snoc baseName_snoc)
  then show ?thesis
    using tree_of_upd_node [OF good(1), where s = "s\<lparr>s_nodes := m\<rparr>" and f = "del_child c"]
      tree_of_upd [OF assms, where s = "s\<lparr>s_nodes := upd_node (path_of cs) (del_child c) m\<rparr>" and x = None]
    by (simp add: tree_remove_def)
qed

lemma delete_ephemerals_tree:
  assumes wf: "tree_wf t" and "tree_of (s\<lparr>s_nodes := m\<rparr>) = prune D t" and "D \<subseteq> owned_elems sid t"
    and "set ds \<subseteq> owned_elems sid t"
  shows "tree_of (s\<lparr>s_nodes := foldl delete_ephemeral m (map path_of ds)\<rparr>) = prune (set ds \<union> D) t"
  using assms(2-)
proof (induction ds arbitrary: m D)
  case (Cons d ds)
  then have d: "d \<in> owned_elems sid t" by simp
  note o = owned_childless [OF wf d]
  have e: "butlast d @ [last d] = d" using o(1) by simp
  have "list_all good_elem d" using d tree_wf_node [OF wf] by (auto simp: owned_elems_def)
  moreover have "butlast d \<notin> D" using o(3) Cons.prems(2) by blast
  ultimately have "tree_of (s\<lparr>s_nodes := delete_ephemeral m (path_of d)\<rparr>) = prune (insert d D) t"
    using delete_ephemeral_tree [where cs = "butlast d" and c = "last d" and s = s and m = m] prune_insert [OF wf, of "butlast d" D "last d"]
      Cons.prems(1) e by simp
  from Cons.IH [OF this] Cons.prems d show ?case by (simp add: Un_commute)
qed simp

lemma map_preimage: "set xs \<subseteq> f ` D \<Longrightarrow> \<exists>ds. xs = map f ds \<and> set ds \<subseteq> D"
proof (induction xs)
  case (Cons x xs)
  then obtain d ds where "x = f d" "d \<in> D" "xs = map f ds" "set ds \<subseteq> D" by auto
  then show ?case by (intro exI [of _ "d # ds"]) simp
qed simp

lemma ephemerals_of_set:
  assumes "key_order (s_nodes s) keys"
  shows "set (ephemerals_of keys s sid) = {p. \<exists>n. s_nodes s p = Some n \<and> owned_by sid n}"
  using assms by (auto simp: ephemerals_of_def key_order_def dom_def split: option.splits)

theorem Store_DeleteEphemerals_tree:
  assumes wf: "store_wf s" and keys: "key_order (s_nodes s) keys"
  shows "tree_of (fst (Store_DeleteEphemerals keys s sid)) = prune (owned_elems sid (tree_of s)) (tree_of s)"
    and "set (snd (snd (Store_DeleteEphemerals keys s sid))) = path_of ` owned_elems sid (tree_of s)"
proof -
  let ?D = "owned_elems sid (tree_of s)"
  have "set (ephemerals_of keys s sid) = path_of ` ?D"
    using store_wf_canonical [OF wf]
    by (auto simp: ephemerals_of_set [OF keys] owned_elems_def tree_of_def split: if_splits) blast
  moreover from this obtain ds where ds: "ephemerals_of keys s sid = map path_of ds" "set ds \<subseteq> ?D"
    using map_preimage [of "ephemerals_of keys s sid" path_of ?D] by auto
  ultimately have img: "path_of ` set ds = path_of ` ?D" by simp
  have "set ds = ?D"
  proof
    show "?D \<subseteq> set ds"
    proof
      fix cs assume cs: "cs \<in> ?D"
      then obtain ds' where "ds' \<in> set ds" "path_of ds' = path_of cs" using img by (metis image_iff)
      moreover have "list_all good_elem cs" "list_all good_elem ds'"
        using cs \<open>ds' \<in> set ds\<close> ds(2) tree_wf_node [OF store_wf_tree [OF wf]] by (auto simp: owned_elems_def)
      ultimately show "cs \<in> set ds" by (simp add: path_of_inject)
    qed
  qed (rule ds)
  moreover have "tree_of (s\<lparr>s_nodes := foldl delete_ephemeral (s_nodes s) (map path_of ds)\<rparr>)
      = prune (set ds \<union> {}) (tree_of s)"
    by (rule delete_ephemerals_tree [OF store_wf_tree [OF wf] _ _ ds(2)]) auto
  ultimately show "tree_of (fst (Store_DeleteEphemerals keys s sid)) = prune ?D (tree_of s)"
    by (simp add: Store_DeleteEphemerals_def Let_def ds(1))
  show "set (snd (snd (Store_DeleteEphemerals keys s sid))) = path_of ` ?D"
    using \<open>set (ephemerals_of keys s sid) = path_of ` ?D\<close> by (simp add: Store_DeleteEphemerals_def Let_def)
qed

lemma delete_ephemeral_dom: "dom (delete_ephemeral m p) \<subseteq> dom m"
  by (auto simp: delete_ephemeral_def Let_def upd_node_def split: if_splits option.splits)

lemma delete_ephemerals_dom: "dom (foldl delete_ephemeral m ps) \<subseteq> dom m"
  by (induction ps arbitrary: m) (simp, metis delete_ephemeral_dom foldl_Cons order_trans)

theorem Store_DeleteEphemerals_wf:
  assumes wf: "store_wf s" and keys: "key_order (s_nodes s) keys"
  shows "store_wf (fst (Store_DeleteEphemerals keys s sid))"
proof -
  let ?D = "owned_elems sid (tree_of s)"
  have "?D \<subseteq> dom (tree_of s)" by (auto simp: owned_elems_def)
  then have "finite ?D" using wf by (meson finite_subset store_wf_tree tree_wf_def)
  then have "tree_wf (tree_of (fst (Store_DeleteEphemerals keys s sid)))"
    using Store_DeleteEphemerals_tree(1) [OF wf keys] prune_wf [OF store_wf_tree [OF wf]] by auto
  moreover have "dom (s_nodes (fst (Store_DeleteEphemerals keys s sid))) \<subseteq> dom (s_nodes s)"
    by (simp add: Store_DeleteEphemerals_def Let_def delete_ephemerals_dom)
  ultimately show ?thesis using wf by (auto simp: store_wf_iff intro: canonical_dom)
qed

end
