(* ===== verification/StoreProperties.thy ===== *)
theory StoreProperties
  imports StoreTree
begin

text \<open>
  What the store promises to its users, over the operations of \<open>internal/store/store.go\<close>.
\<close>

section \<open>Histories of a store\<close>

text \<open>Every state a store can get into: any operation with any arguments, any number of times.\<close>

inductive store_step :: "'h Store \<Rightarrow> 'h Store \<Rightarrow> bool" where
  create: "store_step s (fst (Store_Create s t1 t2 p data eph sid seqn))"
| set: "store_step s (fst (Store_Set s now p data ev))"
| delete: "store_step s (fst (Store_Delete s p ev))"
| expire: "key_order (s_nodes s) keys \<Longrightarrow> store_step s (fst (Store_DeleteEphemerals keys s sid))"
| callbacks: "store_step s (SetWatchCallbacks c u d s)"

definition store_initial :: "'h Store \<Rightarrow> bool" where
  "store_initial s \<longleftrightarrow> (\<exists>t1 t2. s = NewStore t1 t2)"

lemma store_step_wf: "store_step s s' \<Longrightarrow> store_wf s \<Longrightarrow> store_wf s'"
proof (induction rule: store_step.induct)
  case (callbacks s c u d)
  moreover have "tree_of (SetWatchCallbacks c u d s) = tree_of s" by (rule tree_of_cong) (simp add: SetWatchCallbacks_def)
  ultimately show ?case by (simp add: store_wf_iff SetWatchCallbacks_def)
qed (simp_all add: Store_Create_wf Store_Set_wf Store_Delete_wf Store_DeleteEphemerals_wf)

interpretation stores: transition_system store_initial store_step store_wf
proof
  show "store_initial s \<Longrightarrow> store_wf s" for s :: "'h Store" by (auto simp: store_initial_def store_wf_NewStore)
  show "store_wf s \<Longrightarrow> store_step s t \<Longrightarrow> store_wf t" for s t :: "'h Store" by (rule store_step_wf)
qed

lemma Store_Delete_no_panic: "store_wf s \<Longrightarrow> snd (snd (Store_Delete s p ev)) \<noteq> Inl PanicNilParent"
  by (simp add: Store_Delete_refines tree_delete_def split: option.split)

text \<open>
  C9. In every state that a store can reach, the nodes form a tree: finitely many, with a root that
  is not ephemeral, every other node below an existing node that is not ephemeral, child lists
  without duplicates that name existing nodes, and every node stored under its own clean path. In
  particular \<open>Delete\<close> never dereferences a missing parent.
\<close>

theorem store_invariant:
  assumes "reachable store_initial store_step s"
  shows "tree_wf (tree_of s) \<and> canonical (s_nodes s) \<and> snd (snd (Store_Delete s p ev)) \<noteq> Inl PanicNilParent"
  using stores.reachable_invar [OF assms] Store_Delete_no_panic [of s p ev] by (simp add: store_wf_iff)

lemma reach_create:
  "reachable store_initial store_step s
     \<Longrightarrow> reachable store_initial store_step (fst (Store_Create s t1 t2 p data eph sid seqn))"
  by (erule reach_step) (rule store_step.create)

definition example_store :: "unit Store" where
  "example_store = fst (Store_Create (fst (Store_Create (NewStore 0 0) 0 0 ''/locks'' '''' False '''' False))
                          0 0 ''/locks/a'' ''x'' True ''s1'' True)"

lemma example_store_reachable: "reachable store_initial store_step example_store"
  unfolding example_store_def
  by (intro reach_create reach_init) (auto simp: store_initial_def)

theorem store_invariant_witness:
  "tree_wf (tree_of example_store) \<and> tree_of example_store [''locks'', ''a0000000001''] \<noteq> None \<and>
   snd (snd (Store_Delete example_store ''/locks'' (- 1))) \<noteq> Inl PanicNilParent"
proof -
  have "tree_of example_store [''locks'', ''a0000000001''] \<noteq> None" by code_simp
  with store_invariant [OF example_store_reachable, of "''/locks''" "- 1"] show ?thesis by blast
qed

section \<open>The specification\<close>

text \<open>
  C5. The store implements the tree specification: a store and the tree it stands for run in step.
  \<open>Get\<close> and \<open>Exists\<close> look the node up by the elements of the path; \<open>Create\<close>, \<open>Set\<close> and \<open>Delete\<close>
  change the tree and answer exactly as \<open>tree_create\<close>, \<open>tree_set\<close> and \<open>tree_delete\<close>, errors
  included; the expiry of a session prunes exactly the nodes that the session owns.
\<close>

theorem store_refines_tree:
  assumes "reachable store_initial store_step s"
  shows "Store_Get s p = (case tree_of s (path_elems p) of None \<Rightarrow> Inl ErrNodeNotFound | Some n \<Rightarrow> Inr n) \<and>
    Store_Exists s p = (tree_of s (path_elems p) \<noteq> None) \<and>
    store_abs (Store_Create s t1 t2 p data eph sid seqn) =
      (case tree_create (tree_of s) (s_seqCounter s) (path_elems p) (new_node data eph sid seqn t1 t2) seqn of
         (t', ctr', r) \<Rightarrow> (t', ctr', map_sum id path_of r)) \<and>
    (tree_of (fst (Store_Set s t1 p data ev)), snd (snd (Store_Set s t1 p data ev)))
      = tree_set (tree_of s) (path_elems p) t1 data ev \<and>
    (tree_of (fst (Store_Delete s p ev)), snd (snd (Store_Delete s p ev))) = tree_delete (tree_of s) (path_elems p) ev \<and>
    (key_order (s_nodes s) keys \<longrightarrow>
       tree_of (fst (Store_DeleteEphemerals keys s sid)) = prune (owned_elems sid (tree_of s)) (tree_of s))"
  using stores.reachable_invar [OF assms]
  by (simp add: Store_Create_refines Store_Set_refines Store_Delete_refines Store_DeleteEphemerals_tree(1)
      store_simps)

theorem store_refines_tree_witness:
  "snd (snd (Store_Delete example_store ''/locks'' (- 1))) = Inl ErrNotEmpty \<and>
   snd (tree_delete (tree_of example_store) [''locks''] (- 1)) = Inl ErrNotEmpty"
proof -
  have "(tree_of (fst (Store_Delete example_store ''/locks'' (- 1))), snd (snd (Store_Delete example_store ''/locks'' (- 1))))
      = tree_delete (tree_of example_store) (path_elems ''/locks'') (- 1)"
    using store_refines_tree [OF example_store_reachable, of "''/locks''" 0 0 "''''" False "''''" False "- 1" "[]"] by blast
  moreover have "path_elems ''/locks'' = [''locks'']" "snd (snd (Store_Delete example_store ''/locks'' (- 1))) = Inl ErrNotEmpty"
    by code_simp+
  ultimately show ?thesis by (metis snd_conv)
qed

section \<open>Creating and reading\<close>

lemma Store_Create_ok:
  assumes "Store_Create s t1 t2 p data eph sid seqn = (s', ev, Inr q)"
  defines "es \<equiv> path_elems p"
  defines "es' \<equiv> seq_elems seqn s es"
  defines "n \<equiv> new_node data eph sid seqn t1 t2 es' (s_seqCounter (seq_store seqn s))"
  shows "q = path_of es'" "tree_of s es' = None" "list_all good_elem es'"
    "tree_of s' = (if es = [] then (tree_of s)(es' \<mapsto> n) else tree_insert (butlast es) (last es') n (tree_of s))"
    "s_seqCounter s' = s_seqCounter s + (if seqn then 1 else 0)"
    "es \<noteq> [] \<Longrightarrow> \<exists>m. tree_of s (butlast es) = Some m \<and> \<not> sn_Ephemeral m"
proof -
  note c = Store_Create_elems [OF refl, where p = p and s = s and ?t1.0 = t1 and ?t2.0 = t2 and data = data and eph = eph
    and sid = sid and seqn = seqn] and
    tree = Store_Create_tree [OF refl refl, where p = p and s = "seq_store seqn s" and seqn = seqn and s0 = s and n = n]
  show "list_all good_elem es'" by (simp add: es'_def es_def seq_elems_good)
  show "q = path_of es'" "tree_of s es' = None"
    using assms(1) by (auto simp: c es'_def es_def split: if_splits)
  show "es \<noteq> [] \<Longrightarrow> \<exists>m. tree_of s (butlast es) = Some m \<and> \<not> sn_Ephemeral m"
    using assms(1) by (auto simp: c es_def split: if_splits)
  show "s_seqCounter s' = s_seqCounter s + (if seqn then 1 else 0)"
    using assms(1) by (auto simp: c seq_store_def split: if_splits)
  have "s' = (seq_store seqn s)\<lparr>s_nodes := (if es = [] then (s_nodes s)(path_of es' \<mapsto> n)
      else upd_node (path_of (butlast es)) (add_child (last es')) ((s_nodes s)(path_of es' \<mapsto> n)))\<rparr>"
    using assms(1) by (auto simp: c es'_def es_def n_def split: if_splits)
  with tree show "tree_of s' = (if es = [] then (tree_of s)(es' \<mapsto> n) else tree_insert (butlast es) (last es') n (tree_of s))"
    by (auto simp: es_def es'_def seq_elems_butlast)
qed

lemma seq_path: "path_of (seq_elems seqn s (path_elems p)) =
    normalizePath p @ (if seqn then formatSequence (s_seqCounter s + 1) else '''')"
  by (cases seqn) (simp_all add: seq_elems_def normalizePath_eq path_of_extend_last)

text \<open>
  C26. What \<open>Create\<close> stores, \<open>Get\<close> returns: after a successful \<open>Create\<close> the returned path, the
  normalised path followed by the zero-padded sequence number for a sequential node, was free
  before and now holds a node of version 1 with the given data, owner and flags and no children.
  Every node is as it was except the parent, which has one more child name.
\<close>

theorem create_get:
  assumes "Store_Create s t1 t2 p data eph sid seqn = (s', ev, Inr q)"
  shows "q = normalizePath p @ (if seqn then formatSequence (s_seqCounter s + 1) else '''') \<and>
    Store_Get s q = Inl ErrNodeNotFound \<and>
    Store_Get s' q = Inr \<lparr>sn_Path = q, sn_Data = data, sn_Version = 1, sn_Ephemeral = eph, sn_SessionID = sid,
      sn_Sequential = seqn, sn_Sequence = s_seqCounter s + (if seqn then 1 else 0), sn_Children = [],
      sn_CreateTime = t1, sn_ModifyTime = t2\<rparr> \<and>
    (\<forall>x. path_elems x \<noteq> path_elems q \<longrightarrow>
       Store_Get s' x =
         (if path_elems p \<noteq> [] \<and> path_elems x = butlast (path_elems p)
          then map_sum id (add_child (last (path_elems q))) (Store_Get s x) else Store_Get s x))"
proof -
  let ?es = "path_elems p" and ?es' = "seq_elems seqn s (path_elems p)"
  note ok = Store_Create_ok [OF assms]
  have q: "path_elems q = ?es'" using ok(1,3) by simp
  have ne: "?es \<noteq> [] \<Longrightarrow> butlast ?es @ [last ?es'] = ?es'"
    by (metis append_butlast_last_id butlast.simps(1) ok(3) seq_elems_butlast seq_elems_def extend_neq_Nil)
  show ?thesis
  proof (intro conjI allI impI)
    show "q = normalizePath p @ (if seqn then formatSequence (s_seqCounter s + 1) else '''')"
      using ok(1) seq_path [of seqn s p] by simp
    show "Store_Get s q = Inl ErrNodeNotFound" using ok(2) q by (simp add: store_simps)
    show "Store_Get s' q = Inr \<lparr>sn_Path = q, sn_Data = data, sn_Version = 1, sn_Ephemeral = eph, sn_SessionID = sid,
      sn_Sequential = seqn, sn_Sequence = s_seqCounter s + (if seqn then 1 else 0), sn_Children = [],
      sn_CreateTime = t1, sn_ModifyTime = t2\<rparr>"
      using ok(1,4) q ne by (auto simp: store_simps tree_insert_def new_node_def seq_store_def)
  next
    fix x assume x: "path_elems x \<noteq> path_elems q"
    show "Store_Get s' x =
         (if ?es \<noteq> [] \<and> path_elems x = butlast ?es
          then map_sum id (add_child (last (path_elems q))) (Store_Get s x) else Store_Get s x)"
      using ok(4) x q ne by (auto simp: store_simps tree_insert_def split: option.split)
  qed
qed

theorem create_get_witness:
  "\<exists>s' ev. Store_Create example_store 3 4 ''locks/b'' ''y'' True ''s2'' True = (s', ev, Inr ''/locks/b0000000002'') \<and>
     Store_Get example_store ''/locks/b0000000002'' = Inl ErrNodeNotFound \<and>
     Store_Get s' ''/locks/b0000000002'' = Inr \<lparr>sn_Path = ''/locks/b0000000002'', sn_Data = ''y'', sn_Version = 1,
       sn_Ephemeral = True, sn_SessionID = ''s2'', sn_Sequential = True, sn_Sequence = 2, sn_Children = [],
       sn_CreateTime = 3, sn_ModifyTime = 4\<rparr>"
proof -
  let ?r = "Store_Create example_store 3 4 ''locks/b'' ''y'' True ''s2'' True"
  have r: "snd (snd ?r) = Inr ''/locks/b0000000002''" "s_seqCounter example_store = 1" by code_simp+
  then obtain s' ev where e: "?r = (s', ev, Inr ''/locks/b0000000002'')" by (metis prod.collapse)
  from create_get [OF e, THEN conjunct2] show ?thesis using e r(2) by auto
qed

section \<open>Sequential names\<close>

lemma append_less [simp]: "xs @ ys < xs @ zs \<longleftrightarrow> ys < (zs :: string)"
  by (induction xs) auto

text \<open>
  Sequential nodes sort in the order of their creation: of two sequential nodes created under
  the same path, the one created later has the larger name in the byte-wise string order, as long
  as the sequence counter has at most ten digits and has not wrapped around in between.
\<close>

lemma sequential_order:
  assumes "Store_Create s t1 t2 p d1 e1 i1 True = (s1, ev1, Inr q1)"
    and "s_seqCounter s1 \<le> s_seqCounter s2"
    and "Store_Create s2 t3 t4 p d2 e2 i2 True = (s3, ev2, Inr q2)" and "unat (s_seqCounter s2) + 1 < 10 ^ 10"
  shows "q1 < q2"
proof -
  let ?a = "s_seqCounter s1" and ?b = "s_seqCounter s3"
  have a: "q1 = normalizePath p @ formatSequence ?a"
    using Store_Create_ok(1,5) [OF assms(1)] seq_path [of True s p] by simp
  have b: "q2 = normalizePath p @ formatSequence ?b" "?b = s_seqCounter s2 + 1"
    using Store_Create_ok(1,5) [OF assms(3)] seq_path [of True s2 p] by simp_all
  have u: "unat ?b = unat (s_seqCounter s2) + 1" using assms(4) b(2) by (simp add: u64_Suc)
  then have "?a < ?b" "unat ?a < 10 ^ 10" "unat ?b < 10 ^ 10"
    using assms(2,4) by (simp_all add: word_less_nat_alt word_le_nat_alt)
  then show ?thesis by (simp add: a b(1) formatSequence_order)
qed

lemma sequential_order_example:
  "\<exists>s1 ev1 s3 ev2. Store_Create example_store 0 0 ''/locks/l-'' '''' True ''s1'' True = (s1, ev1, Inr ''/locks/l-0000000002'') \<and>
     Store_Create s1 0 0 ''/locks/l-'' '''' True ''s2'' True = (s3, ev2, Inr ''/locks/l-0000000003'') \<and>
     ''/locks/l-0000000002'' < ''/locks/l-0000000003''"
proof -
  let ?c = "\<lambda>s i. Store_Create s 0 0 ''/locks/l-'' '''' True i True"
  let ?s1 = "fst (?c example_store ''s1'')"
  have r: "snd (snd (?c example_store ''s1'')) = Inr ''/locks/l-0000000002''"
    "snd (snd (?c ?s1 ''s2'')) = Inr ''/locks/l-0000000003''" "s_seqCounter ?s1 = 2" by code_simp+
  obtain ev1 where e1: "?c example_store ''s1'' = (?s1, ev1, Inr ''/locks/l-0000000002'')" using r(1) by (metis prod.collapse)
  obtain s3 ev2 where e2: "?c ?s1 ''s2'' = (s3, ev2, Inr ''/locks/l-0000000003'')" using r(2) by (metis prod.collapse)
  from sequential_order [OF e1 order_refl e2] r(3) have "''/locks/l-0000000002'' < ''/locks/l-0000000003''" by simp
  with e1 e2 show ?thesis by blast
qed

section \<open>Compare and set\<close>

text \<open>
  C27. Of two writers that expect the same version the second one loses: once a \<open>Set\<close> with an
  expected version has succeeded, another \<open>Set\<close> or \<open>Delete\<close> of the node that expects that version
  reports a mismatch and changes nothing.
\<close>

theorem first_writer_wins:
  assumes "0 \<le> v" and "Store_Set s now p data v = (s1, ev, Inr n)"
  shows "Store_Set s1 now' p data' v = (s1, [], Inl ErrVersionMismatch) \<and>
    (normalizePath p \<noteq> ''/'' \<longrightarrow> Store_Delete s1 p v = (s1, [], Inl ErrVersionMismatch)) \<and>
    sn_Version n = word_of_int v + 1 \<and> sn_Data n = data \<and> Store_Get s1 p = Inr n"
proof -
  obtain m where m: "s_nodes s (normalizePath p) = Some m" "version_ok v m"
    "n = m\<lparr>sn_Data := data, sn_Version := sn_Version m + 1, sn_ModifyTime := now\<rparr>"
    "s1 = s\<lparr>s_nodes := (s_nodes s)(normalizePath p \<mapsto> n)\<rparr>"
    using assms(2) by (auto simp: Store_Set_def Let_def split: option.splits if_splits)
  have v: "sn_Version m = word_of_int v" using m(2) assms(1) by (simp add: version_ok_def)
  then have "\<not> version_ok v n" using m(3) assms(1) by (simp add: version_ok_def)
  then show ?thesis using m v by (simp add: Store_Set_def Store_Delete_def Store_Get_def Let_def)
qed

theorem first_writer_wins_witness:
  "\<exists>s1 ev n. Store_Set example_store 5 ''/locks'' ''v'' 1 = (s1, ev, Inr n) \<and>
     Store_Set s1 6 ''/locks'' ''w'' 1 = (s1, [], Inl ErrVersionMismatch) \<and> sn_Version n = 2"
proof -
  have "map_sum id sn_Version (snd (snd (Store_Set example_store 5 ''/locks'' ''v'' 1))) = Inr 2" by code_simp
  then obtain n where "snd (snd (Store_Set example_store 5 ''/locks'' ''v'' 1)) = Inr n" "sn_Version n = 2"
    by (cases "snd (snd (Store_Set example_store 5 ''/locks'' ''v'' 1))") auto
  then obtain s1 ev where e: "Store_Set example_store 5 ''/locks'' ''v'' 1 = (s1, ev, Inr n)" "sn_Version n = 2"
    by (metis prod.collapse)
  from first_writer_wins [OF _ e(1)] e show ?thesis by auto
qed

section \<open>Expiry\<close>

lemma nodes_eqI:
  assumes "store_wf s" "store_wf s'" "tree_of s = tree_of s'"
  shows "s_nodes s = s_nodes s'"
proof
  fix p
  show "s_nodes s p = s_nodes s' p"
  proof (cases "\<exists>cs. list_all good_elem cs \<and> p = path_of cs")
    case True
    then show ?thesis using assms(3) by (metis nodes_path_of)
  next
    case False
    then show ?thesis using store_wf_canonical [OF assms(1)] store_wf_canonical [OF assms(2)]
      by (metis not_None_eq)
  qed
qed

text \<open>
  C17. The expiry of a session removes the session's ephemeral nodes and nothing else. The returned
  paths are exactly the paths of these nodes; a node that stays keeps everything but the names of
  the children that went; and the result does not depend on the order in which the walk over the
  map finds the nodes.
\<close>

theorem expiry_exact:
  fixes sid :: string
  assumes "reachable store_initial store_step s" and "key_order (s_nodes s) keys" "key_order (s_nodes s) keys'"
  defines "s' \<equiv> fst (Store_DeleteEphemerals keys s sid)"
  shows "set (snd (snd (Store_DeleteEphemerals keys s sid))) = {p. \<exists>n. s_nodes s p = Some n \<and> owned_by sid n} \<and>
    (\<forall>p. Store_Get s' p =
      (case Store_Get s p of
         Inl e \<Rightarrow> Inl e
       | Inr n \<Rightarrow> if owned_by sid n then Inl ErrNodeNotFound
                  else Inr (n\<lparr>sn_Children := filter (\<lambda>c. path_elems p @ [c] \<notin> owned_elems sid (tree_of s)) (sn_Children n)\<rparr>))) \<and>
    fst (Store_DeleteEphemerals keys' s sid) = s'"
proof (intro conjI allI)
  have wf: "store_wf s" by (rule stores.reachable_invar [OF assms(1)])
  show "set (snd (snd (Store_DeleteEphemerals keys s sid))) = {p. \<exists>n. s_nodes s p = Some n \<and> owned_by sid n}"
    by (simp add: Store_DeleteEphemerals_def Let_def ephemerals_of_set [OF assms(2)])
  have t: "tree_of s' = prune (owned_elems sid (tree_of s)) (tree_of s)"
    unfolding s'_def by (rule Store_DeleteEphemerals_tree(1) [OF wf assms(2)])
  show "Store_Get s' p =
      (case Store_Get s p of
         Inl e \<Rightarrow> Inl e
       | Inr n \<Rightarrow> if owned_by sid n then Inl ErrNodeNotFound
                  else Inr (n\<lparr>sn_Children := filter (\<lambda>c. path_elems p @ [c] \<notin> owned_elems sid (tree_of s)) (sn_Children n)\<rparr>))" for p
    by (cases "tree_of s (path_elems p)") (auto simp: store_simps t prune_def owned_elems_def)
  have "tree_of (fst (Store_DeleteEphemerals keys' s sid)) = tree_of s'"
    unfolding t by (rule Store_DeleteEphemerals_tree(1) [OF wf assms(3)])
  with nodes_eqI Store_DeleteEphemerals_wf [OF wf assms(2)] Store_DeleteEphemerals_wf [OF wf assms(3)]
  have "s_nodes (fst (Store_DeleteEphemerals keys' s sid)) = s_nodes s'" unfolding s'_def by blast
  then show "fst (Store_DeleteEphemerals keys' s sid) = s'"
    unfolding s'_def by (simp add: Store_DeleteEphemerals_def Let_def)
qed

lemma Store_Create_dom:
  "Store_Create s t1 t2 p data eph sid seqn = (s', ev, Inr q) \<Longrightarrow> dom (s_nodes s') = insert q (dom (s_nodes s))"
  by (cases "path_elems p = []") (clarsimp simp: Store_Create_elems [OF refl] split: if_splits)+

lemma example_store_keys:
  "key_order (s_nodes example_store) [''/'', ''/locks'', ''/locks/a0000000001'']"
  "key_order (s_nodes example_store) [''/locks/a0000000001'', ''/'', ''/locks'']"
proof -
  have "dom (s_nodes example_store) = {''/'', ''/locks'', ''/locks/a0000000001''}"
  proof -
    let ?s0 = "NewStore 0 0 :: unit Store"
    let ?c0 = "Store_Create ?s0 0 0 ''/locks'' '''' False '''' False"
    let ?c1 = "Store_Create (fst ?c0) 0 0 ''/locks/a'' ''x'' True ''s1'' True"
    have r: "snd (snd ?c0) = Inr ''/locks''" "snd (snd ?c1) = Inr ''/locks/a0000000001''" by code_simp+
    have e: "?c0 = (fst ?c0, fst (snd ?c0), Inr ''/locks'')" "?c1 = (example_store, fst (snd ?c1), Inr ''/locks/a0000000001'')"
      using r by (simp_all add: example_store_def prod_eq_iff)
    have "dom (s_nodes ?s0) = {''/''}" by (auto simp: NewStore_def)
    then show ?thesis using Store_Create_dom [OF e(1)] Store_Create_dom [OF e(2)] by auto
  qed
  then show "key_order (s_nodes example_store) [''/'', ''/locks'', ''/locks/a0000000001'']"
    "key_order (s_nodes example_store) [''/locks/a0000000001'', ''/'', ''/locks'']"
    by (auto simp: key_order_def)
qed

theorem expiry_exact_witness:
  "set (snd (snd (Store_DeleteEphemerals [''/'', ''/locks'', ''/locks/a0000000001''] example_store ''s1''))) = {''/locks/a0000000001''} \<and>
   fst (Store_DeleteEphemerals [''/locks/a0000000001'', ''/'', ''/locks''] example_store ''s1'')
     = fst (Store_DeleteEphemerals [''/'', ''/locks'', ''/locks/a0000000001''] example_store ''s1'')"
proof -
  have "snd (snd (Store_DeleteEphemerals [''/'', ''/locks'', ''/locks/a0000000001''] example_store ''s1'')) = [''/locks/a0000000001'']"
    by code_simp
  with expiry_exact [OF example_store_reachable example_store_keys, of "''s1''"] show ?thesis by simp
qed

section \<open>Listing children\<close>

text \<open>
  \<open>GetChildren\<close> of a node other than the root lists, in sorted order and without duplicates,
  exactly the names under which nodes exist below it.
\<close>

lemma children_complete:
  assumes "reachable store_initial store_step s" and "Store_GetChildren s p = Inr cs" and "path_elems p \<noteq> []"
  shows "sorted cs \<and> distinct cs \<and> set cs = {c. good_elem c \<and> Store_Exists s (path_of (path_elems p @ [c]))}"
proof -
  have wf: "tree_wf (tree_of s)" using stores.reachable_invar [OF assms(1)] by blast
  obtain n where n: "tree_of s (path_elems p) = Some n" "cs = sort_Strings (sn_Children n)"
    using assms(2) by (auto simp: store_simps split: option.splits)
  have ex: "Store_Exists s (path_of (path_elems p @ [c])) \<longleftrightarrow> tree_of s (path_elems p @ [c]) \<noteq> None" if "good_elem c" for c
    using that by (simp add: Store_Exists_def nodes_path_of)
  have "c \<in> set (sn_Children n) \<longleftrightarrow> good_elem c \<and> tree_of s (path_elems p @ [c]) \<noteq> None" for c
  proof
    assume "c \<in> set (sn_Children n)"
    then obtain m where "tree_of s (path_elems p @ [c]) = Some m" using tree_wf_child [OF wf n(1)] by blast
    with tree_wf_node [OF wf this] show "good_elem c \<and> tree_of s (path_elems p @ [c]) \<noteq> None" by simp
  next
    assume "good_elem c \<and> tree_of s (path_elems p @ [c]) \<noteq> None"
    then obtain m where "tree_of s (path_elems p @ [c]) = Some m" by blast
    from tree_wf_parent [OF wf this] n(1) assms(3) show "c \<in> set (sn_Children n)" by simp
  qed
  then show ?thesis using n ex tree_wf_node [OF wf n(1)] by auto
qed

lemma children_complete_example:
  "Store_GetChildren example_store ''/locks'' = Inr [''a0000000001''] \<and>
   {c. good_elem c \<and> Store_Exists example_store (path_of ([''locks''] @ [c]))} = {''a0000000001''}"
proof -
  have e: "Store_GetChildren example_store ''/locks'' = Inr [''a0000000001'']" "path_elems ''/locks'' = [''locks'']"
    by code_simp+
  with children_complete [OF example_store_reachable e(1)] show ?thesis by simp
qed

text \<open>
  The root is the exception: a sequential node created at the root path exists but is not
  listed among the root's children, because the parent of the requested path, not of the path that
  was created, gets the new child.
\<close>

lemma root_sequential_unlisted:
  "\<exists>s' ev. Store_Create (NewStore 0 0 :: unit Store) 0 0 ''/'' ''x'' False '''' True = (s', ev, Inr ''/0000000001'') \<and>
     Store_Exists s' ''/0000000001'' \<and> Store_GetChildren s' ''/'' = Inr []"
proof -
  let ?r = "Store_Create (NewStore 0 0 :: unit Store) 0 0 ''/'' ''x'' False '''' True"
  have "snd (snd ?r) = Inr ''/0000000001''" "Store_Exists (fst ?r) ''/0000000001''" "Store_GetChildren (fst ?r) ''/'' = Inr []"
    by code_simp+
  then show ?thesis by (metis prod.collapse)
qed

end
