(* ===== verification/Sessions.thy ===== *)
theory Sessions
  imports GoLib
begin

text \<open>
  Client sessions, \<open>internal/session/manager.go\<close>: the session table with its time-to-live rules,
  the expiry check, the loops and the client-side heartbeat.

  Every operation runs under the manager's mutex and is a function of the whole manager. The
  expiry callback is an opaque value of type \<open>'h\<close>; an operation returns the calls it makes
  (\<open>CallExpire\<close>, in \<open>Close\<close>) or starts (\<open>GoExpire\<close>, in the expiry check). Clock readings, fresh
  identifiers and the order of a walk over the table are arguments; \<open>None\<close> is a panic.
\<close>

section \<open>Sessions and the manager\<close>

record Session =
  ss_ID :: string
  ss_ClientID :: string
  ss_CreatedAt :: instant
  ss_LastHeartbeat :: instant
  ss_TTL :: duration
  ss_EphemeralKeys :: "string list"

definition IsExpired :: "instant \<Rightarrow> Session \<Rightarrow> bool" where
  [session_simps]: "IsExpired now s \<longleftrightarrow> time_Since now (ss_LastHeartbeat s) > ss_TTL s"

record 'h SessionManager =
  sm_sessions :: "string \<rightharpoonup> Session"
  sm_defaultTTL :: duration
  sm_maxTTL :: duration
  sm_onExpire :: "'h option"
  sm_stopped :: bool

datatype 'h expiry = CallExpire 'h Session | GoExpire 'h Session

definition NewSessionManager :: "duration \<Rightarrow> duration \<Rightarrow> 'h SessionManager" where
  "NewSessionManager d mx =
     \<lparr>sm_sessions = Map.empty, sm_defaultTTL = d, sm_maxTTL = mx, sm_onExpire = None, sm_stopped = False\<rparr>"

definition SetOnExpire :: "'h \<Rightarrow> 'h SessionManager \<Rightarrow> 'h SessionManager" where
  "SetOnExpire f m = m\<lparr>sm_onExpire := Some f\<rparr>"

text \<open>Closing a closed channel panics.\<close>

definition SessionManager_Stop :: "'h SessionManager \<Rightarrow> 'h SessionManager option" where
  "SessionManager_Stop m = (if sm_stopped m then None else Some (m\<lparr>sm_stopped := True\<rparr>))"

section \<open>Operations\<close>

definition clamp_ttl :: "'h SessionManager \<Rightarrow> duration \<Rightarrow> duration" where
  "clamp_ttl m ttl =
     (let ttl1 = (if ttl \<le> 0 then sm_defaultTTL m else ttl)
      in if ttl1 > sm_maxTTL m then sm_maxTTL m else ttl1)"

definition Session_Create ::
  "string \<Rightarrow> instant \<Rightarrow> instant \<Rightarrow> 'h SessionManager \<Rightarrow> string \<Rightarrow> duration \<Rightarrow> 'h SessionManager \<times> Session" where
  "Session_Create uuid t1 t2 m clientID ttl =
     (let session = \<lparr>ss_ID = uuid, ss_ClientID = clientID, ss_CreatedAt = t1, ss_LastHeartbeat = t2,
                     ss_TTL = clamp_ttl m ttl, ss_EphemeralKeys = []\<rparr>
      in (m\<lparr>sm_sessions := (sm_sessions m)(ss_ID session \<mapsto> session)\<rparr>, session))"

definition Session_Get :: "'h SessionManager \<Rightarrow> string \<Rightarrow> Session option" where
  "Session_Get m sessionID = sm_sessions m sessionID"

definition Session_Heartbeat ::
  "instant \<Rightarrow> instant \<Rightarrow> 'h SessionManager \<Rightarrow> string \<Rightarrow> 'h SessionManager \<times> bool" where
  "Session_Heartbeat now now' m sessionID =
     (case sm_sessions m sessionID of
        None \<Rightarrow> (m, False)
      | Some session \<Rightarrow>
          if IsExpired now session then (m\<lparr>sm_sessions := (sm_sessions m)(sessionID := None)\<rparr>, False)
          else (m\<lparr>sm_sessions := (sm_sessions m)(sessionID \<mapsto> session\<lparr>ss_LastHeartbeat := now'\<rparr>)\<rparr>, True))"

definition Session_Close :: "'h SessionManager \<Rightarrow> string \<Rightarrow> 'h SessionManager \<times> 'h expiry list \<times> bool" where
  "Session_Close m sessionID =
     (case sm_sessions m sessionID of
        None \<Rightarrow> (m, [], False)
      | Some session \<Rightarrow>
          (m\<lparr>sm_sessions := (sm_sessions m)(sessionID := None)\<rparr>,
           (case sm_onExpire m of None \<Rightarrow> [] | Some f \<Rightarrow> [CallExpire f session]), True))"

definition RegisterEphemeral :: "'h SessionManager \<Rightarrow> string \<Rightarrow> string \<Rightarrow> 'h SessionManager \<times> bool" where
  "RegisterEphemeral m sessionID key =
     (case sm_sessions m sessionID of
        None \<Rightarrow> (m, False)
      | Some session \<Rightarrow>
          (m\<lparr>sm_sessions := (sm_sessions m)
               (sessionID \<mapsto> session\<lparr>ss_EphemeralKeys := ss_EphemeralKeys session @ [key]\<rparr>)\<rparr>, True))"

definition UnregisterEphemeral :: "'h SessionManager \<Rightarrow> string \<Rightarrow> string \<Rightarrow> 'h SessionManager \<times> bool" where
  "UnregisterEphemeral m sessionID key =
     (case sm_sessions m sessionID of
        None \<Rightarrow> (m, False)
      | Some session \<Rightarrow>
          if key \<in> set (ss_EphemeralKeys session) then
            (m\<lparr>sm_sessions := (sm_sessions m)
                 (sessionID \<mapsto> session\<lparr>ss_EphemeralKeys := remove_first (\<lambda>k. k = key) (ss_EphemeralKeys session)\<rparr>)\<rparr>, True)
          else (m, False))"

text \<open>
  The check walks over the table; each session reads the clock anew, so the readings are a list.
  Deleting from a Go map while ranging over it is allowed.
\<close>

fun check_each ::
  "(string \<times> instant) list \<Rightarrow> 'h SessionManager \<Rightarrow> 'h SessionManager \<times> 'h expiry list" where
  "check_each [] m = (m, [])"
| "check_each ((sid, now) # ks) m =
     (case sm_sessions m sid of
        None \<Rightarrow> check_each ks m
      | Some session \<Rightarrow>
          if IsExpired now session then
            (let (m', calls) = check_each ks (m\<lparr>sm_sessions := (sm_sessions m)(sid := None)\<rparr>)
             in (m', (case sm_onExpire m of None \<Rightarrow> [] | Some f \<Rightarrow> [GoExpire f session]) @ calls))
          else check_each ks m)"

definition checkExpirations ::
  "(string \<times> instant) list \<Rightarrow> 'h SessionManager \<Rightarrow> 'h SessionManager \<times> 'h expiry list" where
  "checkExpirations walk m = check_each walk m"

definition SessionManager_Count :: "'h SessionManager \<Rightarrow> nat" where
  "SessionManager_Count m = card (dom (sm_sessions m))"

definition SessionManager_All :: "string list \<Rightarrow> 'h SessionManager \<Rightarrow> Session list" where
  "SessionManager_All keys m = map (\<lambda>k. the (sm_sessions m k)) keys"

text \<open>
  The expiry loop: the channel each \<open>select\<close> found ready, with the readings of the check it leads
  to. The loop ends with the stop channel; \<open>False\<close> says that it is still running.
\<close>

datatype loop_event = LoopStop | LoopTick "(string \<times> instant) list"

fun expirationLoop ::
  "loop_event list \<Rightarrow> 'h SessionManager \<Rightarrow> 'h SessionManager \<times> 'h expiry list \<times> bool" where
  "expirationLoop [] m = (m, [], False)"
| "expirationLoop (LoopStop # es) m = (m, [], True)"
| "expirationLoop (LoopTick walk # es) m =
     (let (m1, calls) = checkExpirations walk m; (m2, calls', d) = expirationLoop es m1
      in (m2, calls @ calls', d))"

text \<open>\<open>Start\<close> starts the loop in a goroutine.\<close>

definition SessionManager_Start :: "loop_event list \<Rightarrow> 'h SessionManager \<Rightarrow> 'h SessionManager \<times> 'h expiry list \<times> bool" where
  "SessionManager_Start es m = expirationLoop es m"

section \<open>The client-side heartbeat\<close>

record HeartbeatClient =
  hc_sessionID :: string
  hc_interval :: duration
  hc_stopped :: bool

definition NewHeartbeatClient :: "string \<Rightarrow> duration \<Rightarrow> HeartbeatClient" where
  "NewHeartbeatClient sid i = \<lparr>hc_sessionID = sid, hc_interval = i, hc_stopped = False\<rparr>"

definition HeartbeatClient_Stop :: "HeartbeatClient \<Rightarrow> HeartbeatClient option" where
  "HeartbeatClient_Stop h = (if hc_stopped h then None else Some (h\<lparr>hc_stopped := True\<rparr>))"

text \<open>
  The loop sends the session id with a time limit of one interval on every tick, whatever the
  outcome. \<open>time.NewTicker\<close> panics unless the interval is positive.
\<close>

datatype beat_event = BeatStop | BeatTick

fun beats :: "HeartbeatClient \<Rightarrow> beat_event list \<Rightarrow> (string \<times> duration) list" where
  "beats h [] = []"
| "beats h (BeatStop # es) = []"
| "beats h (BeatTick # es) = (hc_sessionID h, hc_interval h) # beats h es"

definition HeartbeatClient_run :: "HeartbeatClient \<Rightarrow> beat_event list \<Rightarrow> (string \<times> duration) list option" where
  "HeartbeatClient_run h es = (if hc_interval h \<le> 0 then None else Some (beats h es))"

definition HeartbeatClient_Start :: "HeartbeatClient \<Rightarrow> beat_event list \<Rightarrow> (string \<times> duration) list option" where
  "HeartbeatClient_Start h es = HeartbeatClient_run h es"

section \<open>The check as a filter\<close>

lemma check_each_frame:
  "sm_onExpire (fst (check_each ks m)) = sm_onExpire m" "sm_maxTTL (fst (check_each ks m)) = sm_maxTTL m"
  "sm_defaultTTL (fst (check_each ks m)) = sm_defaultTTL m"
  by (induction ks m rule: check_each.induct) (simp_all add: case_prod_unfold Let_def split: option.split)

definition expired_at :: "(string \<times> instant) list \<Rightarrow> 'h SessionManager \<Rightarrow> string \<Rightarrow> bool" where
  "expired_at walk m sid \<longleftrightarrow> (\<exists>s now. sm_sessions m sid = Some s \<and> map_of walk sid = Some now \<and> IsExpired now s)"

lemma expired_at_Cons:
  "expired_at ((k, now) # ks) m sid \<longleftrightarrow>
     (if sid = k then \<exists>s. sm_sessions m k = Some s \<and> IsExpired now s else expired_at ks m sid)"
  by (auto simp: expired_at_def)

lemma check_each_table:
  "distinct (map fst ks) \<Longrightarrow>
     sm_sessions (fst (check_each ks m)) = (\<lambda>sid. if expired_at ks m sid then None else sm_sessions m sid)"
proof (induction ks m rule: check_each.induct)
  case (1 m)
  then show ?case by (simp add: expired_at_def)
next
  case (2 k now ks m)
  have no: "\<not> expired_at ks m' k" for m' :: "'a SessionManager" using "2.prems" by (auto simp: expired_at_def map_of_eq_None_iff [symmetric])
  show ?case
  proof (cases "sm_sessions m k")
    case None
    with 2 show ?thesis by (auto simp: fun_eq_iff expired_at_Cons expired_at_def)
  next
    case (Some s)
    let ?m = "m\<lparr>sm_sessions := (sm_sessions m)(k := None)\<rparr>"
    have same: "sid \<noteq> k \<Longrightarrow> expired_at ks ?m sid = expired_at ks m sid" for sid by (simp add: expired_at_def)
    show ?thesis
      using 2 Some no same by (auto simp: fun_eq_iff expired_at_Cons case_prod_unfold Let_def)
  qed
qed

definition expire_calls :: "'h SessionManager \<Rightarrow> string list \<Rightarrow> 'h expiry list" where
  "expire_calls m sids = (case sm_onExpire m of None \<Rightarrow> [] | Some f \<Rightarrow> map (\<lambda>k. GoExpire f (the (sm_sessions m k))) sids)"

lemma check_each_calls:
  "distinct (map fst ks) \<Longrightarrow> snd (check_each ks m) = expire_calls m (filter (expired_at ks m) (map fst ks))"
proof (induction ks m rule: check_each.induct)
  case (1 m)
  then show ?case by (simp add: expire_calls_def split: option.split)
next
  case (2 k now ks m)
  have flt: "filter (expired_at ((k, now) # ks) m) (map fst ks) = filter (expired_at ks m) (map fst ks)"
    using "2.prems" by (intro filter_cong) (auto simp: expired_at_Cons)
  show ?case
  proof (cases "sm_sessions m k")
    case None
    with 2 flt show ?thesis by (simp add: expired_at_Cons [of k now ks m k])
  next
    case (Some s)
    let ?m = "m\<lparr>sm_sessions := (sm_sessions m)(k := None)\<rparr>"
    have k: "k \<notin> set (map fst ks)" using "2.prems" by simp
    have e: "expire_calls ?m (filter (expired_at ks ?m) (map fst ks)) = expire_calls m (filter (expired_at ks m) (map fst ks))"
    proof -
      have "filter (expired_at ks ?m) (map fst ks) = filter (expired_at ks m) (map fst ks)"
        using k by (intro filter_cong) (auto simp: expired_at_def)
      then show ?thesis using k by (auto simp: expire_calls_def split: option.split)
    qed
    show ?thesis
      using 2 Some flt e
      by (auto simp: expired_at_Cons [of k now ks m k] case_prod_unfold Let_def expire_calls_def split: option.split)
  qed
qed

section \<open>Histories of a session table\<close>

datatype session_op =
    OpCreate string instant instant string duration
  | OpHeartbeat instant instant string
  | OpClose string
  | OpRegister string string
  | OpUnregister string string
  | OpCheck "(string \<times> instant) list"

fun session_step :: "session_op \<Rightarrow> 'h SessionManager \<Rightarrow> 'h SessionManager \<times> 'h expiry list" where
  "session_step (OpCreate uuid t1 t2 clientID ttl) m = (fst (Session_Create uuid t1 t2 m clientID ttl), [])"
| "session_step (OpHeartbeat now now' sid) m = (fst (Session_Heartbeat now now' m sid), [])"
| "session_step (OpClose sid) m = (fst (Session_Close m sid), fst (snd (Session_Close m sid)))"
| "session_step (OpRegister sid key) m = (fst (RegisterEphemeral m sid key), [])"
| "session_step (OpUnregister sid key) m = (fst (UnregisterEphemeral m sid key), [])"
| "session_step (OpCheck walk) m = checkExpirations walk m"

fun session_run :: "session_op list \<Rightarrow> 'h SessionManager \<Rightarrow> 'h SessionManager \<times> 'h expiry list" where
  "session_run [] m = (m, [])"
| "session_run (op # ops) m =
     (let (m1, calls) = session_step op m; (m2, calls') = session_run ops m1 in (m2, calls @ calls'))"

text \<open>Every session is stored under its own id, with a time-to-live that the configuration allows.\<close>

definition table_ok :: "'h SessionManager \<Rightarrow> bool" where
  "table_ok m \<longleftrightarrow> (\<forall>sid s. sm_sessions m sid = Some s \<longrightarrow> ss_ID s = sid \<and> 0 < ss_TTL s \<and> ss_TTL s \<le> sm_maxTTL m)"

definition ttl_config_ok :: "'h SessionManager \<Rightarrow> bool" where
  "ttl_config_ok m \<longleftrightarrow> 0 < sm_defaultTTL m \<and> 0 < sm_maxTTL m"

text \<open>The walk of a check visits every session of the table once.\<close>

definition op_ok :: "session_op \<Rightarrow> 'h SessionManager \<Rightarrow> bool" where
  "op_ok op m = (case op of OpCheck walk \<Rightarrow> key_order (sm_sessions m) (map fst walk) | _ \<Rightarrow> True)"

fun ops_ok :: "session_op list \<Rightarrow> 'h SessionManager \<Rightarrow> bool" where
  "ops_ok [] m = True"
| "ops_ok (op # ops) m \<longleftrightarrow> op_ok op m \<and> ops_ok ops (fst (session_step op m))"

lemma clamp_ttl_bounds: "ttl_config_ok m \<Longrightarrow> 0 < clamp_ttl m ttl \<and> clamp_ttl m ttl \<le> sm_maxTTL m"
  by (simp add: clamp_ttl_def ttl_config_ok_def Let_def)

lemma session_step_frame:
  "sm_onExpire (fst (session_step op m)) = sm_onExpire m" "sm_maxTTL (fst (session_step op m)) = sm_maxTTL m"
  "sm_defaultTTL (fst (session_step op m)) = sm_defaultTTL m"
  by (cases op; simp add: Session_Create_def Session_Heartbeat_def Session_Close_def RegisterEphemeral_def
      UnregisterEphemeral_def checkExpirations_def check_each_frame Let_def split: option.split)+

lemma check_each_subset: "sm_sessions (fst (check_each ks m)) sid = Some s \<Longrightarrow> sm_sessions m sid = Some s"
  by (induction ks m rule: check_each.induct) (auto simp: case_prod_unfold Let_def split: option.splits if_splits)

lemma session_step_table_ok:
  assumes "table_ok m" "ttl_config_ok m"
  shows "table_ok (fst (session_step op m))" "ttl_config_ok (fst (session_step op m))"
proof -
  show "ttl_config_ok (fst (session_step op m))" using assms(2) by (simp add: ttl_config_ok_def session_step_frame)
  show "table_ok (fst (session_step op m))"
    using assms(1) clamp_ttl_bounds [OF assms(2)] session_step_frame(2) [of op m]
    by (cases op)
       (auto simp: table_ok_def Session_Create_def Session_Heartbeat_def Session_Close_def RegisterEphemeral_def
         UnregisterEphemeral_def checkExpirations_def Let_def split: option.splits dest: check_each_subset)
qed

lemma session_run_table_ok:
  "table_ok m \<Longrightarrow> ttl_config_ok m \<Longrightarrow> table_ok (fst (session_run ops m))"
proof (induction ops arbitrary: m)
  case (Cons op ops)
  with session_step_table_ok [OF Cons.prems, of op] show ?case by (simp add: case_prod_unfold Let_def)
qed simp

section \<open>Properties\<close>

text \<open>
  In every history of the table, each session sits under its own id and has a time-to-live
  that is positive and at most the configured maximum, whatever the client asked for.
\<close>

lemma session_ttl_bounds:
  assumes "0 < d" "0 < mx" and "sm_sessions (fst (session_run ops (NewSessionManager d mx))) sid = Some s"
  shows "ss_ID s = sid \<and> 0 < ss_TTL s \<and> ss_TTL s \<le> mx"
proof -
  let ?m = "NewSessionManager d mx :: 'a SessionManager"
  have "sm_maxTTL (fst (session_run ops m)) = sm_maxTTL m" for m :: "'a SessionManager"
    by (induction ops arbitrary: m) (simp_all add: case_prod_unfold Let_def session_step_frame)
  moreover have "table_ok ?m" "ttl_config_ok ?m"
    using assms(1,2) by (simp_all add: table_ok_def ttl_config_ok_def NewSessionManager_def)
  ultimately show ?thesis
    using session_run_table_ok [of ?m ops] assms(3) by (auto simp: table_ok_def NewSessionManager_def)
qed

definition example_history :: "session_op list" where
  "example_history = [OpCreate ''s1'' 0 0 ''c1'' (3600 * Second), OpCreate ''s2'' 0 0 ''c2'' (- 1), OpHeartbeat Second Second ''s1'']"

lemma session_ttl_bounds_example:
  "map_option ss_TTL (sm_sessions (fst (session_run example_history (NewSessionManager (10 * Second) (60 * Second) :: unit SessionManager))) ''s1'')
     = Some (60 * Second) \<and> 0 < 60 * Second"
proof -
  let ?m = "fst (session_run example_history (NewSessionManager (10 * Second) (60 * Second) :: unit SessionManager))"
  have e: "map_option ss_TTL (sm_sessions ?m ''s1'') = Some (60 * Second)" by code_simp
  then obtain s where "sm_sessions ?m ''s1'' = Some s" "ss_TTL s = 60 * Second" by auto
  with session_ttl_bounds [of "10 * Second" "60 * Second" example_history "''s1''" s] e show ?thesis
    by (simp add: Second_def)
qed

text \<open>
  C28. The expiry check removes exactly the sessions whose time-to-live has passed at the moment
  they are looked at, leaves every other session as it was, and starts the callback once for each
  removed session and for no other.
\<close>

theorem check_exact:
  assumes "key_order (sm_sessions m) (map fst walk)"
  shows "sm_sessions (fst (checkExpirations walk m)) =
      (\<lambda>sid. case sm_sessions m sid of None \<Rightarrow> None
             | Some s \<Rightarrow> if IsExpired (the (map_of walk sid)) s then None else Some s) \<and>
    (\<exists>gone. distinct gone \<and>
       set gone = {sid. \<exists>s. sm_sessions m sid = Some s \<and> IsExpired (the (map_of walk sid)) s} \<and>
       snd (checkExpirations walk m) =
         (case sm_onExpire m of None \<Rightarrow> [] | Some f \<Rightarrow> map (\<lambda>sid. GoExpire f (the (sm_sessions m sid))) gone))"
proof -
  have d: "distinct (map fst walk)" and dom: "set (map fst walk) = dom (sm_sessions m)"
    using assms by (auto simp: key_order_def)
  have ex: "expired_at walk m sid \<longleftrightarrow> (\<exists>s. sm_sessions m sid = Some s \<and> IsExpired (the (map_of walk sid)) s)" for sid
  proof -
    have "sm_sessions m sid \<noteq> None \<Longrightarrow> map_of walk sid \<noteq> None"
      using dom by (metis domIff map_of_eq_None_iff list.set_map)
    then show ?thesis by (auto simp: expired_at_def)
  qed
  have "sm_sessions (fst (checkExpirations walk m)) =
      (\<lambda>sid. case sm_sessions m sid of None \<Rightarrow> None
             | Some s \<Rightarrow> if IsExpired (the (map_of walk sid)) s then None else Some s)"
    by (auto simp: checkExpirations_def check_each_table [OF d] ex fun_eq_iff split: option.split)
  moreover have "set (filter (expired_at walk m) (map fst walk)) = {sid. \<exists>s. sm_sessions m sid = Some s \<and> IsExpired (the (map_of walk sid)) s}"
    using dom by (auto simp: ex)
  ultimately show ?thesis
    using d by (intro conjI exI [of _ "filter (expired_at walk m) (map fst walk)"])
      (auto simp: checkExpirations_def check_each_calls [OF d] expire_calls_def)
qed

definition example_manager :: "nat SessionManager" where
  "example_manager = SetOnExpire 7 (fst (session_run example_history (NewSessionManager (10 * Second) (60 * Second))))"

lemma example_manager_keys: "key_order (sm_sessions example_manager) [''s1'', ''s2'']"
proof -
  have "sm_sessions example_manager k \<noteq> None \<longleftrightarrow> k = ''s1'' \<or> k = ''s2''" for k
    by (auto simp: example_manager_def example_history_def SetOnExpire_def NewSessionManager_def Session_Create_def
        Session_Heartbeat_def IsExpired_def clamp_ttl_def time_Since_def max_int64_def min_int64_def Second_def Let_def)
  then show ?thesis by (auto simp: key_order_def)
qed

theorem check_exact_witness:
  "sm_sessions (fst (checkExpirations [(''s1'', 20 * Second), (''s2'', 20 * Second)] example_manager)) ''s1'' \<noteq> None \<and>
   sm_sessions (fst (checkExpirations [(''s1'', 20 * Second), (''s2'', 20 * Second)] example_manager)) ''s2'' = None"
proof -
  let ?w = "[(''s1'', 20 * Second), (''s2'', 20 * Second)]"
  have "map_option (IsExpired (20 * Second)) (sm_sessions example_manager ''s1'') = Some False"
    "map_option (IsExpired (20 * Second)) (sm_sessions example_manager ''s2'') = Some True" by code_simp+
  with check_exact [of example_manager ?w] example_manager_keys show ?thesis
    by (auto split: option.split)
qed

text \<open>
  A history in which a client renews the session \<open>sid\<close>, last renewed at \<open>t\<close>, in time: whenever the
  session is looked at, at most its time-to-live has passed since the last renewal. The session is
  not closed, and no new session gets its id.
\<close>

fun renewed_in_time :: "string \<Rightarrow> duration \<Rightarrow> instant \<Rightarrow> session_op list \<Rightarrow> bool" where
  "renewed_in_time sid ttl t [] = True"
| "renewed_in_time sid ttl t (op # ops) =
     (case op of
        OpCreate uuid _ _ _ _ \<Rightarrow> uuid \<noteq> sid \<and> renewed_in_time sid ttl t ops
      | OpHeartbeat now now' k \<Rightarrow>
          if k = sid then now - t \<le> ttl \<and> renewed_in_time sid ttl now' ops else renewed_in_time sid ttl t ops
      | OpClose k \<Rightarrow> k \<noteq> sid \<and> renewed_in_time sid ttl t ops
      | OpCheck walk \<Rightarrow> (\<forall>now. (sid, now) \<in> set walk \<longrightarrow> now - t \<le> ttl) \<and> renewed_in_time sid ttl t ops
      | _ \<Rightarrow> renewed_in_time sid ttl t ops)"

lemma not_expired: "0 < ss_TTL s \<Longrightarrow> now - ss_LastHeartbeat s \<le> ss_TTL s \<Longrightarrow> \<not> IsExpired now s"
  by (simp add: IsExpired_def time_Since_def min_int64_def max_int64_def)

lemma check_each_keeps:
  "sm_sessions m sid = Some s \<Longrightarrow> (\<And>now. (sid, now) \<in> set ks \<Longrightarrow> \<not> IsExpired now s)
     \<Longrightarrow> sm_sessions (fst (check_each ks m)) sid = Some s"
proof (induction ks m rule: check_each.induct)
  case (2 k now ks m)
  then show ?case by (cases "k = sid") (auto simp: case_prod_unfold Let_def split: option.split)
qed simp

text \<open>
  C29. A client that sends its heartbeats in time keeps its session: however the other operations of
  the manager interleave, the session is still there at the end, and every one of its heartbeats
  was accepted, since the last renewal is the time of the last heartbeat.
\<close>

theorem heartbeats_keep_session:
  assumes "sm_sessions m sid = Some s" "0 < ss_TTL s" and "renewed_in_time sid (ss_TTL s) (ss_LastHeartbeat s) ops"
  shows "\<exists>s'. sm_sessions (fst (session_run ops m)) sid = Some s' \<and> ss_TTL s' = ss_TTL s \<and>
     ss_LastHeartbeat s' = last (ss_LastHeartbeat s # concat (map (\<lambda>op. case op of OpHeartbeat now now' k \<Rightarrow> (if k = sid then [now'] else []) | _ \<Rightarrow> []) ops))"
  using assms
proof (induction ops arbitrary: m s)
  case (Cons op ops)
  let ?m = "fst (session_step op m)"
  let ?t = "case op of OpHeartbeat now now' k \<Rightarrow> (if k = sid then now' else ss_LastHeartbeat s) | _ \<Rightarrow> ss_LastHeartbeat s"
  have "\<exists>s1. sm_sessions ?m sid = Some s1 \<and> ss_TTL s1 = ss_TTL s \<and> ss_LastHeartbeat s1 = ?t"
  proof (cases op)
    case (OpHeartbeat now now' k)
    then show ?thesis using Cons.prems not_expired [OF Cons.prems(2)]
      by (cases "k = sid") (auto simp: Session_Heartbeat_def split: option.split)
  next
    case (OpCheck walk)
    then show ?thesis using Cons.prems not_expired [OF Cons.prems(2)]
      by (auto simp: checkExpirations_def intro!: check_each_keeps)
  next
    case (OpUnregister k key)
    then show ?thesis using Cons.prems by (auto simp: UnregisterEphemeral_def split: option.split)
  qed (use Cons.prems in \<open>auto simp: Session_Create_def Session_Close_def RegisterEphemeral_def Let_def split: option.split\<close>)
  then obtain s1 where s1: "sm_sessions ?m sid = Some s1" "ss_TTL s1 = ss_TTL s" "ss_LastHeartbeat s1 = ?t" by blast
  have "renewed_in_time sid (ss_TTL s1) (ss_LastHeartbeat s1) ops"
    using Cons.prems(3) s1 by (cases op) (auto split: if_splits)
  from Cons.IH [OF s1(1) _ this] s1 Cons.prems(2) show ?case
    by (cases op) (auto simp: case_prod_unfold Let_def)
qed simp

theorem heartbeats_keep_session_witness:
  "\<exists>s'. sm_sessions (fst (session_run [OpCheck [(''s2'', 5 * Second), (''s1'', 6 * Second)], OpHeartbeat (9 * Second) (9 * Second) ''s2'',
        OpClose ''s1'', OpCheck [(''s2'', 18 * Second)]] example_manager)) ''s2'' = Some s' \<and> ss_LastHeartbeat s' = 9 * Second"
proof -
  let ?ops = "[OpCheck [(''s2'', 5 * Second), (''s1'', 6 * Second)], OpHeartbeat (9 * Second) (9 * Second) ''s2'',
        OpClose ''s1'', OpCheck [(''s2'', 18 * Second)]]"
  have "map_option (\<lambda>s. (ss_TTL s, ss_LastHeartbeat s)) (sm_sessions example_manager ''s2'') = Some (10 * Second, 0)" by code_simp
  then obtain s where s: "sm_sessions example_manager ''s2'' = Some s" "ss_TTL s = 10 * Second" "ss_LastHeartbeat s = 0" by auto
  have "renewed_in_time ''s2'' (ss_TTL s) (ss_LastHeartbeat s) ?ops" by (simp add: s Second_def)
  from heartbeats_keep_session [OF s(1) _ this] s show ?thesis by (auto simp: Second_def)
qed

section \<open>The expiry callback\<close>

fun expiry_session :: "'h expiry \<Rightarrow> Session" where
  "expiry_session (CallExpire f s) = s"
| "expiry_session (GoExpire f s) = s"

definition calls_for :: "string \<Rightarrow> 'h expiry list \<Rightarrow> nat" where
  "calls_for sid calls = length (filter (\<lambda>c. ss_ID (expiry_session c) = sid) calls)"

text \<open>Some heartbeat of the history found the session expired and dropped it from the table.\<close>

fun dropped_by_heartbeat :: "string \<Rightarrow> session_op list \<Rightarrow> 'h SessionManager \<Rightarrow> bool" where
  "dropped_by_heartbeat sid [] m = False"
| "dropped_by_heartbeat sid (op # ops) m \<longleftrightarrow>
     (case op of
        OpHeartbeat now now' k \<Rightarrow> k = sid \<and> (\<exists>s. sm_sessions m sid = Some s \<and> IsExpired now s)
      | _ \<Rightarrow> False) \<or> dropped_by_heartbeat sid ops (fst (session_step op m))"

definition creates :: "string \<Rightarrow> session_op \<Rightarrow> bool" where
  "creates sid op = (case op of OpCreate uuid _ _ _ _ \<Rightarrow> uuid = sid | _ \<Rightarrow> False)"

lemma calls_for_simps [simp]:
  "calls_for sid [] = 0" "calls_for sid (xs @ ys) = calls_for sid xs + calls_for sid ys"
  "calls_for sid (c # cs) = (if ss_ID (expiry_session c) = sid then 1 else 0) + calls_for sid cs"
  by (simp_all add: calls_for_def)

lemma calls_for_check:
  assumes ok: "table_ok m" and f: "sm_onExpire m = Some f" and d: "distinct (map fst walk)"
  shows "calls_for sid (snd (checkExpirations walk m)) = (if expired_at walk m sid then 1 else 0)"
proof -
  have gen: "calls_for sid (map (\<lambda>k. GoExpire f (the (sm_sessions m k))) ks) = (if sid \<in> set ks then 1 else 0)"
    if "distinct ks" "\<And>k. k \<in> set ks \<Longrightarrow> sm_sessions m k \<noteq> None" for ks
    using that ok by (induction ks) (auto simp: table_ok_def)
  have "sid \<in> set (map fst walk)" if "expired_at walk m sid"
    using that by (force simp: expired_at_def dest: map_of_SomeD)
  moreover have "sm_sessions m k \<noteq> None" if "expired_at walk m k" for k
    using that by (auto simp: expired_at_def)
  ultimately show ?thesis
    using gen [of "filter (expired_at walk m) (map fst walk)"] d
    by (simp add: checkExpirations_def check_each_calls [OF d] expire_calls_def f)
qed

lemma check_each_absent: "sm_sessions m sid = None \<Longrightarrow> sm_sessions (fst (check_each ks m)) sid = None"
  using check_each_subset [of ks m sid] by (cases "sm_sessions (fst (check_each ks m)) sid") auto

lemma session_step_absent:
  assumes "table_ok m" "op_ok op m" "sm_onExpire m = Some f" "\<not> creates sid op" "sm_sessions m sid = None"
  shows "calls_for sid (snd (session_step op m)) = 0" "sm_sessions (fst (session_step op m)) sid = None"
proof -
  show "calls_for sid (snd (session_step op m)) = 0"
    using assms calls_for_check [OF assms(1,3)]
    by (cases op) (auto simp: Session_Close_def table_ok_def op_ok_def key_order_def expired_at_def split: option.split)
  show "sm_sessions (fst (session_step op m)) sid = None"
    using assms check_each_absent [of m sid]
    by (cases op) (auto simp: Session_Create_def Session_Heartbeat_def Session_Close_def RegisterEphemeral_def
      UnregisterEphemeral_def checkExpirations_def creates_def Let_def split: option.splits if_splits)
qed

lemma session_step_present:
  assumes "table_ok m" "op_ok op m" "sm_onExpire m = Some f" "\<not> creates sid op" "sm_sessions m sid = Some s"
  shows "calls_for sid (snd (session_step op m)) =
    (if sm_sessions (fst (session_step op m)) sid = None \<and> \<not> dropped_by_heartbeat sid [op] m then 1 else 0)"
proof (cases op)
  case (OpCheck walk)
  then have d: "distinct (map fst walk)" using assms(2) by (simp add: op_ok_def key_order_def)
  show ?thesis
    using calls_for_check [OF assms(1,3) d] check_each_table [OF d, of m] assms(5) OpCheck
    by (simp add: checkExpirations_def)
next
  case (OpClose k)
  then show ?thesis using assms by (auto simp: Session_Close_def table_ok_def split: option.split)
next
  case (OpUnregister k key)
  then show ?thesis using assms by (auto simp: UnregisterEphemeral_def split: option.split)
qed (use assms in \<open>auto simp: Session_Create_def Session_Heartbeat_def RegisterEphemeral_def creates_def Let_def
       split: option.split\<close>)

lemma session_run_absent:
  assumes "table_ok m" "ttl_config_ok m" "ops_ok ops m" "sm_onExpire m = Some f" "\<forall>op \<in> set ops. \<not> creates sid op"
    and "sm_sessions m sid = None"
  shows "calls_for sid (snd (session_run ops m)) = 0 \<and> sm_sessions (fst (session_run ops m)) sid = None \<and>
     \<not> dropped_by_heartbeat sid ops m"
  using assms
proof (induction ops arbitrary: m)
  case (Cons op ops)
  have ok: "op_ok op m" "\<not> creates sid op" using Cons.prems(3,5) by simp_all
  note st = session_step_absent [OF Cons.prems(1) ok(1) Cons.prems(4) ok(2) Cons.prems(6)]
  have "calls_for sid (snd (session_run ops (fst (session_step op m)))) = 0 \<and>
     sm_sessions (fst (session_run ops (fst (session_step op m)))) sid = None \<and> \<not> dropped_by_heartbeat sid ops (fst (session_step op m))"
    using Cons.prems session_step_table_ok [OF Cons.prems(1,2), of op] st(2)
    by (intro Cons.IH) (simp_all add: session_step_frame)
  with st(1) Cons.prems(6) show ?case by (cases op) (auto simp: case_prod_unfold Let_def)
qed simp

text \<open>
  C18. The end of a session is announced exactly once: over any history in which its id is not given
  out again, the expiry callback runs once for a session that is gone at the end and not at all for
  one that is still there. The exception is a session that a heartbeat found expired: it is dropped
  and never announced.
\<close>

theorem expiry_announced_once:
  assumes "table_ok m" "ttl_config_ok m" "ops_ok ops m" "sm_onExpire m = Some f"
    and "\<forall>op \<in> set ops. \<not> creates sid op" and "sm_sessions m sid = Some s"
  shows "calls_for sid (snd (session_run ops m)) =
    (if sm_sessions (fst (session_run ops m)) sid = None \<and> \<not> dropped_by_heartbeat sid ops m then 1 else 0)"
  using assms
proof (induction ops arbitrary: m s)
  case (Cons op ops)
  let ?m = "fst (session_step op m)"
  have ok: "op_ok op m" "\<not> creates sid op" "ops_ok ops ?m" "\<forall>op \<in> set ops. \<not> creates sid op"
    using Cons.prems(3,5) by simp_all
  note st = session_step_present [OF Cons.prems(1) ok(1) Cons.prems(4) ok(2) Cons.prems(6)]
  note inv = session_step_table_ok [OF Cons.prems(1,2), of op]
  have f: "sm_onExpire ?m = Some f" using Cons.prems(4) by (simp add: session_step_frame)
  have run: "session_run (op # ops) m = (fst (session_run ops ?m), snd (session_step op m) @ snd (session_run ops ?m))"
    by (simp add: case_prod_unfold Let_def)
  have drop: "dropped_by_heartbeat sid (op # ops) m \<longleftrightarrow> dropped_by_heartbeat sid [op] m \<or> dropped_by_heartbeat sid ops ?m"
    by simp
  show ?case
  proof (cases "sm_sessions ?m sid")
    case None
    from session_run_absent [OF inv ok(3) f ok(4) None] st None show ?thesis unfolding run drop by simp
  next
    case (Some s1)
    have "\<not> dropped_by_heartbeat sid [op] m"
      using Some by (cases op) (auto simp: Session_Heartbeat_def split: option.splits if_splits)
    with Cons.IH [OF inv ok(3) f ok(4) Some] st Some show ?thesis unfolding run drop by simp
  qed
qed simp

lemma example_manager_ok: "table_ok example_manager" "ttl_config_ok example_manager" "sm_onExpire example_manager = Some 7"
proof -
  let ?m = "NewSessionManager (10 * Second) (60 * Second) :: nat SessionManager"
  have m: "table_ok ?m" "ttl_config_ok ?m" by (simp_all add: table_ok_def ttl_config_ok_def NewSessionManager_def Second_def)
  have f: "table_ok (SetOnExpire 7 x) = table_ok x" for x :: "nat SessionManager"
    by (simp add: table_ok_def SetOnExpire_def)
  show "table_ok example_manager" unfolding example_manager_def f by (rule session_run_table_ok [OF m])
  show "ttl_config_ok example_manager" unfolding ttl_config_ok_def by code_simp
  show "sm_onExpire example_manager = Some 7" by (simp add: example_manager_def SetOnExpire_def)
qed

theorem expiry_announced_once_witness:
  "calls_for ''s2'' (snd (session_run [OpCheck [(''s1'', 20 * Second), (''s2'', 20 * Second)], OpClose ''s2''] example_manager)) = 1"
proof -
  let ?ops = "[OpCheck [(''s1'', 20 * Second), (''s2'', 20 * Second)], OpClose ''s2'']"
  have "dom (sm_sessions example_manager) = set [''s1'', ''s2'']" using example_manager_keys unfolding key_order_def by simp
  then obtain s where s: "sm_sessions example_manager ''s2'' = Some s" by (metis domD list.set_intros)
  have ok: "ops_ok ?ops example_manager" using example_manager_keys by (simp add: op_ok_def)
  have gone: "sm_sessions (fst (session_run ?ops example_manager)) ''s2'' = None" by code_simp
  have "\<forall>op \<in> set ?ops. \<not> creates ''s2'' op" by (simp add: creates_def)
  from expiry_announced_once [OF example_manager_ok(1,2) ok example_manager_ok(3) this s] gone show ?thesis by simp
qed



text \<open>
  The client-side heartbeat loop sends one heartbeat with its session id per tick until it is
  stopped, and cannot be started with an interval that is not positive.
\<close>

lemma heartbeat_client_run:
  "HeartbeatClient_run h es =
     (if hc_interval h \<le> 0 then None
      else Some (replicate (length (takeWhile (\<lambda>e. e = BeatTick) es)) (hc_sessionID h, hc_interval h)))"
proof -
  have "beats h es = replicate (length (takeWhile (\<lambda>e. e = BeatTick) es)) (hc_sessionID h, hc_interval h)"
    by (induction h es rule: beats.induct) simp_all
  then show ?thesis by (simp add: HeartbeatClient_run_def)
qed

end
