(* ===== verification/Watches.thy ===== *)
theory Watches
  imports GoLib
begin

text \<open>
  Watches, \<open>internal/watch/watcher.go\<close>: registration, one-time and persistent watches, and the
  delivery of events through buffered channels.

  A \<open>*Watcher\<close> is an index into the list of watchers allocated so far, because the client that
  registered a watch keeps reading its channel after the manager has dropped it. A channel is its
  buffer and whether it is closed. \<open>None\<close> is a panic: a send on a closed channel or a second
  \<open>close\<close>. Identifiers made by \<open>uuid.New\<close> are arguments.
\<close>

section \<open>Events and watchers\<close>

datatype EventType = EventCreated | EventDeleted | EventDataChanged | EventChildrenChanged

fun EventType_String :: "EventType \<Rightarrow> string" where
  "EventType_String EventCreated = ''Created''"
| "EventType_String EventDeleted = ''Deleted''"
| "EventType_String EventDataChanged = ''DataChanged''"
| "EventType_String EventChildrenChanged = ''ChildrenChanged''"

record Event =
  ev_ID :: string
  ev_Type :: EventType
  ev_Path :: string
  ev_Data :: bytes
  ev_Version :: u64

text \<open>The capacity given to \<open>make(chan Event, 10)\<close>.\<close>

definition event_cap :: nat where
  "event_cap = 10"

record EventChan =
  ch_buf :: "Event list"
  ch_closed :: bool

record Watcher =
  wt_ID :: string
  wt_Path :: string
  wt_EventCh :: EventChan
  wt_Persistent :: bool
  wt_triggered :: bool

record WatchManager =
  wm_watchers :: "string \<rightharpoonup> nat list"
  wm_heap :: "Watcher list"

definition NewWatchManager :: WatchManager where
  "NewWatchManager = \<lparr>wm_watchers = Map.empty, wm_heap = []\<rparr>"

section \<open>Channels\<close>

definition chan_close :: "EventChan \<Rightarrow> EventChan option" where
  "chan_close c = (if ch_closed c then None else Some (c\<lparr>ch_closed := True\<rparr>))"

text \<open>\<open>select\<close> with a send and a default branch: the event is dropped when the buffer is full.\<close>

definition chan_offer :: "Event \<Rightarrow> EventChan \<Rightarrow> EventChan option" where
  "chan_offer e c =
     (if ch_closed c then None
      else Some (if length (ch_buf c) < event_cap then c\<lparr>ch_buf := ch_buf c @ [e]\<rparr> else c))"

text \<open>What the reader of a watcher's channel gets next, if anything.\<close>

definition chan_recv :: "EventChan \<Rightarrow> EventChan \<times> Event option" where
  "chan_recv c = (case ch_buf c of [] \<Rightarrow> (c, None) | e # es \<Rightarrow> (c\<lparr>ch_buf := es\<rparr>, Some e))"

section \<open>Operations\<close>

definition put_watcher :: "nat \<Rightarrow> Watcher \<Rightarrow> WatchManager \<Rightarrow> WatchManager" where
  "put_watcher i w m = m\<lparr>wm_heap := (wm_heap m)[i := w]\<rparr>"

text \<open>A missing key reads as the nil slice.\<close>

definition watchers_at :: "WatchManager \<Rightarrow> string \<Rightarrow> nat list" where
  "watchers_at m path = (case wm_watchers m path of None \<Rightarrow> [] | Some ws \<Rightarrow> ws)"

definition Watch_Watch :: "string \<Rightarrow> WatchManager \<Rightarrow> string \<Rightarrow> bool \<Rightarrow> WatchManager \<times> nat" where
  "Watch_Watch uuid m path persistent =
     (let watcher = \<lparr>wt_ID = uuid, wt_Path = path, wt_EventCh = \<lparr>ch_buf = [], ch_closed = False\<rparr>,
                     wt_Persistent = persistent, wt_triggered = False\<rparr>;
          i = length (wm_heap m)
      in (m\<lparr>wm_heap := wm_heap m @ [watcher], wm_watchers := (wm_watchers m)(path \<mapsto> watchers_at m path @ [i])\<rparr>, i))"

definition cleanup :: "string \<Rightarrow> WatchManager \<Rightarrow> WatchManager" where
  "cleanup path m =
     (if length (watchers_at m path) = 0 then m\<lparr>wm_watchers := (wm_watchers m)(path := None)\<rparr> else m)"

text \<open>
  The loop of \<open>Unwatch\<close> and of the removal in \<open>TriggerEvent\<close>: the first watcher with the id is
  closed and cut out of the slice.
\<close>

definition remove_watcher :: "string \<Rightarrow> string \<Rightarrow> WatchManager \<Rightarrow> WatchManager option" where
  "remove_watcher path uuid m =
     (let ws = watchers_at m path
      in case find (\<lambda>i. wt_ID (wm_heap m ! i) = uuid) ws of
           None \<Rightarrow> Some m
         | Some i \<Rightarrow>
             (case chan_close (wt_EventCh (wm_heap m ! i)) of
                None \<Rightarrow> None
              | Some c \<Rightarrow>
                  Some ((put_watcher i ((wm_heap m ! i)\<lparr>wt_EventCh := c\<rparr>) m)
                         \<lparr>wm_watchers := (wm_watchers m)
                            (path \<mapsto> remove_first (\<lambda>i. wt_ID (wm_heap m ! i) = uuid) ws)\<rparr>)))"

definition Watch_Unwatch :: "WatchManager \<Rightarrow> nat \<Rightarrow> WatchManager option" where
  "Watch_Unwatch m i =
     (let path = wt_Path (wm_heap m ! i)
      in case wm_watchers m path of
           None \<Rightarrow> Some m
         | Some ws \<Rightarrow> map_option (cleanup path) (remove_watcher path (wt_ID (wm_heap m ! i)) m))"

text \<open>The delivery loop: the watchers in order, and those to be removed afterwards.\<close>

fun deliver :: "Event \<Rightarrow> nat list \<Rightarrow> WatchManager \<Rightarrow> nat list \<Rightarrow> (WatchManager \<times> nat list) option" where
  "deliver e [] m toRemove = Some (m, toRemove)"
| "deliver e (i # ws) m toRemove =
     (let w = wm_heap m ! i
      in case chan_offer e (wt_EventCh w) of
           None \<Rightarrow> None
         | Some c \<Rightarrow>
             (let w1 = w\<lparr>wt_EventCh := c\<rparr>
              in if \<not> wt_Persistent w1 \<and> \<not> wt_triggered w1
                 then deliver e ws (put_watcher i (w1\<lparr>wt_triggered := True\<rparr>) m) (toRemove @ [i])
                 else deliver e ws (put_watcher i w1 m) toRemove))"

fun remove_all :: "string \<Rightarrow> nat list \<Rightarrow> WatchManager \<Rightarrow> WatchManager option" where
  "remove_all path [] m = Some m"
| "remove_all path (i # is) m =
     (case remove_watcher path (wt_ID (wm_heap m ! i)) m of None \<Rightarrow> None | Some m' \<Rightarrow> remove_all path is m')"

definition TriggerEvent :: "string \<Rightarrow> WatchManager \<Rightarrow> Event \<Rightarrow> WatchManager option" where
  "TriggerEvent uuid m event =
     (let event = event\<lparr>ev_ID := uuid\<rparr>
      in case wm_watchers m (ev_Path event) of
           None \<Rightarrow> Some m
         | Some ws \<Rightarrow>
             (case deliver event ws m [] of
                None \<Rightarrow> None
              | Some (m1, toRemove) \<Rightarrow> map_option (cleanup (ev_Path event)) (remove_all (ev_Path event) toRemove m1)))"

definition TriggerCreate :: "string \<Rightarrow> WatchManager \<Rightarrow> string \<Rightarrow> bytes \<Rightarrow> u64 \<Rightarrow> WatchManager option" where
  "TriggerCreate uuid m path data version =
     TriggerEvent uuid m \<lparr>ev_ID = '''', ev_Type = EventCreated, ev_Path = path, ev_Data = data, ev_Version = version\<rparr>"

definition TriggerDelete :: "string \<Rightarrow> WatchManager \<Rightarrow> string \<Rightarrow> WatchManager option" where
  "TriggerDelete uuid m path =
     TriggerEvent uuid m \<lparr>ev_ID = '''', ev_Type = EventDeleted, ev_Path = path, ev_Data = '''', ev_Version = 0\<rparr>"

definition TriggerDataChange :: "string \<Rightarrow> WatchManager \<Rightarrow> string \<Rightarrow> bytes \<Rightarrow> u64 \<Rightarrow> WatchManager option" where
  "TriggerDataChange uuid m path data version =
     TriggerEvent uuid m \<lparr>ev_ID = '''', ev_Type = EventDataChanged, ev_Path = path, ev_Data = data, ev_Version = version\<rparr>"

definition TriggerChildrenChange :: "string \<Rightarrow> WatchManager \<Rightarrow> string \<Rightarrow> WatchManager option" where
  "TriggerChildrenChange uuid m path =
     TriggerEvent uuid m \<lparr>ev_ID = '''', ev_Type = EventChildrenChanged, ev_Path = path, ev_Data = '''', ev_Version = 0\<rparr>"

definition GetWatchCount :: "WatchManager \<Rightarrow> string \<Rightarrow> nat" where
  "GetWatchCount m path = (case wm_watchers m path of None \<Rightarrow> 0 | Some ws \<Rightarrow> length ws)"

definition GetTotalWatchCount :: "string list \<Rightarrow> WatchManager \<Rightarrow> nat" where
  "GetTotalWatchCount keys m = foldl (\<lambda>count path. count + length (watchers_at m path)) 0 keys"

text \<open>The client's side: receive from the channel of a watcher.\<close>

definition Watcher_recv :: "WatchManager \<Rightarrow> nat \<Rightarrow> WatchManager \<times> Event option" where
  "Watcher_recv m i =
     (let (c, e) = chan_recv (wt_EventCh (wm_heap m ! i))
      in (put_watcher i ((wm_heap m ! i)\<lparr>wt_EventCh := c\<rparr>) m, e))"

section \<open>The invariant\<close>

text \<open>
  Watchers have different ids and no channel holds more than its capacity. The table lists, per
  path and without duplicates, exactly the watchers of that path whose channel is open, and a
  one-time watch in the table has not fired.
\<close>

definition watch_wf :: "WatchManager \<Rightarrow> bool" where
  "watch_wf m \<longleftrightarrow> distinct (map wt_ID (wm_heap m)) \<and>
     (\<forall>i < length (wm_heap m). length (ch_buf (wt_EventCh (wm_heap m ! i))) \<le> event_cap \<and>
        (\<not> ch_closed (wt_EventCh (wm_heap m ! i)) \<longleftrightarrow> i \<in> set (watchers_at m (wt_Path (wm_heap m ! i))))) \<and>
     (\<forall>path ws. wm_watchers m path = Some ws \<longrightarrow> ws \<noteq> [] \<and> distinct ws \<and>
        (\<forall>i \<in> set ws. i < length (wm_heap m) \<and> wt_Path (wm_heap m ! i) = path \<and> \<not> wt_triggered (wm_heap m ! i)))"

lemma watch_wf_New: "watch_wf NewWatchManager"
  by (simp add: watch_wf_def NewWatchManager_def)

lemma watch_wf_at:
  assumes "watch_wf m" "i \<in> set (watchers_at m path)"
  shows "i < length (wm_heap m)" "wt_Path (wm_heap m ! i) = path" "\<not> ch_closed (wt_EventCh (wm_heap m ! i))"
    "\<not> wt_triggered (wm_heap m ! i)"
proof -
  note wf = assms(1) [unfolded watch_wf_def]
  obtain ws where ws: "wm_watchers m path = Some ws" "i \<in> set ws"
    using assms(2) by (cases "wm_watchers m path") (auto simp: watchers_at_def)
  show len: "i < length (wm_heap m)" and path: "wt_Path (wm_heap m ! i) = path" and "\<not> wt_triggered (wm_heap m ! i)"
    using wf ws by blast+
  show "\<not> ch_closed (wt_EventCh (wm_heap m ! i))" using wf len path assms(2) by blast
qed

lemma watch_wf_distinct: "watch_wf m \<Longrightarrow> distinct (watchers_at m path)"
  by (auto simp: watch_wf_def watchers_at_def split: option.split)

lemma same_id:
  "distinct (map wt_ID h) \<Longrightarrow> i < length h \<Longrightarrow> j < length h \<Longrightarrow> wt_ID (h ! i) = wt_ID (h ! j) \<longleftrightarrow> i = j"
  by (metis length_map nth_eq_iff_index_eq nth_map)

text \<open>Applying a function to the watchers at some positions.\<close>

definition touch :: "(Watcher \<Rightarrow> Watcher) \<Rightarrow> nat list \<Rightarrow> Watcher list \<Rightarrow> Watcher list" where
  "touch f ws h = map (\<lambda>i. if i \<in> set ws then f (h ! i) else h ! i) [0..<length h]"

lemma length_touch [simp]: "length (touch f ws h) = length h"
  by (simp add: touch_def)

lemma nth_touch [simp]: "i < length h \<Longrightarrow> touch f ws h ! i = (if i \<in> set ws then f (h ! i) else h ! i)"
  by (simp add: touch_def)

lemma touch_Nil [simp]: "touch f [] h = h"
  by (simp add: touch_def map_nth)

lemma touch_Cons:
  "i < length h \<Longrightarrow> i \<notin> set ws \<Longrightarrow> touch f ws (h[i := f (h ! i)]) = touch f (i # ws) h"
  by (intro nth_equalityI) (auto simp: nth_list_update)

lemma touch_ids: "(\<And>w. wt_ID (f w) = wt_ID w) \<Longrightarrow> map wt_ID (touch f ws h) = map wt_ID h"
  by (intro nth_equalityI) auto

section \<open>Closed forms of the loops\<close>

text \<open>What the arrival of an event does to a watcher, and its end.\<close>

definition arrive :: "Event \<Rightarrow> Watcher \<Rightarrow> Watcher" where
  "arrive e w = w\<lparr>wt_EventCh := (if length (ch_buf (wt_EventCh w)) < event_cap
                      then (wt_EventCh w)\<lparr>ch_buf := ch_buf (wt_EventCh w) @ [e]\<rparr> else wt_EventCh w),
                  wt_triggered := wt_triggered w \<or> \<not> wt_Persistent w\<rparr>"

definition finish :: "Watcher \<Rightarrow> Watcher" where
  "finish w = w\<lparr>wt_EventCh := (wt_EventCh w)\<lparr>ch_closed := True\<rparr>\<rparr>"

lemma arrive_simps [simp]:
  "wt_ID (arrive e w) = wt_ID w" "wt_Path (arrive e w) = wt_Path w" "wt_Persistent (arrive e w) = wt_Persistent w"
  "ch_closed (wt_EventCh (arrive e w)) = ch_closed (wt_EventCh w)" "wt_triggered (arrive e w) = (wt_triggered w \<or> \<not> wt_Persistent w)"
  by (simp_all add: arrive_def)

lemma finish_simps [simp]:
  "wt_ID (finish w) = wt_ID w" "wt_Path (finish w) = wt_Path w" "wt_Persistent (finish w) = wt_Persistent w"
  "ch_closed (wt_EventCh (finish w))" "wt_triggered (finish w) = wt_triggered w"
  "ch_buf (wt_EventCh (finish w)) = ch_buf (wt_EventCh w)"
  by (simp_all add: finish_def)

lemma arrive_cases:
  assumes "\<not> wt_triggered w"
  shows "arrive e w =
    (let w1 = w\<lparr>wt_EventCh := (if length (ch_buf (wt_EventCh w)) < event_cap
                      then (wt_EventCh w)\<lparr>ch_buf := ch_buf (wt_EventCh w) @ [e]\<rparr> else wt_EventCh w)\<rparr>
     in if wt_Persistent w then w1 else w1\<lparr>wt_triggered := True\<rparr>)"
  using assms by (cases w) (simp add: arrive_def Let_def)

lemma deliver_eq:
  assumes "distinct ws" and "\<And>i. i \<in> set ws \<Longrightarrow> i < length (wm_heap m) \<and> \<not> ch_closed (wt_EventCh (wm_heap m ! i)) \<and>
      \<not> wt_triggered (wm_heap m ! i)"
  shows "deliver e ws m acc =
    Some (m\<lparr>wm_heap := touch (arrive e) ws (wm_heap m)\<rparr>, acc @ filter (\<lambda>i. \<not> wt_Persistent (wm_heap m ! i)) ws)"
  using assms
proof (induction ws arbitrary: m acc)
  case (Cons i ws)
  let ?w = "wm_heap m ! i"
  let ?m = "put_watcher i (arrive e ?w) m"
  have i: "i < length (wm_heap m)" "\<not> ch_closed (wt_EventCh ?w)" "\<not> wt_triggered ?w" "i \<notin> set ws" using Cons.prems by auto
  have step: "deliver e (i # ws) m acc = deliver e ws ?m (if wt_Persistent ?w then acc else acc @ [i])"
    using i by (simp add: chan_offer_def Let_def arrive_cases)
  have "deliver e ws ?m acc' = Some (?m\<lparr>wm_heap := touch (arrive e) ws (wm_heap ?m)\<rparr>, acc' @ filter (\<lambda>i. \<not> wt_Persistent (wm_heap ?m ! i)) ws)" for acc'
    using Cons.prems i by (intro Cons.IH) (auto simp: put_watcher_def nth_list_update)
  moreover have "filter (\<lambda>i. \<not> wt_Persistent (wm_heap ?m ! i)) ws = filter (\<lambda>i. \<not> wt_Persistent (wm_heap m ! i)) ws"
    using i by (intro filter_cong) (auto simp: put_watcher_def nth_list_update)
  moreover have "?m\<lparr>wm_heap := touch (arrive e) ws (wm_heap ?m)\<rparr> = m\<lparr>wm_heap := touch (arrive e) (i # ws) (wm_heap m)\<rparr>"
    using i by (simp add: put_watcher_def touch_Cons)
  ultimately show ?case unfolding step by simp
qed simp

lemma remove_watcher_eq:
  assumes ids: "distinct (map wt_ID (wm_heap m))" and ws: "wm_watchers m path = Some ws" "distinct ws"
    and lt: "\<And>j. j \<in> set ws \<Longrightarrow> j < length (wm_heap m)" and i: "i \<in> set ws" "\<not> ch_closed (wt_EventCh (wm_heap m ! i))"
  shows "remove_watcher path (wt_ID (wm_heap m ! i)) m =
    Some (m\<lparr>wm_heap := (wm_heap m)[i := finish (wm_heap m ! i)], wm_watchers := (wm_watchers m)(path \<mapsto> filter (\<lambda>j. j \<noteq> i) ws)\<rparr>)"
proof -
  have eq: "wt_ID (wm_heap m ! j) = wt_ID (wm_heap m ! i) \<longleftrightarrow> j = i" if "j \<in> set ws" for j
    using same_id [OF ids] lt that i(1) by blast
  have f: "find (\<lambda>j. wt_ID (wm_heap m ! j) = wt_ID (wm_heap m ! i)) ws = Some i"
    using i(1) eq by (induction ws) auto
  have "remove_first (\<lambda>j. wt_ID (wm_heap m ! j) = wt_ID (wm_heap m ! i)) ws = remove_first (\<lambda>j. j = i) ws"
    using eq by (induction ws) auto
  also have "\<dots> = filter (\<lambda>j. j \<noteq> i) ws" using remove_first_filter [of "\<lambda>x. x" ws i] ws(2) by simp
  finally have r: "remove_first (\<lambda>j. wt_ID (wm_heap m ! j) = wt_ID (wm_heap m ! i)) ws = filter (\<lambda>j. j \<noteq> i) ws" .
  show ?thesis
    using ws(1) f r i(2)
    by (simp add: remove_watcher_def watchers_at_def Let_def chan_close_def put_watcher_def finish_def)
qed

lemma remove_all_eq:
  assumes "distinct (map wt_ID (wm_heap m))" and "wm_watchers m path = Some ws" "distinct ws" "distinct is" "set is \<subseteq> set ws"
    and "\<And>j. j \<in> set ws \<Longrightarrow> j < length (wm_heap m) \<and> \<not> ch_closed (wt_EventCh (wm_heap m ! j))"
  shows "remove_all path is m =
    Some (m\<lparr>wm_heap := touch finish is (wm_heap m), wm_watchers := (wm_watchers m)(path \<mapsto> filter (\<lambda>j. j \<notin> set is) ws)\<rparr>)"
  using assms
proof (induction "is" arbitrary: m ws)
  case Nil
  then show ?case by (simp add: fun_upd_idem)
next
  case (Cons i "is")
  let ?m = "m\<lparr>wm_heap := (wm_heap m)[i := finish (wm_heap m ! i)], wm_watchers := (wm_watchers m)(path \<mapsto> filter (\<lambda>j. j \<noteq> i) ws)\<rparr>"
  have i: "i \<in> set ws" "i < length (wm_heap m)" "i \<notin> set is" using Cons.prems by auto
  have st: "remove_watcher path (wt_ID (wm_heap m ! i)) m = Some ?m"
    using Cons.prems i by (intro remove_watcher_eq) auto
  have "map wt_ID (wm_heap ?m) = map wt_ID (wm_heap m)"
    using i by (intro nth_equalityI) (auto simp: nth_list_update)
  then have "remove_all path is ?m =
    Some (?m\<lparr>wm_heap := touch finish is (wm_heap ?m), wm_watchers := (wm_watchers ?m)(path \<mapsto> filter (\<lambda>j. j \<notin> set is) (filter (\<lambda>j. j \<noteq> i) ws))\<rparr>)"
    using Cons.prems i by (intro Cons.IH) (auto simp: nth_list_update)
  also have "\<dots> = Some (m\<lparr>wm_heap := touch finish (i # is) (wm_heap m), wm_watchers := (wm_watchers m)(path \<mapsto> filter (\<lambda>j. j \<notin> set (i # is)) ws)\<rparr>)"
    using i by (simp add: touch_Cons conj_commute)
  finally have rest: "remove_all path is ?m = Some (m\<lparr>wm_heap := touch finish (i # is) (wm_heap m),
    wm_watchers := (wm_watchers m)(path \<mapsto> filter (\<lambda>j. j \<notin> set (i # is)) ws)\<rparr>)" .
  show ?case by (simp only: remove_all.simps st option.case rest)
qed

definition fire :: "Event \<Rightarrow> Watcher \<Rightarrow> Watcher" where
  "fire e w = (if wt_Persistent w then arrive e w else finish (arrive e w))"

lemma fire_simps [simp]:
  "wt_ID (fire e w) = wt_ID w" "wt_Path (fire e w) = wt_Path w" "wt_Persistent (fire e w) = wt_Persistent w"
  "ch_closed (wt_EventCh (fire e w)) = (ch_closed (wt_EventCh w) \<or> \<not> wt_Persistent w)"
  "wt_triggered (fire e w) = (wt_triggered w \<or> \<not> wt_Persistent w)"
  "ch_buf (wt_EventCh (fire e w)) =
     (if length (ch_buf (wt_EventCh w)) < event_cap then ch_buf (wt_EventCh w) @ [e] else ch_buf (wt_EventCh w))"
  by (simp_all add: fire_def arrive_def finish_def)

definition nonempty :: "'a list \<Rightarrow> 'a list option" where
  "nonempty xs = (if xs = [] then None else Some xs)"

lemma TriggerEvent_eq:
  fixes ev :: Event
  assumes wf: "watch_wf m"
  defines "ws \<equiv> watchers_at m (ev_Path ev)"
  shows "TriggerEvent uuid m ev =
    Some (m\<lparr>wm_heap := touch (fire (ev\<lparr>ev_ID := uuid\<rparr>)) ws (wm_heap m),
            wm_watchers := (wm_watchers m)(ev_Path ev := nonempty (filter (\<lambda>i. wt_Persistent (wm_heap m ! i)) ws))\<rparr>)"
proof (cases "wm_watchers m (ev_Path ev)")
  case None
  then show ?thesis by (simp add: TriggerEvent_def ws_def watchers_at_def Let_def nonempty_def fun_upd_idem)
next
  case (Some xs)
  let ?e = "ev\<lparr>ev_ID := uuid\<rparr>" and ?p = "ev_Path ev" and ?h = "wm_heap m"
  let ?m1 = "m\<lparr>wm_heap := touch (arrive ?e) ws ?h\<rparr>"
  define rm where "rm = filter (\<lambda>i. \<not> wt_Persistent (?h ! i)) ws"
  have xs: "xs = ws" using Some by (simp add: ws_def watchers_at_def)
  have d: "distinct ws" using watch_wf_distinct [OF wf] by (simp add: ws_def)
  have at: "i < length ?h" "\<not> ch_closed (wt_EventCh (?h ! i))" "\<not> wt_triggered (?h ! i)" if "i \<in> set ws" for i
    using watch_wf_at [OF wf] that by (auto simp: ws_def)
  have del: "deliver ?e ws m [] = Some (?m1, rm)" using deliver_eq [OF d, of m ?e "[]"] at by (simp add: rm_def)
  have "remove_all ?p rm ?m1 = Some (?m1\<lparr>wm_heap := touch finish rm (wm_heap ?m1),
      wm_watchers := (wm_watchers ?m1)(?p \<mapsto> filter (\<lambda>j. j \<notin> set rm) ws)\<rparr>)"
  proof (rule remove_all_eq)
    show "distinct (map wt_ID (wm_heap ?m1))" using wf by (simp add: touch_ids watch_wf_def)
    show "wm_watchers ?m1 ?p = Some ws" using Some xs by simp
  qed (use d at in \<open>auto simp: rm_def\<close>)
  moreover have "touch finish rm (touch (arrive ?e) ws ?h) = touch (fire ?e) ws ?h"
    by (intro nth_equalityI) (auto simp: rm_def fire_def)
  moreover have "filter (\<lambda>j. j \<notin> set rm) ws = filter (\<lambda>i. wt_Persistent (?h ! i)) ws"
    by (intro filter_cong) (auto simp: rm_def)
  ultimately show ?thesis
    using Some del xs by (simp add: TriggerEvent_def Let_def cleanup_def watchers_at_def nonempty_def)
qed

lemma watchers_at_upd:
  "watchers_at (m\<lparr>wm_heap := h, wm_watchers := (wm_watchers m)(p := nonempty xs)\<rparr>) q = (if q = p then xs else watchers_at m q)"
  by (simp add: watchers_at_def nonempty_def)

lemma watch_wfI:
  assumes "distinct (map wt_ID (wm_heap m))"
    and "\<And>i. i < length (wm_heap m) \<Longrightarrow> length (ch_buf (wt_EventCh (wm_heap m ! i))) \<le> event_cap"
    and "\<And>i. i < length (wm_heap m) \<Longrightarrow> \<not> ch_closed (wt_EventCh (wm_heap m ! i)) \<longleftrightarrow> i \<in> set (watchers_at m (wt_Path (wm_heap m ! i)))"
    and "\<And>path. wm_watchers m path \<noteq> Some []" "\<And>path. distinct (watchers_at m path)"
    and "\<And>path i. i \<in> set (watchers_at m path) \<Longrightarrow> i < length (wm_heap m) \<and> wt_Path (wm_heap m ! i) = path \<and> \<not> wt_triggered (wm_heap m ! i)"
  shows "watch_wf m"
  unfolding watch_wf_def
proof (intro conjI allI impI)
  fix path ws assume ws: "wm_watchers m path = Some ws"
  then have "watchers_at m path = ws" by (simp add: watchers_at_def)
  with assms(4) [of path] assms(5) [of path] assms(6) [of _ path] ws
  show "ws \<noteq> []" "distinct ws" "\<forall>i\<in>set ws. i < length (wm_heap m) \<and> wt_Path (wm_heap m ! i) = path \<and> \<not> wt_triggered (wm_heap m ! i)"
    by auto
qed (use assms(1-3) in auto)

lemma TriggerEvent_wf:
  assumes wf: "watch_wf m" and run: "TriggerEvent uuid m ev = Some m'"
  shows "watch_wf m'"
proof -
  let ?p = "ev_Path ev" and ?h = "wm_heap m"
  define ws where "ws = watchers_at m ?p"
  have m': "m' = m\<lparr>wm_heap := touch (fire (ev\<lparr>ev_ID := uuid\<rparr>)) ws ?h,
            wm_watchers := (wm_watchers m)(?p := nonempty (filter (\<lambda>i. wt_Persistent (?h ! i)) ws))\<rparr>"
    using TriggerEvent_eq [OF wf] run by (simp add: ws_def)
  have at: "watchers_at m' q = (if q = ?p then filter (\<lambda>i. wt_Persistent (?h ! i)) ws else watchers_at m q)" for q
    unfolding m' by (rule watchers_at_upd)
  have hp: "wm_heap m' = touch (fire (ev\<lparr>ev_ID := uuid\<rparr>)) ws ?h"
    and tb: "wm_watchers m' = (wm_watchers m)(?p := nonempty (filter (\<lambda>i. wt_Persistent (?h ! i)) ws))"
    by (simp_all add: m')
  note in_ws = watch_wf_at [OF wf, of _ ?p, folded ws_def]
  show ?thesis
  proof (rule watch_wfI)
    show "distinct (map wt_ID (wm_heap m'))" using wf by (simp add: hp touch_ids watch_wf_def)
    show "wm_watchers m' path \<noteq> Some []" for path using wf by (auto simp: tb nonempty_def watch_wf_def)
    show "distinct (watchers_at m' path)" for path using watch_wf_distinct [OF wf] by (simp add: at ws_def)
    show "i < length (wm_heap m') \<and> wt_Path (wm_heap m' ! i) = path \<and> \<not> wt_triggered (wm_heap m' ! i)"
      if "i \<in> set (watchers_at m' path)" for path i
      using that watch_wf_at [OF wf, of i path] in_ws [of i] by (auto simp: at hp split: if_splits)
    show "length (ch_buf (wt_EventCh (wm_heap m' ! i))) \<le> event_cap" if "i < length (wm_heap m')" for i
      using wf that by (auto simp: hp watch_wf_def)
    show "\<not> ch_closed (wt_EventCh (wm_heap m' ! i)) \<longleftrightarrow> i \<in> set (watchers_at m' (wt_Path (wm_heap m' ! i)))"
      if "i < length (wm_heap m')" for i
    proof -
      have i: "i < length ?h" using that by (simp add: hp)
      have "\<not> ch_closed (wt_EventCh (?h ! i)) \<longleftrightarrow> i \<in> set (watchers_at m (wt_Path (?h ! i)))"
        using wf i by (simp add: watch_wf_def)
      then show ?thesis using i in_ws [of i] unfolding at by (auto simp: hp ws_def)
    qed
  qed
qed

lemma Watch_Unwatch_eq:
  assumes wf: "watch_wf m" and i: "i < length (wm_heap m)"
  shows "Watch_Unwatch m i =
    Some (if ch_closed (wt_EventCh (wm_heap m ! i)) then m
          else m\<lparr>wm_heap := (wm_heap m)[i := finish (wm_heap m ! i)],
                 wm_watchers := (wm_watchers m)(wt_Path (wm_heap m ! i) :=
                    nonempty (filter (\<lambda>j. j \<noteq> i) (watchers_at m (wt_Path (wm_heap m ! i)))))\<rparr>)"
proof -
  let ?h = "wm_heap m" and ?p = "wt_Path (wm_heap m ! i)"
  have ids: "distinct (map wt_ID ?h)" using wf by (simp add: watch_wf_def)
  have open_iff: "\<not> ch_closed (wt_EventCh (?h ! i)) \<longleftrightarrow> i \<in> set (watchers_at m ?p)" using wf i by (simp add: watch_wf_def)
  show ?thesis
  proof (cases "wm_watchers m ?p")
    case None
    then show ?thesis using open_iff by (simp add: Watch_Unwatch_def watchers_at_def)
  next
    case (Some ws)
    then have ws: "watchers_at m ?p = ws" "distinct ws" "ws \<noteq> []" "\<And>j. j \<in> set ws \<Longrightarrow> j < length ?h"
      using wf watch_wf_at(1) [OF wf, of _ ?p] by (auto simp: watchers_at_def watch_wf_def)
    show ?thesis
    proof (cases "i \<in> set ws")
      case True
      with remove_watcher_eq [OF ids Some ws(2,4) True] Some ws open_iff show ?thesis
        by (simp add: Watch_Unwatch_def cleanup_def watchers_at_def nonempty_def)
    next
      case False
      then have "find (\<lambda>j. wt_ID (?h ! j) = wt_ID (?h ! i)) ws = None"
        using same_id [OF ids _ i] ws(4) by (auto simp: find_None_iff)
      with Some ws open_iff False show ?thesis
        by (simp add: Watch_Unwatch_def remove_watcher_def cleanup_def watchers_at_def)
    qed
  qed
qed

lemma Watch_Unwatch_wf:
  assumes wf: "watch_wf m" and i: "i < length (wm_heap m)" and run: "Watch_Unwatch m i = Some m'"
  shows "watch_wf m'"
proof (cases "ch_closed (wt_EventCh (wm_heap m ! i))")
  case True
  with Watch_Unwatch_eq [OF wf i] run wf show ?thesis by simp
next
  case False
  let ?h = "wm_heap m" and ?p = "wt_Path (wm_heap m ! i)"
  have m': "m' = m\<lparr>wm_heap := ?h[i := finish (?h ! i)], wm_watchers := (wm_watchers m)(?p := nonempty (filter (\<lambda>j. j \<noteq> i) (watchers_at m ?p)))\<rparr>"
    using Watch_Unwatch_eq [OF wf i] run False by simp
  have at: "watchers_at m' q = (if q = ?p then filter (\<lambda>j. j \<noteq> i) (watchers_at m ?p) else watchers_at m q)" for q
    unfolding m' by (rule watchers_at_upd)
  have hp: "wm_heap m' = ?h[i := finish (?h ! i)]"
    and tb: "wm_watchers m' = (wm_watchers m)(?p := nonempty (filter (\<lambda>j. j \<noteq> i) (watchers_at m ?p)))"
    by (simp_all add: m')
  show ?thesis
  proof (rule watch_wfI)
    have "map wt_ID (?h[i := finish (?h ! i)]) = map wt_ID ?h" using i by (intro nth_equalityI) (auto simp: nth_list_update)
    then show "distinct (map wt_ID (wm_heap m'))" using wf by (simp add: hp watch_wf_def)
    show "wm_watchers m' path \<noteq> Some []" for path using wf by (auto simp: tb nonempty_def watch_wf_def)
    show "distinct (watchers_at m' path)" for path using watch_wf_distinct [OF wf] by (simp add: at)
    show "j < length (wm_heap m') \<and> wt_Path (wm_heap m' ! j) = path \<and> \<not> wt_triggered (wm_heap m' ! j)"
      if "j \<in> set (watchers_at m' path)" for path j
    proof -
      have "j \<in> set (watchers_at m path)" using that by (auto simp: at split: if_splits)
      from watch_wf_at [OF wf this] show ?thesis using i by (cases "j = i") (auto simp: hp)
    qed
    show "length (ch_buf (wt_EventCh (wm_heap m' ! j))) \<le> event_cap" if "j < length (wm_heap m')" for j
      using wf that i by (auto simp: hp watch_wf_def nth_list_update)
    show "\<not> ch_closed (wt_EventCh (wm_heap m' ! j)) \<longleftrightarrow> j \<in> set (watchers_at m' (wt_Path (wm_heap m' ! j)))"
      if "j < length (wm_heap m')" for j
      using wf that i unfolding at by (auto simp: hp watch_wf_def nth_list_update)
  qed
qed

lemma Watch_Watch_wf:
  assumes wf: "watch_wf m" and fresh: "uuid \<notin> wt_ID ` set (wm_heap m)"
  shows "watch_wf (fst (Watch_Watch uuid m path persistent))"
proof -
  let ?m = "fst (Watch_Watch uuid m path persistent)" and ?h = "wm_heap m"
  define w where "w = \<lparr>wt_ID = uuid, wt_Path = path, wt_EventCh = \<lparr>ch_buf = [], ch_closed = False\<rparr>,
                       wt_Persistent = persistent, wt_triggered = False\<rparr>"
  have hp: "wm_heap ?m = ?h @ [w]" and tb: "wm_watchers ?m = (wm_watchers m)(path \<mapsto> watchers_at m path @ [length ?h])"
    by (simp_all add: Watch_Watch_def w_def Let_def)
  have at: "watchers_at ?m q = (if q = path then watchers_at m path @ [length ?h] else watchers_at m q)" for q
    by (simp add: watchers_at_def [of ?m] tb) (simp add: watchers_at_def)
  show ?thesis
  proof (rule watch_wfI)
    show "distinct (map wt_ID (wm_heap ?m))" using wf fresh by (auto simp: hp watch_wf_def w_def)
    show "wm_watchers ?m q \<noteq> Some []" for q using wf by (auto simp: tb watch_wf_def)
    show "distinct (watchers_at ?m q)" for q
      using watch_wf_distinct [OF wf] watch_wf_at(1) [OF wf, of "length ?h" path] by (auto simp: at)
    show "i < length (wm_heap ?m) \<and> wt_Path (wm_heap ?m ! i) = q \<and> \<not> wt_triggered (wm_heap ?m ! i)"
      if "i \<in> set (watchers_at ?m q)" for q i
      using that watch_wf_at [OF wf, of i q] by (auto simp: at hp w_def nth_append split: if_splits)
    show "length (ch_buf (wt_EventCh (wm_heap ?m ! i))) \<le> event_cap" if "i < length (wm_heap ?m)" for i
      using wf that by (auto simp: hp watch_wf_def nth_append w_def less_Suc_eq)
    show "\<not> ch_closed (wt_EventCh (wm_heap ?m ! i)) \<longleftrightarrow> i \<in> set (watchers_at ?m (wt_Path (wm_heap ?m ! i)))"
      if "i < length (wm_heap ?m)" for i
      using wf that unfolding at by (auto simp: hp watch_wf_def nth_append w_def less_Suc_eq)
  qed
qed

lemma Watcher_recv_wf:
  assumes wf: "watch_wf m" and i: "i < length (wm_heap m)"
  shows "watch_wf (fst (Watcher_recv m i))"
proof -
  let ?m = "fst (Watcher_recv m i)" and ?h = "wm_heap m"
  define w where "w = (?h ! i)\<lparr>wt_EventCh := fst (chan_recv (wt_EventCh (?h ! i)))\<rparr>"
  have hp: "wm_heap ?m = ?h[i := w]" and tb: "wm_watchers ?m = wm_watchers m"
    by (simp_all add: Watcher_recv_def put_watcher_def w_def case_prod_unfold Let_def)
  have at: "watchers_at ?m q = watchers_at m q" for q by (simp add: watchers_at_def tb)
  have w: "wt_ID w = wt_ID (?h ! i)" "wt_Path w = wt_Path (?h ! i)" "wt_triggered w = wt_triggered (?h ! i)"
    "ch_closed (wt_EventCh w) = ch_closed (wt_EventCh (?h ! i))" "length (ch_buf (wt_EventCh w)) \<le> length (ch_buf (wt_EventCh (?h ! i)))"
    by (simp_all add: w_def chan_recv_def split: list.split)
  show ?thesis
  proof (rule watch_wfI)
    have "map wt_ID (?h[i := w]) = map wt_ID ?h" using i w(1) by (intro nth_equalityI) (auto simp: nth_list_update)
    then show "distinct (map wt_ID (wm_heap ?m))" using wf by (simp add: hp watch_wf_def)
    show "wm_watchers ?m q \<noteq> Some []" for q using wf by (auto simp: tb watch_wf_def)
    show "distinct (watchers_at ?m q)" for q using watch_wf_distinct [OF wf] by (simp add: at)
    show "j < length (wm_heap ?m) \<and> wt_Path (wm_heap ?m ! j) = q \<and> \<not> wt_triggered (wm_heap ?m ! j)"
      if "j \<in> set (watchers_at ?m q)" for q j
      using that watch_wf_at [OF wf, of j q] w(2,3) i by (cases "j = i") (auto simp: at hp)
    show "length (ch_buf (wt_EventCh (wm_heap ?m ! j))) \<le> event_cap" if "j < length (wm_heap ?m)" for j
      using wf that i w(5) by (auto simp: hp watch_wf_def nth_list_update intro: order_trans)
    show "\<not> ch_closed (wt_EventCh (wm_heap ?m ! j)) \<longleftrightarrow> j \<in> set (watchers_at ?m (wt_Path (wm_heap ?m ! j)))"
      if "j < length (wm_heap ?m)" for j
      using wf that i w unfolding at by (auto simp: hp watch_wf_def nth_list_update)
  qed
qed

section \<open>Runs of the watch manager\<close>

text \<open>
  A state of a run: the manager, what the reader of each watcher has received so far, and the
  events triggered so far. Registrations, removals, events and receptions interleave freely; each
  registration draws a new id.
\<close>

type_synonym watch_state = "WatchManager \<times> (nat \<Rightarrow> Event list) \<times> Event list"

inductive watch_step :: "watch_state \<Rightarrow> watch_state \<Rightarrow> bool" where
  step_Watch: "uuid \<notin> wt_ID ` set (wm_heap m) \<Longrightarrow>
     watch_step (m, got, fired) (fst (Watch_Watch uuid m path persistent), got, fired)"
| step_Unwatch: "i < length (wm_heap m) \<Longrightarrow> Watch_Unwatch m i = Some m' \<Longrightarrow> watch_step (m, got, fired) (m', got, fired)"
| step_Trigger: "TriggerEvent uuid m ev = Some m' \<Longrightarrow>
     watch_step (m, got, fired) (m', got, fired @ [ev\<lparr>ev_ID := uuid\<rparr>])"
| step_recv: "i < length (wm_heap m) \<Longrightarrow> Watcher_recv m i = (m', Some e) \<Longrightarrow>
     watch_step (m, got, fired) (m', got(i := got i @ [e]), fired)"

definition watch_initial :: "watch_state \<Rightarrow> bool" where
  "watch_initial s \<longleftrightarrow> s = (NewWatchManager, \<lambda>_. [], [])"

text \<open>Everything a watcher has been sent: what its reader has and what its channel still holds.\<close>

definition sent :: "watch_state \<Rightarrow> nat \<Rightarrow> Event list" where
  "sent s i = (case s of (m, got, fired) \<Rightarrow> got i @ (if i < length (wm_heap m) then ch_buf (wt_EventCh (wm_heap m ! i)) else []))"

definition history_ok :: "watch_state \<Rightarrow> bool" where
  "history_ok s \<longleftrightarrow> (case s of (m, got, fired) \<Rightarrow> watch_wf m \<and>
     (\<forall>i \<ge> length (wm_heap m). got i = []) \<and>
     (\<forall>i < length (wm_heap m). subseq (sent s i) (filter (\<lambda>e. ev_Path e = wt_Path (wm_heap m ! i)) fired) \<and>
        (wt_Persistent (wm_heap m ! i) \<or> length (sent s i) \<le> (if wt_triggered (wm_heap m ! i) then 1 else 0))))"

text \<open>A step that keeps a watcher's path and kind and what it was sent keeps its part of the history.\<close>

lemma history_kept:
  assumes ok: "history_ok (m, got, fired)" and wf: "watch_wf m'" and len: "length (wm_heap m') = length (wm_heap m)"
    and got: "\<And>i. i \<ge> length (wm_heap m) \<Longrightarrow> got' i = []"
    and same: "\<And>i. i < length (wm_heap m) \<Longrightarrow> wt_Path (wm_heap m' ! i) = wt_Path (wm_heap m ! i) \<and>
        wt_Persistent (wm_heap m' ! i) = wt_Persistent (wm_heap m ! i) \<and> wt_triggered (wm_heap m' ! i) = wt_triggered (wm_heap m ! i) \<and>
        sent (m', got', fired) i = sent (m, got, fired) i"
  shows "history_ok (m', got', fired)"
  using assms by (simp add: history_ok_def)

lemma subseq_snocI: "subseq xs ys \<Longrightarrow> subseq (xs @ [x]) (ys @ [x])"
  by (simp add: list_emb_append_mono)

lemma history_trigger:
  assumes ok: "history_ok (m, got, fired)" and run: "TriggerEvent uuid m ev = Some m'"
  shows "history_ok (m', got, fired @ [ev\<lparr>ev_ID := uuid\<rparr>])"
proof -
  let ?h = "wm_heap m" and ?ws = "watchers_at m (ev_Path ev)" and ?e = "ev\<lparr>ev_ID := uuid\<rparr>"
  have wf: "watch_wf m" using ok by (simp add: history_ok_def)
  have hp: "wm_heap m' = touch (fire ?e) ?ws ?h" using TriggerEvent_eq [OF wf] run by auto
  note at = watch_wf_at [OF wf, of _ "ev_Path ev"]
  have "subseq (sent (m', got, fired @ [?e]) i) (filter (\<lambda>e. ev_Path e = wt_Path (wm_heap m' ! i)) (fired @ [?e])) \<and>
        (wt_Persistent (wm_heap m' ! i) \<or> length (sent (m', got, fired @ [?e]) i) \<le> (if wt_triggered (wm_heap m' ! i) then 1 else 0))"
    if i: "i < length ?h" for i
  proof -
    let ?s = "sent (m, got, fired) i" and ?f = "filter (\<lambda>e. ev_Path e = wt_Path (?h ! i)) fired"
    have old: "subseq ?s ?f" "wt_Persistent (?h ! i) \<or> length ?s \<le> (if wt_triggered (?h ! i) then 1 else 0)"
      using ok i by (auto simp: history_ok_def)
    have new: "sent (m', got, fired @ [?e]) i = (if i \<in> set ?ws \<and> length (ch_buf (wt_EventCh (?h ! i))) < event_cap then ?s @ [?e] else ?s)"
      using i by (simp add: sent_def hp)
    have path: "wt_Path (wm_heap m' ! i) = wt_Path (?h ! i)" "wt_Persistent (wm_heap m' ! i) = wt_Persistent (?h ! i)"
      using i by (simp_all add: hp)
    show ?thesis
    proof (cases "i \<in> set ?ws")
      case True
      then show ?thesis using old at [OF True] i
        by (auto simp: new path hp intro: subseq_snocI subseq_order.order_trans split: if_splits)
    next
      case False
      then show ?thesis using old i by (auto simp: new path hp intro: subseq_order.order_trans)
    qed
  qed
  then show ?thesis using ok TriggerEvent_wf [OF wf run] by (simp add: history_ok_def hp)
qed

lemma history_recv:
  assumes ok: "history_ok (m, got, fired)" and i: "i < length (wm_heap m)" and run: "Watcher_recv m i = (m', Some e)"
  shows "history_ok (m', got(i := got i @ [e]), fired)"
proof -
  have wf: "watch_wf m" using ok by (simp add: history_ok_def)
  let ?w = "wm_heap m ! i"
  obtain es where hp: "wm_heap m' = (wm_heap m)[i := ?w\<lparr>wt_EventCh := (wt_EventCh ?w)\<lparr>ch_buf := es\<rparr>\<rparr>]"
    and buf: "ch_buf (wt_EventCh ?w) = e # es"
    using run by (auto simp: Watcher_recv_def put_watcher_def chan_recv_def split: list.splits)
  have m': "watch_wf m'" using Watcher_recv_wf [OF wf i] run by simp
  have s: "sent (m', got(i := got i @ [e]), fired) j = sent (m, got, fired) j" if "j < length (wm_heap m)" for j
    using that buf hp by (cases "j = i") (auto simp: sent_def)
  show ?thesis
  proof (rule history_kept [OF ok m'])
    fix j assume j: "j < length (wm_heap m)"
    with s [OF j] show "wt_Path (wm_heap m' ! j) = wt_Path (wm_heap m ! j) \<and> wt_Persistent (wm_heap m' ! j) = wt_Persistent (wm_heap m ! j) \<and>
        wt_triggered (wm_heap m' ! j) = wt_triggered (wm_heap m ! j) \<and>
        sent (m', got(i := got i @ [e]), fired) j = sent (m, got, fired) j"
      by (cases "j = i") (simp_all add: hp)
  qed (use ok i in \<open>auto simp: hp history_ok_def\<close>)
qed

lemma watch_step_history:
  assumes "watch_step s t" "history_ok s"
  shows "history_ok t"
  using assms
proof cases
  case (step_Watch uuid m got fired path persistent)
  let ?m = "fst (Watch_Watch uuid m path persistent)"
  have wf: "watch_wf m" "\<And>i. i \<ge> length (wm_heap m) \<Longrightarrow> got i = []"
    using assms(2) step_Watch by (simp_all add: history_ok_def)
  have hp: "wm_heap ?m = wm_heap m @ [wm_heap ?m ! length (wm_heap m)]"
    and w: "ch_buf (wt_EventCh (wm_heap ?m ! length (wm_heap m))) = []" "\<not> wt_triggered (wm_heap ?m ! length (wm_heap m))"
    by (simp_all add: Watch_Watch_def Let_def)
  have old: "wm_heap ?m ! i = wm_heap m ! i" if "i < length (wm_heap m)" for i
    using that by (simp add: Watch_Watch_def Let_def nth_append)
  have len: "length (wm_heap ?m) = Suc (length (wm_heap m))" by (simp add: Watch_Watch_def Let_def)
  show ?thesis
    using assms(2) Watch_Watch_wf [OF wf(1) step_Watch(3)] wf(2) w
    by (auto simp: step_Watch history_ok_def sent_def len less_Suc_eq old)
next
  case (step_Unwatch i m m' got fired)
  have wf: "watch_wf m" using assms(2) step_Unwatch by (simp add: history_ok_def)
  have hp: "wm_heap m' = (if ch_closed (wt_EventCh (wm_heap m ! i)) then wm_heap m else (wm_heap m)[i := finish (wm_heap m ! i)])"
    using Watch_Unwatch_eq [OF wf step_Unwatch(3)] step_Unwatch(4) by auto
  show ?thesis unfolding step_Unwatch
    by (rule history_kept [OF assms(2) [unfolded step_Unwatch] Watch_Unwatch_wf [OF wf step_Unwatch(3,4)]])
       (use assms(2) step_Unwatch in \<open>auto simp: hp sent_def nth_list_update history_ok_def\<close>)
next
  case (step_Trigger uuid m ev m' got fired)
  then show ?thesis using history_trigger assms(2) by blast
next
  case (step_recv i m m' e got fired)
  then show ?thesis using history_recv assms(2) by blast
qed

interpretation watch_runs: transition_system watch_initial watch_step history_ok
proof
  show "watch_initial s \<Longrightarrow> history_ok s" for s by (simp add: watch_initial_def history_ok_def watch_wf_New) (simp add: NewWatchManager_def)
  show "history_ok s \<Longrightarrow> watch_step s t \<Longrightarrow> history_ok t" for s t by (rule watch_step_history)
qed

text \<open>
  C15. Over any run of the watch manager, in which registrations, removals, events and receptions
  interleave: no operation panics by sending on a closed channel or closing one twice; the table
  lists exactly the watches that are still open; no channel holds more than ten events; what a
  watcher has been sent is, in order and without repetition, a selection of the events triggered
  on its own path; and a one-time watch is sent at most one event in its life.
\<close>

theorem watch_history:
  assumes "reachable watch_initial watch_step (m, got, fired)"
  shows "(\<forall>uuid ev. TriggerEvent uuid m ev \<noteq> None) \<and>
    (\<forall>i < length (wm_heap m). Watch_Unwatch m i \<noteq> None \<and>
      (\<not> ch_closed (wt_EventCh (wm_heap m ! i)) \<longleftrightarrow> i \<in> set (watchers_at m (wt_Path (wm_heap m ! i)))) \<and>
      length (ch_buf (wt_EventCh (wm_heap m ! i))) \<le> 10 \<and>
      subseq (sent (m, got, fired) i) (filter (\<lambda>e. ev_Path e = wt_Path (wm_heap m ! i)) fired) \<and>
      (wt_Persistent (wm_heap m ! i) \<or> length (sent (m, got, fired) i) \<le> 1))"
proof (intro conjI allI impI)
  have ok: "history_ok (m, got, fired)" using watch_runs.reachable_invar assms by blast
  then have wf: "watch_wf m" by (simp add: history_ok_def)
  show "TriggerEvent uuid m ev \<noteq> None" for uuid ev using TriggerEvent_eq [OF wf] by simp
  fix i assume i: "i < length (wm_heap m)"
  show "Watch_Unwatch m i \<noteq> None" using Watch_Unwatch_eq [OF wf i] by simp
  show "\<not> ch_closed (wt_EventCh (wm_heap m ! i)) \<longleftrightarrow> i \<in> set (watchers_at m (wt_Path (wm_heap m ! i)))"
    "length (ch_buf (wt_EventCh (wm_heap m ! i))) \<le> 10"
    using i wf by (auto simp: watch_wf_def event_cap_def)
  show "subseq (sent (m, got, fired) i) (filter (\<lambda>e. ev_Path e = wt_Path (wm_heap m ! i)) fired)"
    "wt_Persistent (wm_heap m ! i) \<or> length (sent (m, got, fired) i) \<le> 1"
    using i ok by (auto simp: history_ok_def split: if_splits)
qed

text \<open>A one-time and a persistent watch on the same path, and two events on it.\<close>

definition watch_pair :: WatchManager where
  "watch_pair = fst (Watch_Watch ''w2'' (fst (Watch_Watch ''w1'' NewWatchManager ''/a'' False)) ''/a'' True)"

definition watch_view :: "WatchManager \<Rightarrow> (string \<times> bool \<times> string list \<times> bool) list" where
  "watch_view m = map (\<lambda>w. (wt_Path w, wt_Persistent w, map (EventType_String \<circ> ev_Type) (ch_buf (wt_EventCh w)),
                            ch_closed (wt_EventCh w))) (wm_heap m)"

lemma watch_pair_reachable: "reachable watch_initial watch_step (watch_pair, \<lambda>_. [], [])"
  unfolding watch_pair_def
  by (rule reach_step [OF reach_step [OF reach_init]]; (rule step_Watch)?)
     (simp_all add: watch_initial_def NewWatchManager_def Watch_Watch_def Let_def)

theorem watch_history_witness:
  "\<exists>m got fired. reachable watch_initial watch_step (m, got, fired) \<and> map ev_ID fired = [''e1'', ''e2''] \<and>
     watch_view m = [(''/a'', False, [''Created''], True), (''/a'', True, [''Created'', ''Deleted''], False)] \<and>
     length (sent (m, got, fired) 0) \<le> 1 \<and> TriggerDelete ''e3'' m ''/a'' \<noteq> None"
proof -
  have "map_option watch_view (Option.bind (TriggerCreate ''e1'' watch_pair ''/a'' ''x'' 0) (\<lambda>m. TriggerDelete ''e2'' m ''/a''))
      = Some [(''/a'', False, [''Created''], True), (''/a'', True, [''Created'', ''Deleted''], False)]"
    by code_simp
  then obtain m1 m2 where run: "TriggerCreate ''e1'' watch_pair ''/a'' ''x'' 0 = Some m1" "TriggerDelete ''e2'' m1 ''/a'' = Some m2"
    and view: "watch_view m2 = [(''/a'', False, [''Created''], True), (''/a'', True, [''Created'', ''Deleted''], False)]"
    unfolding map_option_eq_Some bind_eq_Some_conv by (elim exE conjE) (rule that)
  let ?e1 = "\<lparr>ev_ID = ''e1'', ev_Type = EventCreated, ev_Path = ''/a'', ev_Data = ''x'', ev_Version = 0\<rparr>"
  let ?e2 = "\<lparr>ev_ID = ''e2'', ev_Type = EventDeleted, ev_Path = ''/a'', ev_Data = '''', ev_Version = 0\<rparr>"
  have "reachable watch_initial watch_step (m1, \<lambda>_. [], [?e1])"
    by (rule reach_step [OF watch_pair_reachable])
       (use step_Trigger [OF run(1) [unfolded TriggerCreate_def], of "\<lambda>_. []" "[]"] in simp)
  then have r: "reachable watch_initial watch_step (m2, \<lambda>_. [], [?e1, ?e2])"
    by (rule reach_step) (use step_Trigger [OF run(2) [unfolded TriggerDelete_def], of "\<lambda>_. []" "[?e1]"] in simp)
  have "length (wm_heap m2) = 2" using arg_cong [OF view, of length] by (simp add: watch_view_def)
  moreover have "\<not> wt_Persistent (wm_heap m2 ! 0)"
    using arg_cong [OF view, of "\<lambda>xs. fst (snd (xs ! 0))"] \<open>length (wm_heap m2) = 2\<close> by (simp add: watch_view_def)
  ultimately have "length (sent (m2, \<lambda>_. [], [?e1, ?e2]) 0) \<le> 1" "TriggerDelete ''e3'' m2 ''/a'' \<noteq> None"
    using watch_history [OF r, THEN conjunct2, rule_format, of 0] watch_history [OF r, THEN conjunct1] by (simp_all add: TriggerDelete_def)
  moreover have "map ev_ID [?e1, ?e2] = [''e1'', ''e2'']" by simp
  ultimately show ?thesis using r view by (intro exI [of _ m2] exI [of _ "\<lambda>_. []"] exI [of _ "[?e1, ?e2]"] conjI)
qed

text \<open>The effect of an event on one watch.\<close>

lemma TriggerEvent_watch:
  assumes "watch_wf m" "TriggerEvent uuid m ev = Some m'" "i < length (wm_heap m)"
  shows "let w = wm_heap m ! i; w' = wm_heap m' ! i in
       if wt_Path w = ev_Path ev \<and> \<not> ch_closed (wt_EventCh w)
       then ch_buf (wt_EventCh w') = (if length (ch_buf (wt_EventCh w)) < 10
                                     then ch_buf (wt_EventCh w) @ [ev\<lparr>ev_ID := uuid\<rparr>] else ch_buf (wt_EventCh w)) \<and>
            ch_closed (wt_EventCh w') = (\<not> wt_Persistent w)
       else w' = w"
proof -
  have "i \<in> set (watchers_at m (ev_Path ev)) \<longleftrightarrow> wt_Path (wm_heap m ! i) = ev_Path ev \<and> \<not> ch_closed (wt_EventCh (wm_heap m ! i))"
    using assms(1,3) watch_wf_at [OF assms(1), of i] by (auto simp: watch_wf_def)
  then show ?thesis using assms(2,3) by (auto simp: TriggerEvent_eq [OF assms(1)] event_cap_def Let_def)
qed

text \<open>
  C31. An event reaches exactly the watches on its path. Each of them that has room in its channel
  gets the event, under the fresh id, behind what it already holds; one whose ten places are taken
  loses it. One-time watches among them are closed and leave the table, persistent ones stay in
  their order; every other watch and every other path is untouched.
\<close>

theorem TriggerEvent_exact:
  assumes "watch_wf m"
  shows "\<exists>m'. TriggerEvent uuid m ev = Some m' \<and> length (wm_heap m') = length (wm_heap m) \<and>
    GetWatchCount m' (ev_Path ev) = length (filter (\<lambda>i. wt_Persistent (wm_heap m ! i)) (watchers_at m (ev_Path ev))) \<and>
    (\<forall>path. path \<noteq> ev_Path ev \<longrightarrow> wm_watchers m' path = wm_watchers m path) \<and>
    (\<forall>i < length (wm_heap m). let w = wm_heap m ! i; w' = wm_heap m' ! i in
       if wt_Path w = ev_Path ev \<and> \<not> ch_closed (wt_EventCh w)
       then ch_buf (wt_EventCh w') = (if length (ch_buf (wt_EventCh w)) < 10
                                     then ch_buf (wt_EventCh w) @ [ev\<lparr>ev_ID := uuid\<rparr>] else ch_buf (wt_EventCh w)) \<and>
            ch_closed (wt_EventCh w') = (\<not> wt_Persistent w)
       else w' = w)"
proof -
  obtain m' where m': "TriggerEvent uuid m ev = Some m'"
    "m' = m\<lparr>wm_heap := touch (fire (ev\<lparr>ev_ID := uuid\<rparr>)) (watchers_at m (ev_Path ev)) (wm_heap m),
            wm_watchers := (wm_watchers m)(ev_Path ev := nonempty (filter (\<lambda>i. wt_Persistent (wm_heap m ! i)) (watchers_at m (ev_Path ev))))\<rparr>"
    using TriggerEvent_eq [OF assms] by blast
  show ?thesis
    using TriggerEvent_watch [OF assms m'(1)] by (intro exI [of _ m'] conjI allI impI) (simp_all add: m' GetWatchCount_def nonempty_def)
qed

theorem TriggerEvent_exact_witness:
  "watch_wf watch_pair \<and> (\<exists>m'. TriggerCreate ''e'' watch_pair ''/a'' ''x'' 7 = Some m' \<and> GetWatchCount m' ''/a'' = 1 \<and>
     ch_closed (wt_EventCh (wm_heap m' ! 0)) \<and> length (ch_buf (wt_EventCh (wm_heap m' ! 1))) = 1)"
proof -
  have wf: "watch_wf watch_pair" using watch_runs.reachable_invar [OF watch_pair_reachable] by (simp add: history_ok_def)
  have at: "length (wm_heap watch_pair) = 2" "watchers_at watch_pair ''/a'' = [0, 1]"
    "wt_Path (wm_heap watch_pair ! 0) = ''/a''" "wt_Path (wm_heap watch_pair ! 1) = ''/a''"
    "ch_buf (wt_EventCh (wm_heap watch_pair ! 1)) = []" "\<not> wt_Persistent (wm_heap watch_pair ! 0)" "wt_Persistent (wm_heap watch_pair ! 1)"
    "\<not> ch_closed (wt_EventCh (wm_heap watch_pair ! 0))" "\<not> ch_closed (wt_EventCh (wm_heap watch_pair ! 1))"
    by code_simp+
  let ?e = "\<lparr>ev_ID = '''', ev_Type = EventCreated, ev_Path = ''/a'', ev_Data = ''x'', ev_Version = 7\<rparr>"
  obtain m' where m': "TriggerEvent ''e'' watch_pair ?e = Some m'"
    "GetWatchCount m' (ev_Path ?e) = length (filter (\<lambda>i. wt_Persistent (wm_heap watch_pair ! i)) (watchers_at watch_pair (ev_Path ?e)))"
    and each: "\<forall>i < length (wm_heap watch_pair). let w = wm_heap watch_pair ! i; w' = wm_heap m' ! i in
       if wt_Path w = ev_Path ?e \<and> \<not> ch_closed (wt_EventCh w)
       then ch_buf (wt_EventCh w') = (if length (ch_buf (wt_EventCh w)) < 10
                                     then ch_buf (wt_EventCh w) @ [?e\<lparr>ev_ID := ''e''\<rparr>] else ch_buf (wt_EventCh w)) \<and>
            ch_closed (wt_EventCh w') = (\<not> wt_Persistent w)
       else w' = w"
    using TriggerEvent_exact [OF wf, of "''e''" ?e] by blast
  have "ch_closed (wt_EventCh (wm_heap m' ! 0))" using each [rule_format, of 0] at by (simp add: Let_def)
  moreover have "length (ch_buf (wt_EventCh (wm_heap m' ! 1))) = 1" using each [rule_format, of 1] at by (simp add: Let_def)
  moreover have "GetWatchCount m' ''/a'' = 1" using m'(2) at by simp
  ultimately show ?thesis using wf m'(1) unfolding TriggerCreate_def by (intro conjI exI [of _ m'])
qed

end
