(* ===== verification/Locks.thy ===== *)
theory Locks
  imports StoreTree
begin

text \<open>
  Distributed locks, \<open>internal/lock/manager.go\<close>: a lock is a directory under \<open>/locks\<close>, a request
  for it an ephemeral sequential node in that directory, and the request with the first name in
  the sorted list of children holds the lock.

  A call of \<open>TryLock\<close> interleaves with other calls at every operation of the store and at every
  section under the manager's mutex. It is therefore a machine: the control point, with the local
  variables that are alive there, and one function that takes the call from a control point to the
  next. A waiter's channel, buffered with one place, is an index into the list of channels made so
  far; the entry says whether a token is in the buffer.
\<close>

section \<open>Data\<close>

datatype lock_error = ErrLockNotHeld | ErrLockTimeout | ErrLockExists | LockStoreError store_error

record Lock =
  lk_Name :: string
  lk_Owner :: string
  lk_SessionID :: string
  lk_Path :: string
  lk_Sequence :: u64
  lk_Acquired :: instant

record LockManager =
  lm_locks :: "string \<rightharpoonup> Lock"
  lm_waiters :: "string \<rightharpoonup> nat list"
  lm_chans :: "bool list"

text \<open>
  \<open>NewManager\<close> also installs its own callback in the store: \<open>h\<close> is the value that stands for
  \<open>m.onNodeDeleted\<close> there.
\<close>

definition NewLockManager :: "'h \<Rightarrow> 'h Store \<Rightarrow> 'h Store \<times> LockManager" where
  "NewLockManager h s =
     (SetWatchCallbacks None None (Some h) s,
      \<lparr>lm_locks = Map.empty, lm_waiters = Map.empty, lm_chans = []\<rparr>)"

definition lock_path :: "string \<Rightarrow> string" where
  "lock_path name = ''/locks/'' @ name"

section \<open>Notification\<close>

definition onNodeDeleted :: "string \<Rightarrow> LockManager \<Rightarrow> LockManager" where
  "onNodeDeleted path m =
     (if \<not> strings_HasPrefix path ''/locks/'' then m
      else (let parts = split_on (CHR ''/'') path
            in if length parts < 3 then m
               else (let lockName = parts ! 2
                     in case lm_waiters m lockName of
                          None \<Rightarrow> m
                        | Some [] \<Rightarrow> m
                        | Some (w # ws) \<Rightarrow> m\<lparr>lm_chans := (lm_chans m)[w := True]\<rparr>)))"

section \<open>Requests\<close>

text \<open>\<open>uint64(c-'0')\<close> of a rune: the difference is an \<open>int32\<close> and is sign-extended.\<close>

definition parse_digits :: "string \<Rightarrow> u64" where
  "parse_digits s = foldl (\<lambda>seq c. seq * 10 + word_of_int (wrap32 (c - 48))) 0 (runes s)"

definition parse_sequence :: "string \<Rightarrow> u64" where
  "parse_sequence base =
     (let parts = split_on (CHR ''-'') base
      in if length parts = 2 then parse_digits (parts ! 1) else 0)"

definition new_lock :: "string \<Rightarrow> string \<Rightarrow> string \<Rightarrow> string \<Rightarrow> Lock" where
  "new_lock name owner sessionID nodePath =
     \<lparr>lk_Name = name, lk_Owner = owner, lk_SessionID = sessionID, lk_Path = nodePath,
      lk_Sequence = parse_sequence (strings_TrimPrefix nodePath (lock_path name @ ''/'')),
      lk_Acquired = zero_time\<rparr>"

definition checkLockAcquired :: "'h Store \<Rightarrow> string \<Rightarrow> string \<Rightarrow> store_error + bool" where
  "checkLockAcquired s lockPath ourPath =
     (case Store_GetChildren s lockPath of
        Inl err \<Rightarrow> Inl err
      | Inr children \<Rightarrow>
          if length children = 0 then Inr False
          else (let children = sort_Strings children;
                    ourName = strings_TrimPrefix ourPath (lockPath @ ''/'')
                in Inr (children ! 0 = ourName)))"

definition record_lock :: "instant \<Rightarrow> Lock \<Rightarrow> LockManager \<Rightarrow> LockManager \<times> Lock" where
  "record_lock now lock m =
     (let lock = lock\<lparr>lk_Acquired := now\<rparr>
      in (m\<lparr>lm_locks := (lm_locks m)(lk_Path lock \<mapsto> lock)\<rparr>, lock))"

section \<open>The machine of a call\<close>

text \<open>
  The control points of \<open>TryLock\<close>, then those of \<open>waitForLock\<close>, which carry the waiter's channel
  and the time at which the timer fires (none: wait forever). \<open>AtLeave\<close> is the deferred removal of
  the waiter.
\<close>

datatype lock_pc =
    AtExists | AtMkdir | AtCreate | AtCheck Lock | AtRecord Lock | AtDelete Lock lock_error
  | AtRegister Lock | AtWait Lock nat "instant option" | AtRecheck Lock nat "instant option"
  | AtRecordWaiter Lock nat | AtDeleteWaiter Lock nat lock_error | AtLeave string nat "lock_error + Lock"
  | Returned "lock_error + Lock"

record lock_call =
  lc_name :: string
  lc_owner :: string
  lc_sessionID :: string
  lc_timeout :: duration
  lc_pc :: lock_pc

definition TryLock :: "string \<Rightarrow> string \<Rightarrow> string \<Rightarrow> duration \<Rightarrow> lock_call" where
  "TryLock name owner sessionID timeout =
     \<lparr>lc_name = name, lc_owner = owner, lc_sessionID = sessionID, lc_timeout = timeout, lc_pc = AtExists\<rparr>"

definition Lock_Lock :: "string \<Rightarrow> string \<Rightarrow> string \<Rightarrow> lock_call" where
  "Lock_Lock name owner sessionID = TryLock name owner sessionID 0"

text \<open>The id is made up when it is missing, and never used.\<close>

definition LockWithID :: "string \<Rightarrow> string \<Rightarrow> string \<Rightarrow> string \<Rightarrow> string \<Rightarrow> lock_call" where
  "LockWithID uuid name owner sessionID lockID =
     (let lockID = (if lockID = '''' then uuid else lockID) in Lock_Lock name owner sessionID)"

text \<open>What a step consumes: clock readings, or the channel on which the \<open>select\<close> continues.\<close>

datatype lock_input = Proceed instant instant | Woken | TimerFired instant

definition goto :: "lock_pc \<Rightarrow> lock_call \<Rightarrow> lock_call" where
  "goto pc c = c\<lparr>lc_pc := pc\<rparr>"

type_synonym 'h lock_world = "'h Store \<times> LockManager"

fun TryLock_step :: "lock_input \<Rightarrow> lock_call \<Rightarrow> 'h lock_world \<Rightarrow> (lock_call \<times> 'h lock_world \<times> 'h spawn list) option" where
  "TryLock_step (Proceed t1 t2) c (s, m) =
     (let lockPath = lock_path (lc_name c)
      in case lc_pc c of
           AtExists \<Rightarrow> Some (goto (if \<not> Store_Exists s lockPath then AtMkdir else AtCreate) c, (s, m), [])
         | AtMkdir \<Rightarrow>
             (let (s', ev, r) = Store_Create s t1 t2 lockPath '''' False '''' False
              in Some (goto AtCreate c, (s', m), ev))
         | AtCreate \<Rightarrow>
             (let (s', ev, r) = Store_Create s t1 t2 (lockPath @ ''/lock-'') (lc_owner c) True (lc_sessionID c) True
              in case r of
                   Inl err \<Rightarrow> Some (goto (Returned (Inl (LockStoreError err))) c, (s', m), ev)
                 | Inr nodePath \<Rightarrow>
                     Some (goto (AtCheck (new_lock (lc_name c) (lc_owner c) (lc_sessionID c) nodePath)) c, (s', m), ev))
         | AtCheck lock \<Rightarrow>
             (case checkLockAcquired s lockPath (lk_Path lock) of
                Inl err \<Rightarrow> Some (goto (AtDelete lock (LockStoreError err)) c, (s, m), [])
              | Inr acquired \<Rightarrow>
                  if acquired then Some (goto (AtRecord lock) c, (s, m), [])
                  else if lc_timeout c < 0 then Some (goto (AtDelete lock ErrLockTimeout) c, (s, m), [])
                  else Some (goto (AtRegister lock) c, (s, m), []))
         | AtRecord lock \<Rightarrow>
             (let (m', lock') = record_lock t1 lock m
              in Some (goto (Returned (Inr lock')) c, (s, m'), []))
         | AtDelete lock err \<Rightarrow>
             (let (s', ev, r) = Store_Delete s (lk_Path lock) (- 1)
              in Some (goto (Returned (Inl err)) c, (s', m), ev))
         | _ \<Rightarrow> None)"
| "TryLock_step _ c w = None"

definition remove_waiter :: "string \<Rightarrow> nat \<Rightarrow> LockManager \<Rightarrow> LockManager" where
  "remove_waiter name waiter m =
     (case lm_waiters m name of
        None \<Rightarrow> m
      | Some ws \<Rightarrow>
          if waiter \<in> set ws
          then m\<lparr>lm_waiters := (lm_waiters m)(name \<mapsto> remove_first (\<lambda>w. w = waiter) ws)\<rparr> else m)"

fun waitForLock_step :: "lock_input \<Rightarrow> lock_call \<Rightarrow> 'h lock_world \<Rightarrow> (lock_call \<times> 'h lock_world \<times> 'h spawn list) option" where
  "waitForLock_step (Proceed t1 t2) c (s, m) =
     (case lc_pc c of
        AtRegister lock \<Rightarrow>
          (let waiter = length (lm_chans m);
               ws = (case lm_waiters m (lk_Name lock) of None \<Rightarrow> [] | Some ws \<Rightarrow> ws);
               timer = (if lc_timeout c > 0 then Some (t1 + lc_timeout c) else None)
           in Some (goto (AtWait lock waiter timer) c,
                    (s, m\<lparr>lm_chans := lm_chans m @ [False],
                          lm_waiters := (lm_waiters m)(lk_Name lock \<mapsto> ws @ [waiter])\<rparr>), []))
      | AtRecheck lock waiter timer \<Rightarrow>
          (case checkLockAcquired s (lock_path (lc_name c)) (lk_Path lock) of
             Inl err \<Rightarrow> Some (goto (AtDeleteWaiter lock waiter (LockStoreError err)) c, (s, m), [])
           | Inr acquired \<Rightarrow>
               if acquired then Some (goto (AtRecordWaiter lock waiter) c, (s, m), [])
               else Some (goto (AtWait lock waiter timer) c, (s, m), []))
      | AtRecordWaiter lock waiter \<Rightarrow>
          (let (m', lock') = record_lock t1 lock m
           in Some (goto (AtLeave (lk_Name lock) waiter (Inr lock')) c, (s, m'), []))
      | AtDeleteWaiter lock waiter err \<Rightarrow>
          (let (s', ev, r) = Store_Delete s (lk_Path lock) (- 1)
           in Some (goto (AtLeave (lk_Name lock) waiter (Inl err)) c, (s', m), ev))
      | AtLeave name waiter result \<Rightarrow> Some (goto (Returned result) c, (s, remove_waiter name waiter m), [])
      | _ \<Rightarrow> None)"
| "waitForLock_step Woken c (s, m) =
     (case lc_pc c of
        AtWait lock waiter timer \<Rightarrow>
          if waiter < length (lm_chans m) \<and> lm_chans m ! waiter
          then Some (goto (AtRecheck lock waiter timer) c, (s, m\<lparr>lm_chans := (lm_chans m)[waiter := False]\<rparr>), [])
          else None
      | _ \<Rightarrow> None)"
| "waitForLock_step (TimerFired now) c (s, m) =
     (case lc_pc c of
        AtWait lock waiter (Some deadline) \<Rightarrow>
          if deadline \<le> now then Some (goto (AtDeleteWaiter lock waiter ErrLockTimeout) c, (s, m), []) else None
      | _ \<Rightarrow> None)"

definition lock_call_step ::
  "lock_input \<Rightarrow> lock_call \<Rightarrow> 'h lock_world \<Rightarrow> (lock_call \<times> 'h lock_world \<times> 'h spawn list) option" where
  "lock_call_step inp c w =
     (case TryLock_step inp c w of Some r \<Rightarrow> Some r | None \<Rightarrow> waitForLock_step inp c w)"

section \<open>Release and inspection\<close>

text \<open>
  The table \<open>locks\<close> is written and never read, so both halves of \<open>Unlock\<close> are one step. A
  \<open>*Lock\<close> may be nil.
\<close>

definition Unlock :: "'h lock_world \<Rightarrow> Lock option \<Rightarrow> 'h lock_world \<times> 'h spawn list \<times> (lock_error + unit)" where
  "Unlock w lock =
     (case (w, lock) of
        ((s, m), None) \<Rightarrow> ((s, m), [], Inl ErrLockNotHeld)
      | ((s, m), Some lock) \<Rightarrow>
          if lk_Path lock = '''' then ((s, m), [], Inl ErrLockNotHeld)
          else (let m' = m\<lparr>lm_locks := (lm_locks m)(lk_Path lock := None)\<rparr>;
                    (s', ev, r) = Store_Delete s (lk_Path lock) (- 1)
                in ((s', m'), ev, (case r of Inl err \<Rightarrow> Inl (LockStoreError err) | Inr _ \<Rightarrow> Inr ()))))"

definition IsLocked :: "'h Store \<Rightarrow> string \<Rightarrow> bool" where
  "IsLocked s name =
     (case Store_GetChildren s (lock_path name) of Inl err \<Rightarrow> False | Inr children \<Rightarrow> length children > 0)"

text \<open>Two reads of the store, at different moments.\<close>

definition GetLockHolder :: "'h Store \<Rightarrow> 'h Store \<Rightarrow> string \<Rightarrow> store_error + bytes" where
  "GetLockHolder s s' name =
     (let lockPath = lock_path name
      in case Store_GetChildren s lockPath of
           Inl err \<Rightarrow> Inl err
         | Inr children \<Rightarrow>
             if length children = 0 then Inr ''''
             else (let children = sort_Strings children; holderPath = lockPath @ ''/'' @ children ! 0
                   in case Store_Get s' holderPath of Inl err \<Rightarrow> Inl err | Inr node \<Rightarrow> Inr (sn_Data node)))"

definition GetQueueLength :: "'h Store \<Rightarrow> string \<Rightarrow> nat" where
  "GetQueueLength s name =
     (case Store_GetChildren s (lock_path name) of Inl err \<Rightarrow> 0 | Inr children \<Rightarrow> length children)"

section \<open>The path of a request\<close>

lemma split_on_slash: "split_on c (s @ c # t) = split_on c s @ split_on c t"
proof (induction s)
  case (Cons x s)
  obtain w ws where "split_on c s = w # ws" by (meson split_on_nonempty list.exhaust)
  with Cons show ?case by auto
qed simp

lemma path_elems_child: "good_elem c \<Longrightarrow> path_elems (p @ CHR ''/'' # c) = path_elems p @ [c]"
  by (auto simp: path_elems_def split_on_slash split_on_word clean_elems_def clean_step_def good_elem_def)

definition ticket :: "string \<Rightarrow> u64 \<Rightarrow> string list" where
  "ticket name k = path_elems (lock_path name) @ [''lock-'' @ formatSequence k]"

lemma good_ticket [simp]: "list_all good_elem (ticket name k)"
  using good_elem_seq [of "''lock-''" k] by (auto simp: ticket_def good_elem_def)

lemma ticket_parts [simp]:
  "butlast (ticket name k) = path_elems (lock_path name)" "last (ticket name k) = ''lock-'' @ formatSequence k"
  by (simp_all add: ticket_def)

lemma ticket_number: "ticket name k = ticket name' k' \<Longrightarrow> k = k'"
  by (simp add: ticket_def formatSequence_inject)

lemma request_elems: "path_elems (lock_path name @ ''/lock-'') = path_elems (lock_path name) @ [''lock-'']"
  using path_elems_child [of "''lock-''" "lock_path name"] by (simp add: good_elem_def)

lemma request_ticket: "seq_elems True s (path_elems (lock_path name @ ''/lock-'')) = ticket name (s_seqCounter s + 1)"
  by (simp add: seq_elems_def request_elems ticket_def)

text \<open>
  A name whose directory is already in normal form; only such a lock can be acquired, since the
  check compares against the path with the directory, as it was written, cut off.
\<close>

definition plain :: "string \<Rightarrow> bool" where
  "plain name \<longleftrightarrow> lock_path name = path_of (path_elems (lock_path name))"

lemma plain_dir: "plain name \<Longrightarrow> path_elems (lock_path name) \<noteq> []"
  by (auto simp: plain_def lock_path_def)

lemma plain_locks: "plain name \<Longrightarrow> hd (path_elems (lock_path name)) = ''locks''"
proof -
  assume plain: "plain name"
  obtain e es where e: "path_elems (lock_path name) = e # es" using plain_dir [OF plain] by (cases "path_elems (lock_path name)") auto
  then have "good_elem e" using path_elems_good [of "lock_path name"] by simp
  then have no: "CHR ''/'' \<notin> set e" by (simp add: good_elem_def)
  have "''/locks/'' @ name = CHR ''/'' # e @ concat (map (\<lambda>c. CHR ''/'' # c) es)"
    using plain e by (simp add: plain_def lock_path_def path_of_def)
  then have eq: "''locks'' @ CHR ''/'' # name = e @ concat (map (\<lambda>c. CHR ''/'' # c) es)" by simp
  have "takeWhile (\<lambda>x. x \<noteq> CHR ''/'') (''locks'' @ CHR ''/'' # name) = ''locks''" by simp
  moreover have "takeWhile (\<lambda>x. x \<noteq> CHR ''/'') (e @ concat (map (\<lambda>c. CHR ''/'' # c) es)) = e"
    using no by (subst takeWhile_append2) (auto, cases es, auto)
  ultimately show ?thesis using e eq by (metis list.sel(1))
qed

lemma plain_ticket:
  assumes "plain name"
  shows "path_of (ticket name k) = lock_path name @ ''/'' @ ''lock-'' @ formatSequence k"
  using assms plain_dir [OF assms] by (simp add: ticket_def path_of_snoc plain_def)

lemma plain_good: "good_elem name \<Longrightarrow> plain name"
proof -
  assume good: "good_elem name"
  have "lock_path name = path_of [''locks'', name]" by (simp add: lock_path_def path_of_def)
  moreover have "list_all good_elem [''locks'', name]" using good by (simp add: good_elem_def)
  ultimately show "plain name" by (simp add: plain_def)
qed

section \<open>The check\<close>

text \<open>
  A positive check means that the name is plain and that the request is the first of everything
  there is in the lock's directory.
\<close>

lemma check_acquired:
  assumes wf: "store_wf s" and acq: "checkLockAcquired s (lock_path name) (path_of (ticket name k)) = Inr True"
  shows "plain name" and "tree_of s u \<noteq> None \<Longrightarrow> u \<noteq> [] \<Longrightarrow> butlast u = path_elems (lock_path name) \<Longrightarrow> ''lock-'' @ formatSequence k \<le> last u"
proof -
  let ?dir = "path_elems (lock_path name)" and ?c = "''lock-'' @ formatSequence k"
  have t: "tree_wf (tree_of s)" using wf by blast
  obtain n where n: "tree_of s ?dir = Some n" "sn_Children n \<noteq> []"
    and first: "sort_Strings (sn_Children n) ! 0 = strings_TrimPrefix (path_of (ticket name k)) (lock_path name @ ''/'')"
    using acq by (auto simp: checkLockAcquired_def store_simps Let_def split: option.splits if_splits)
  let ?d = "sort_Strings (sn_Children n) ! 0"
  have d: "?d \<in> set (sn_Children n)" using n(2) by (metis length_greater_0_conv nth_mem set_sort_Strings sort_Strings_Nil_iff)
  then have good: "good_elem ?d" using tree_wf_child [OF t n(1)] tree_wf_node [OF t] by fastforce
  have pre: "strings_HasPrefix (path_of (ticket name k)) (lock_path name @ ''/'')"
  proof (rule ccontr)
    assume "\<not> ?thesis"
    then have "?d = path_of (ticket name k)" using first by (simp add: strings_TrimPrefix_def)
    then have "CHR ''/'' \<in> set ?d" using hd_path_of [of "ticket name k"] path_of_not_empty [of "ticket name k"] by (metis list.set_sel(1))
    then show False using good by (simp add: good_elem_def)
  qed
  then obtain r where r: "path_of (ticket name k) = (lock_path name @ ''/'') @ r" using HasPrefix_iff by blast
  then have "?d = r" using first by (simp only: TrimPrefix_append)
  then have path: "path_of (ticket name k) = lock_path name @ CHR ''/'' # ?d" using r by simp
  then have "ticket name k = ?dir @ [?d]" using path_elems_child [OF good, of "lock_path name"] good_ticket path_elems_path_of by metis
  then have c: "?d = ?c" by (simp add: ticket_def)
  show plain: "plain name"
  proof (cases "?dir = []")
    case True
    then have "path_of (ticket name k) = CHR ''/'' # ?d" using c by (simp add: ticket_def path_of_def)
    with path have "lock_path name = []" by simp
    then show ?thesis by (simp add: lock_path_def)
  next
    case False
    then have "path_of (ticket name k) = path_of ?dir @ CHR ''/'' # ?d" using c by (simp add: ticket_def path_of_snoc)
    with path show ?thesis by (simp add: plain_def)
  qed
  assume u: "tree_of s u \<noteq> None" "u \<noteq> []" "butlast u = ?dir"
  then have "tree_of s (?dir @ [last u]) \<noteq> None" by (metis append_butlast_last_id)
  then have "last u \<in> set (sn_Children n)" using tree_wf_parent [OF t, of ?dir "last u"] n(1) plain_dir [OF plain] by fastforce
  moreover have "hd (sort_Strings (sn_Children n)) = ?c" using c n(2) by (metis hd_conv_nth sort_Strings_Nil_iff)
  ultimately show "?c \<le> last u" using hd_sort_Strings d c by metis
qed

section \<open>Sequence numbers of locks\<close>

lemma digit_rune: "is_digit c \<Longrightarrow> word_of_int (wrap32 (of_char c - 48)) = (of_nat (digit_value c) :: u64)"
proof -
  assume c: "is_digit c"
  then have v: "(of_char c :: int) - 48 = int (digit_value c)" "digit_value c < 10"
    by (auto simp: is_digit_def digit_value_def less_eq_char_def of_nat_diff)
  then show ?thesis by (simp add: wrap32_id)
qed

lemma parse_digits_value: "list_all is_digit s \<Longrightarrow> parse_digits s = of_nat (dec_value s)"
proof -
  assume d: "list_all is_digit s"
  then have a: "ascii s" by (auto simp: ascii_def list_all_iff is_digit_def less_eq_char_def)
  have "foldl (\<lambda>seq c. seq * 10 + word_of_int (wrap32 (c - 48))) (of_nat v) (map of_char s) =
      (of_nat (foldl (\<lambda>v c. 10 * v + digit_value c) v s) :: u64)" for v
    using d
  proof (induction s arbitrary: v)
    case (Cons c s)
    from Cons.IH [of "10 * v + digit_value c"] Cons.prems show ?case by (simp add: digit_rune mult.commute)
  qed simp
  from this [of 0] show ?thesis by (simp add: parse_digits_def runes_ascii [OF a] dec_value_foldl)
qed

lemma parse_sequence_format: "parse_sequence (''lock-'' @ formatSequence k) = k"
proof -
  have "CHR ''-'' \<notin> set (formatSequence k)" using formatSequence_value(1) [of k] by (auto simp: list_all_iff is_digit_def)
  then have "split_on CHR ''-'' (''lock-'' @ formatSequence k) = [''lock'', formatSequence k]"
    using split_on_append [of "CHR ''-''" "''lock''" "formatSequence k"] by (simp add: split_on_word)
  then show ?thesis by (simp add: parse_sequence_def Let_def parse_digits_value formatSequence_value)
qed

lemma new_lock_sequence: "plain name \<Longrightarrow> lk_Sequence (new_lock name owner sid (path_of (ticket name k))) = k"
proof -
  assume "plain name"
  then have "path_of (ticket name k) = (lock_path name @ ''/'') @ ''lock-'' @ formatSequence k" by (simp add: plain_ticket)
  then show ?thesis unfolding new_lock_def by (simp only: TrimPrefix_append parse_sequence_format Lock.simps)
qed

end
