(* ===== verification/LockSystem.thy ===== *)
theory LockSystem
  imports Locks StoreProperties
begin

text \<open>
  Any number of lock calls at once, over one lock manager and one store that other clients use as
  well: the interleavings of \<open>internal/lock/manager.go\<close>. A step is one operation of the store or
  one section under the manager's mutex by one call, a release, an operation of another client, the
  end of a session, or a callback goroutine that the store has started.
\<close>

section \<open>The abstract argument: tickets\<close>

text \<open>
  Requests are tickets that compete with their rivals. The laws: a ticket that becomes live is new,
  is not granted at that moment and comes after every rival that was issued before; a ticket that
  becomes granted comes before every live rival. Then a live granted ticket stays before all live
  rivals, and no two rivals are granted at the same time.
\<close>

locale ticket_lock = transition_system init step invar
  for init :: "'s \<Rightarrow> bool" and step :: "'s \<Rightarrow> 's \<Rightarrow> bool" and invar :: "'s \<Rightarrow> bool" +
  fixes live :: "'s \<Rightarrow> 't \<Rightarrow> bool"
    and granted :: "'s \<Rightarrow> 't \<Rightarrow> bool"
    and rival :: "'t \<Rightarrow> 't \<Rightarrow> bool"
    and before :: "'t \<Rightarrow> 't \<Rightarrow> bool"
  assumes rival_sym: "rival t u \<Longrightarrow> rival u t"
    and before_asym: "before t u \<Longrightarrow> \<not> before u t"
    and none_granted: "init s \<Longrightarrow> \<not> granted s t"
    and fresh_last: "invar s \<Longrightarrow> step s s' \<Longrightarrow> live s' u \<Longrightarrow> \<not> live s u \<Longrightarrow>
        \<not> granted s' u \<and> (\<forall>t. granted s t \<and> live s t \<and> rival t u \<longrightarrow> before t u)"
    and grant_first: "invar s \<Longrightarrow> step s s' \<Longrightarrow> granted s' t \<Longrightarrow> \<not> granted s t \<Longrightarrow>
        live s' u \<Longrightarrow> rival t u \<Longrightarrow> t = u \<or> before t u"
begin

definition ordered :: "'s \<Rightarrow> bool" where
  "ordered s \<longleftrightarrow> (\<forall>t u. granted s t \<and> live s t \<and> live s u \<and> rival t u \<longrightarrow> t = u \<or> before t u)"

lemma ordered_step:
  assumes "invar s" "step s s'" "ordered s"
  shows "ordered s'"
  unfolding ordered_def
proof (intro allI impI)
  fix t u assume *: "granted s' t \<and> live s' t \<and> live s' u \<and> rival t u"
  show "t = u \<or> before t u"
  proof (cases "granted s t")
    case True
    have "live s t" using fresh_last [OF assms(1,2), of t] * by blast
    show ?thesis
    proof (cases "live s u")
      case True
      then show ?thesis using assms(3) * \<open>granted s t\<close> \<open>live s t\<close> by (auto simp: ordered_def)
    next
      case False
      then show ?thesis using fresh_last [OF assms(1,2), of u] * \<open>granted s t\<close> \<open>live s t\<close> by blast
    qed
  next
    case False
    then show ?thesis using grant_first [OF assms(1,2)] * by blast
  qed
qed

lemma reachable_ordered: "reachable init step s \<Longrightarrow> ordered s"
proof (induction rule: reachable.induct)
  case (reach_init s)
  then show ?case by (auto simp: ordered_def none_granted)
next
  case (reach_step s t)
  then show ?case using ordered_step reachable_invar by blast
qed

lemma first_come:
  assumes "reachable init step s" "granted s t" "live s t" "live s u" "rival t u"
  shows "t = u \<or> before t u"
  using reachable_ordered [OF assms(1)] assms(2-) by (auto simp: ordered_def)

lemma exclusion:
  assumes "reachable init step s" "granted s t" "live s t" "granted s u" "live s u" "rival t u"
  shows "t = u"
  using first_come [OF assms(1), of t u] first_come [OF assms(1), of u t] assms(2-) rival_sym before_asym by blast

end

section \<open>The system\<close>

text \<open>
  The callbacks that the program installs in a store: the lock manager's own, and those that the
  server puts in their place (\<open>cmd/skylock/main.go\<close>).
\<close>

datatype store_callback = LockDeleted | WatchCreated | WatchChanged | WatchDeleted

record lock_system =
  ls_store :: "store_callback Store"
  ls_manager :: LockManager
  ls_calls :: "lock_call list"
  ls_spawned :: "store_callback spawn list"

datatype lock_label =
    StartCall string string string duration
  | CallStep nat lock_input
  | ReleaseLock "Lock option"
  | RunCallback nat
  | ClientCreate instant instant string bytes bool string bool
  | ClientSet instant string bytes int
  | ClientDelete string int
  | SessionEnd "string list" string

text \<open>Of the callbacks only the lock manager's own changes this system.\<close>

fun run_callback :: "store_callback spawn \<Rightarrow> LockManager \<Rightarrow> LockManager" where
  "run_callback (GoDelete LockDeleted path) m = onNodeDeleted path m"
| "run_callback _ m = m"

fun lock_exec :: "lock_label \<Rightarrow> lock_system \<Rightarrow> lock_system option" where
  "lock_exec (StartCall name owner sid timeout) y =
     Some (y\<lparr>ls_calls := ls_calls y @ [TryLock name owner sid timeout]\<rparr>)"
| "lock_exec (CallStep i inp) y =
     (if i < length (ls_calls y)
      then (case lock_call_step inp (ls_calls y ! i) (ls_store y, ls_manager y) of
              None \<Rightarrow> None
            | Some (c, (s, m), ev) \<Rightarrow>
                Some (y\<lparr>ls_store := s, ls_manager := m, ls_calls := (ls_calls y)[i := c], ls_spawned := ls_spawned y @ ev\<rparr>))
      else None)"
| "lock_exec (ReleaseLock lock) y =
     (case Unlock (ls_store y, ls_manager y) lock of
        ((s, m), ev, r) \<Rightarrow> Some (y\<lparr>ls_store := s, ls_manager := m, ls_spawned := ls_spawned y @ ev\<rparr>))"
| "lock_exec (RunCallback k) y =
     (if k < length (ls_spawned y)
      then Some (y\<lparr>ls_manager := run_callback (ls_spawned y ! k) (ls_manager y),
                   ls_spawned := take k (ls_spawned y) @ drop (Suc k) (ls_spawned y)\<rparr>)
      else None)"
| "lock_exec (ClientCreate t1 t2 path data ephemeral sid sequential) y =
     (case Store_Create (ls_store y) t1 t2 path data ephemeral sid sequential of
        (s, ev, r) \<Rightarrow> Some (y\<lparr>ls_store := s, ls_spawned := ls_spawned y @ ev\<rparr>))"
| "lock_exec (ClientSet now path data version) y =
     (case Store_Set (ls_store y) now path data version of
        (s, ev, r) \<Rightarrow> Some (y\<lparr>ls_store := s, ls_spawned := ls_spawned y @ ev\<rparr>))"
| "lock_exec (ClientDelete path version) y =
     (case Store_Delete (ls_store y) path version of
        (s, ev, r) \<Rightarrow> Some (y\<lparr>ls_store := s, ls_spawned := ls_spawned y @ ev\<rparr>))"
| "lock_exec (SessionEnd keys sid) y =
     (case Store_DeleteEphemerals keys (ls_store y) sid of
        (s, ev, r) \<Rightarrow> Some (y\<lparr>ls_store := s, ls_spawned := ls_spawned y @ ev\<rparr>))"

fun lock_run :: "lock_label list \<Rightarrow> lock_system \<Rightarrow> lock_system option" where
  "lock_run [] y = Some y"
| "lock_run (l # ls) y = (case lock_exec l y of None \<Rightarrow> None | Some y' \<Rightarrow> lock_run ls y')"

text \<open>
  The conditions on a step: the sequence counter stays within the ten digits of the node names,
  other clients put no ephemeral nodes below \<open>/locks\<close>, and the walk over the node map visits every
  node once. Everything else is allowed, deleting lock nodes included.
\<close>

definition below_locks :: "string list \<Rightarrow> bool" where
  "below_locks es \<longleftrightarrow> es \<noteq> [] \<and> hd es = ''locks''"

fun lock_guard :: "lock_label \<Rightarrow> lock_system \<Rightarrow> bool" where
  "lock_guard (CallStep i inp) y \<longleftrightarrow> unat (s_seqCounter (ls_store y)) + 1 < 10 ^ 10"
| "lock_guard (ClientCreate t1 t2 path data ephemeral sid sequential) y \<longleftrightarrow>
     unat (s_seqCounter (ls_store y)) + 1 < 10 ^ 10 \<and> \<not> (ephemeral \<and> below_locks (path_elems path))"
| "lock_guard (SessionEnd keys sid) y \<longleftrightarrow> key_order (s_nodes (ls_store y)) keys"
| "lock_guard _ y \<longleftrightarrow> True"

definition lock_step :: "lock_system \<Rightarrow> lock_system \<Rightarrow> bool" where
  "lock_step y y' \<longleftrightarrow> (\<exists>l. lock_guard l y \<and> lock_exec l y = Some y')"

text \<open>The manager is set up over a store that may have been in use, and no call has been made.\<close>

definition lock_initial :: "lock_system \<Rightarrow> bool" where
  "lock_initial y \<longleftrightarrow> reachable store_initial store_step (ls_store y) \<and>
     unat (s_seqCounter (ls_store y)) < 10 ^ 10 \<and> ls_calls y = [] \<and> ls_spawned y = [] \<and>
     ls_manager y = snd (NewLockManager LockDeleted (ls_store y))"

section \<open>Requests and grants\<close>

fun pc_lock :: "lock_pc \<Rightarrow> Lock option" where
  "pc_lock (AtCheck l) = Some l"
| "pc_lock (AtRecord l) = Some l"
| "pc_lock (AtDelete l e) = Some l"
| "pc_lock (AtRegister l) = Some l"
| "pc_lock (AtWait l w t) = Some l"
| "pc_lock (AtRecheck l w t) = Some l"
| "pc_lock (AtRecordWaiter l w) = Some l"
| "pc_lock (AtDeleteWaiter l w e) = Some l"
| "pc_lock (AtLeave n w (Inr l)) = Some l"
| "pc_lock (Returned (Inr l)) = Some l"
| "pc_lock _ = None"

fun pc_granted :: "lock_pc \<Rightarrow> bool" where
  "pc_granted (AtRecord l) = True"
| "pc_granted (AtRecordWaiter l w) = True"
| "pc_granted (AtLeave n w (Inr l)) = True"
| "pc_granted (Returned (Inr l)) = True"
| "pc_granted _ = False"

text \<open>The lock that a call works for, with the number of its node.\<close>

definition request :: "lock_call \<Rightarrow> u64 \<Rightarrow> bool" where
  "request c k \<longleftrightarrow> (\<exists>l. pc_lock (lc_pc c) = Some l \<and> lk_Name l = lc_name c \<and>
     lk_Path l = path_of (ticket (lc_name c) k) \<and> (plain (lc_name c) \<longrightarrow> lk_Sequence l = k))"

definition calls_ok :: "u64 \<Rightarrow> lock_call list \<Rightarrow> bool" where
  "calls_ok ctr cs \<longleftrightarrow>
     (\<forall>c \<in> set cs. pc_lock (lc_pc c) \<noteq> None \<longrightarrow> (\<exists>k. request c k \<and> k \<le> ctr)) \<and>
     (\<forall>c \<in> set cs. pc_granted (lc_pc c) \<longrightarrow> plain (lc_name c)) \<and>
     (\<forall>i < length cs. \<forall>j < length cs. \<forall>k. request (cs ! i) k \<and> request (cs ! j) k \<longrightarrow> i = j)"

definition lock_inv :: "lock_system \<Rightarrow> bool" where
  "lock_inv y \<longleftrightarrow> store_wf (ls_store y) \<and> unat (s_seqCounter (ls_store y)) < 10 ^ 10 \<and>
     calls_ok (s_seqCounter (ls_store y)) (ls_calls y)"

text \<open>The node of a ticket is there and still ephemeral.\<close>

definition eph :: "'h Store \<Rightarrow> string list \<Rightarrow> bool" where
  "eph s t \<longleftrightarrow> (\<exists>n. tree_of s t = Some n \<and> sn_Ephemeral n)"

type_synonym lock_ticket = "string \<times> u64"

definition ticket_live :: "lock_system \<Rightarrow> lock_ticket \<Rightarrow> bool" where
  "ticket_live y t \<longleftrightarrow> plain (fst t) \<and> eph (ls_store y) (ticket (fst t) (snd t)) \<and>
     (\<exists>c \<in> set (ls_calls y). lc_name c = fst t \<and> request c (snd t))"

definition ticket_granted :: "lock_system \<Rightarrow> lock_ticket \<Rightarrow> bool" where
  "ticket_granted y t \<longleftrightarrow> (\<exists>c \<in> set (ls_calls y). lc_name c = fst t \<and> request c (snd t) \<and> pc_granted (lc_pc c))"

section \<open>What the operations of the store do to ephemeral nodes\<close>

definition store_quiet :: "'h Store \<Rightarrow> 'h Store \<Rightarrow> bool" where
  "store_quiet s s' \<longleftrightarrow> store_wf s' \<and> (s_seqCounter s' = s_seqCounter s \<or> s_seqCounter s' = s_seqCounter s + 1) \<and>
     (\<forall>t. below_locks t \<and> eph s' t \<longrightarrow> eph s t)"

lemma store_quiet_refl: "store_wf s \<Longrightarrow> store_quiet s s"
  by (simp add: store_quiet_def)

lemma Store_Create_fail:
  assumes "Store_Create s t1 t2 p data ephm sid seqn = (s', ev, Inl e)"
  shows "tree_of s' = tree_of s" "s_seqCounter s' = s_seqCounter s \<or> s_seqCounter s' = s_seqCounter s + 1"
  using assms by (auto simp: Store_Create_elems [OF refl] seq_store_def split: if_splits)

lemma seq_elems_snoc [simp]: "es \<noteq> [] \<Longrightarrow> butlast es @ [last (seq_elems seqn s es)] = seq_elems seqn s es"
  by (metis append_butlast_last_id extend_neq_Nil seq_elems_butlast seq_elems_def)

lemma Store_Create_eph:
  assumes "Store_Create s t1 t2 p data ephm sid seqn = (s', ev, r)" and "eph s' t"
  shows "eph s t \<or> ephm \<and> t = seq_elems seqn s (path_elems p) \<and> r = Inr (path_of t)"
proof (cases r)
  case (Inl e)
  then show ?thesis using Store_Create_fail(1) assms by (metis eph_def)
next
  case (Inr q)
  note ok = Store_Create_ok [OF assms(1) [unfolded Inr]]
  show ?thesis
    using assms(2) ok(1) Inr seq_elems_butlast [of "path_elems p" seqn s]
    by (auto simp: eph_def ok(4) tree_insert_def new_node_def add_child_def split: if_splits)
qed

lemma Store_Create_counter:
  "s_seqCounter (fst (Store_Create s t1 t2 p data ephm sid seqn)) \<in> {s_seqCounter s, s_seqCounter s + 1}"
  by (auto simp: Store_Create_elems [OF refl] seq_store_def)

lemma long_names: "e @ formatSequence k \<noteq> ''locks''"
  using formatSequence_length_ge [of k] by (auto dest: arg_cong [of _ _ length])

lemma not_below_locks:
  assumes "\<not> below_locks es" "below_locks (seq_elems seqn s es)"
  shows False
proof (cases es rule: rev_cases)
  case Nil
  then show False using assms(2) long_names [of "''''"] by (auto simp: seq_elems_def extend_last_def below_locks_def split: if_splits)
next
  case (snoc ds d)
  then show False using assms long_names [of d]
    by (cases ds) (auto simp: seq_elems_def extend_last_def below_locks_def split: if_splits)
qed

lemma Create_quiet:
  assumes "store_wf s" "Store_Create s t1 t2 p data ephm sid seqn = (s', ev, r)" "\<not> (ephm \<and> below_locks (path_elems p))"
  shows "store_quiet s s'"
proof -
  have "store_wf s'" "s_seqCounter s' \<in> {s_seqCounter s, s_seqCounter s + 1}"
    using Store_Create_wf [OF assms(1)] Store_Create_counter assms(2) by (metis fst_conv)+
  moreover have "below_locks t \<Longrightarrow> eph s' t \<Longrightarrow> eph s t" for t
    using Store_Create_eph [OF assms(2), of t] assms(3) not_below_locks [of "path_elems p" seqn s] by blast
  ultimately show ?thesis by (auto simp: store_quiet_def)
qed

lemma Create_fail_quiet:
  assumes "store_wf s" "Store_Create s t1 t2 p data ephm sid seqn = (s', ev, Inl e)"
  shows "store_quiet s s'"
  using Store_Create_fail [OF assms(2)] Store_Create_wf [OF assms(1), of t1 t2 p data ephm sid seqn] assms(2)
  by (auto simp: store_quiet_def eph_def)

lemma Store_counter [simp]:
  "s_seqCounter (fst (Store_Set s now p data v)) = s_seqCounter s"
  "s_seqCounter (fst (Store_Delete s p v)) = s_seqCounter s"
  "s_seqCounter (fst (Store_DeleteEphemerals keys s sid)) = s_seqCounter s"
  by (auto simp: Store_Set_def Store_Delete_def Store_DeleteEphemerals_def Let_def split: option.splits)

lemma Set_quiet:
  assumes "store_wf s" "Store_Set s now p data v = (s', ev, r)"
  shows "store_quiet s s'"
proof -
  have "store_wf s'" using Store_Set_wf [OF assms(1)] assms(2) by (metis fst_conv)
  moreover have "tree_of s' = fst (tree_set (tree_of s) (path_elems p) now data v)"
    using Store_Set_refines(1) [of s now p data v] assms(2) by simp
  then have "eph s' t \<Longrightarrow> eph s t" for t by (auto simp: eph_def tree_set_def Let_def split: option.splits if_splits)
  moreover have "s_seqCounter s' = s_seqCounter s" using Store_counter(1) assms(2) by (metis fst_conv)
  ultimately show ?thesis by (auto simp: store_quiet_def)
qed

lemma Delete_quiet:
  assumes "store_wf s" "Store_Delete s p v = (s', ev, r)"
  shows "store_quiet s s'"
proof -
  have "store_wf s'" using Store_Delete_wf [OF assms(1)] assms(2) by (metis fst_conv)
  moreover have "tree_of s' = fst (tree_delete (tree_of s) (path_elems p) v)"
    using Store_Delete_refines(1) [OF assms(1), of p v] assms(2) by simp
  then have "eph s' t \<Longrightarrow> eph s t" for t
    by (auto simp: eph_def tree_delete_def tree_remove_def del_child_def split: option.splits if_splits)
  moreover have "s_seqCounter s' = s_seqCounter s" using Store_counter(2) assms(2) by (metis fst_conv)
  ultimately show ?thesis by (auto simp: store_quiet_def)
qed

lemma Expire_quiet:
  assumes "store_wf s" "key_order (s_nodes s) keys" "Store_DeleteEphemerals keys s sid = (s', ev, r)"
  shows "store_quiet s s'"
proof -
  have "store_wf s'" using Store_DeleteEphemerals_wf [OF assms(1,2)] assms(3) by (metis fst_conv)
  moreover have "tree_of s' = prune (owned_elems sid (tree_of s)) (tree_of s)"
    using Store_DeleteEphemerals_tree(1) [OF assms(1,2), of sid] assms(3) by simp
  then have "eph s' t \<Longrightarrow> eph s t" for t by (auto simp: eph_def prune_def split: if_splits)
  moreover have "s_seqCounter s' = s_seqCounter s" using Store_counter(3) assms(3) by (metis fst_conv)
  ultimately show ?thesis by (auto simp: store_quiet_def)
qed

section \<open>Steps of a call\<close>

text \<open>
  What a step of a call can do: create its node and start to compete, or go on with the lock it
  has, which becomes granted only by a positive check.
\<close>

definition same_lock :: "Lock \<Rightarrow> Lock \<Rightarrow> bool" where
  "same_lock l l' \<longleftrightarrow> lk_Name l = lk_Name l' \<and> lk_Path l = lk_Path l' \<and> lk_Sequence l = lk_Sequence l'"

definition creates_node :: "lock_call \<Rightarrow> 'h Store \<Rightarrow> lock_call \<Rightarrow> 'h Store \<Rightarrow> bool" where
  "creates_node c s c' s' \<longleftrightarrow> (\<exists>t1 t2 ev p.
     Store_Create s t1 t2 (lock_path (lc_name c) @ ''/lock-'') (lc_owner c) True (lc_sessionID c) True = (s', ev, Inr p) \<and>
     lc_pc c = AtCreate \<and> c' = goto (AtCheck (new_lock (lc_name c) (lc_owner c) (lc_sessionID c) p)) c)"

definition goes_on :: "lock_call \<Rightarrow> 'h Store \<Rightarrow> lock_call \<Rightarrow> 'h Store \<Rightarrow> bool" where
  "goes_on c s c' s' \<longleftrightarrow> lc_name c' = lc_name c \<and> store_quiet s s' \<and>
     (\<forall>l'. pc_lock (lc_pc c') = Some l' \<longrightarrow> (\<exists>l. pc_lock (lc_pc c) = Some l \<and> same_lock l l')) \<and>
     (pc_granted (lc_pc c') \<longrightarrow> pc_granted (lc_pc c) \<or>
        s' = s \<and> (\<exists>l. pc_lock (lc_pc c) = Some l \<and> checkLockAcquired s (lock_path (lc_name c)) (lk_Path l) = Inr True))"

lemma same_lock_refl [simp]: "same_lock l l"
  by (simp add: same_lock_def)

lemma goto_simps [simp]: "lc_pc (goto pc c) = pc" "lc_name (goto pc c) = lc_name c"
  by (simp_all add: goto_def)

lemma goes_on_goto:
  assumes "store_quiet s s'" "\<And>l'. pc_lock pc = Some l' \<Longrightarrow> \<exists>l. pc_lock (lc_pc c) = Some l \<and> same_lock l l'"
    and "pc_granted pc \<Longrightarrow> pc_granted (lc_pc c) \<or>
        s' = s \<and> (\<exists>l. pc_lock (lc_pc c) = Some l \<and> checkLockAcquired s (lock_path (lc_name c)) (lk_Path l) = Inr True)"
  shows "goes_on c s (goto pc c) s'"
  using assms by (auto simp: goes_on_def)

lemma TryLock_step_cases:
  assumes wf: "store_wf s" and run: "TryLock_step inp c (s, m) = Some (c', (s', m'), ev)"
  shows "creates_node c s c' s' \<or> goes_on c s c' s'"
proof -
  obtain t1 t2 where inp: "inp = Proceed t1 t2" using run by (cases inp) auto
  show ?thesis
  proof (cases "lc_pc c")
    case AtMkdir
    with run inp Create_quiet [OF wf, of t1 t2 _ _ False] show ?thesis
      by (auto simp: Let_def split: prod.splits intro!: goes_on_goto)
  next
    case AtCreate
    obtain s1 e1 r where r: "Store_Create s t1 t2 (lock_path (lc_name c) @ ''/lock-'') (lc_owner c) True (lc_sessionID c) True = (s1, e1, r)"
      by (metis prod.collapse)
    show ?thesis
    proof (cases r)
      case (Inl e)
      with run inp AtCreate r Create_fail_quiet [OF wf r [unfolded Inl]] show ?thesis
        by (auto simp: Let_def intro!: goes_on_goto)
    next
      case (Inr p)
      have "creates_node c s c' s'" unfolding creates_node_def
        using run inp AtCreate r Inr by (intro exI [of _ t1] exI [of _ t2] exI [of _ ev] exI [of _ p]) (auto simp: Let_def)
      then show ?thesis ..
    qed
  next
    case (AtDelete l e)
    with run inp Delete_quiet [OF wf, of "lk_Path l" "- 1"] show ?thesis
      by (auto simp: Let_def split: prod.splits intro!: goes_on_goto)
  qed (use run inp wf in \<open>auto simp: Let_def record_lock_def same_lock_def store_quiet_refl split: sum.splits if_splits intro!: goes_on_goto\<close>)
qed

lemma waitForLock_step_cases:
  assumes wf: "store_wf s" and run: "waitForLock_step inp c (s, m) = Some (c', (s', m'), ev)"
  shows "goes_on c s c' s'"
proof (cases inp)
  case (Proceed t1 t2)
  show ?thesis
  proof (cases "lc_pc c")
    case (AtDeleteWaiter l w e)
    with run Proceed Delete_quiet [OF wf, of "lk_Path l" "- 1"] show ?thesis
      by (auto simp: Let_def split: prod.splits intro!: goes_on_goto)
  next
    case (AtLeave n w r)
    with run Proceed wf show ?thesis by (cases r) (auto simp: store_quiet_refl intro!: goes_on_goto)
  qed (use run Proceed wf in \<open>auto simp: Let_def record_lock_def same_lock_def store_quiet_refl split: sum.splits if_splits intro!: goes_on_goto\<close>)
qed (use run wf in \<open>auto simp: store_quiet_refl split: lock_pc.splits option.splits if_splits intro!: goes_on_goto\<close>)

lemma call_step_cases:
  assumes "store_wf s" "lock_call_step inp c (s, m) = Some (c', (s', m'), ev)"
  shows "creates_node c s c' s' \<or> goes_on c s c' s'"
  using assms TryLock_step_cases waitForLock_step_cases
  by (auto simp: lock_call_step_def split: option.splits) blast+

section \<open>Steps of the system\<close>

definition others_act :: "lock_system \<Rightarrow> lock_system \<Rightarrow> bool" where
  "others_act y y' \<longleftrightarrow> store_quiet (ls_store y) (ls_store y') \<and>
     (ls_calls y' = ls_calls y \<or> (\<exists>name owner sid timeout. ls_calls y' = ls_calls y @ [TryLock name owner sid timeout]))"

definition call_acts :: "nat \<Rightarrow> lock_call \<Rightarrow> lock_system \<Rightarrow> lock_system \<Rightarrow> bool" where
  "call_acts i c' y y' \<longleftrightarrow> i < length (ls_calls y) \<and> ls_calls y' = (ls_calls y)[i := c'] \<and>
     (creates_node (ls_calls y ! i) (ls_store y) c' (ls_store y') \<or> goes_on (ls_calls y ! i) (ls_store y) c' (ls_store y'))"

lemma counter_room:
  assumes "store_quiet s s' \<or> s_seqCounter s' = s_seqCounter s + 1" "unat (s_seqCounter s) + 1 < 10 ^ 10"
  shows "unat (s_seqCounter s') < 10 ^ 10 \<and> s_seqCounter s \<le> s_seqCounter s'"
  using assms u64_Suc [of "s_seqCounter s"] by (auto simp: store_quiet_def word_le_nat_alt)

lemma creates_node_effect:
  assumes "store_wf s" "creates_node c s c' s'"
  shows "store_wf s'" "s_seqCounter s' = s_seqCounter s + 1" "lc_name c' = lc_name c" "\<not> pc_granted (lc_pc c')"
    "request c' k \<longleftrightarrow> k = s_seqCounter s + 1" "eph s' t \<Longrightarrow> t \<noteq> ticket (lc_name c) (s_seqCounter s + 1) \<Longrightarrow> eph s t"
proof -
  obtain t1 t2 ev p where p: "Store_Create s t1 t2 (lock_path (lc_name c) @ ''/lock-'') (lc_owner c) True (lc_sessionID c) True = (s', ev, Inr p)"
    and c': "c' = goto (AtCheck (new_lock (lc_name c) (lc_owner c) (lc_sessionID c) p)) c"
    using assms(2) by (auto simp: creates_node_def)
  note ok = Store_Create_ok [OF p]
  have path: "p = path_of (ticket (lc_name c) (s_seqCounter s + 1))" using ok(1) by (simp add: request_ticket)
  show "store_wf s'" using Store_Create_wf [OF assms(1)] p by (metis fst_conv)
  show "s_seqCounter s' = s_seqCounter s + 1" using ok(5) by simp
  show "lc_name c' = lc_name c" "\<not> pc_granted (lc_pc c')" by (simp_all add: c')
  have "lk_Name (new_lock (lc_name c) (lc_owner c) (lc_sessionID c) p) = lc_name c"
    "lk_Path (new_lock (lc_name c) (lc_owner c) (lc_sessionID c) p) = p" by (simp_all add: new_lock_def)
  then show "request c' k \<longleftrightarrow> k = s_seqCounter s + 1"
    using new_lock_sequence [of "lc_name c" "lc_owner c" "lc_sessionID c" "s_seqCounter s + 1"] path
    by (auto simp: request_def c' path_of_inject dest: ticket_number)
  show "eph s' t \<Longrightarrow> t \<noteq> ticket (lc_name c) (s_seqCounter s + 1) \<Longrightarrow> eph s t"
    using Store_Create_eph [OF p, of t] by (simp add: request_ticket)
qed

lemma Unlock_quiet:
  assumes wf: "store_wf s" and u: "Unlock (s, m) lo = ((s', m'), ev, r)"
  shows "store_quiet s s' \<and> s_seqCounter s' = s_seqCounter s"
proof (cases "\<exists>l. lo = Some l \<and> lk_Path l \<noteq> ''''")
  case True
  then obtain l where l: "lo = Some l" "lk_Path l \<noteq> ''''" by blast
  obtain s1 e1 r1 where d: "Store_Delete s (lk_Path l) (- 1) = (s1, e1, r1)" by (cases "Store_Delete s (lk_Path l) (- 1)") auto
  then have "s' = s1" using u l by (simp add: Unlock_def Let_def)
  moreover have "s_seqCounter s1 = s_seqCounter s" using Store_counter(2) d by (metis fst_conv)
  ultimately show ?thesis using Delete_quiet [OF wf d] by simp
next
  case False
  then have "s' = s" using u by (cases lo) (auto simp: Unlock_def)
  then show ?thesis using wf by (simp add: store_quiet_refl)
qed

lemma call_exec:
  assumes inv: "lock_inv y" and guard: "lock_guard (CallStep i inp) y" and run: "lock_exec (CallStep i inp) y = Some y'"
  shows "unat (s_seqCounter (ls_store y')) < 10 ^ 10 \<and> s_seqCounter (ls_store y) \<le> s_seqCounter (ls_store y') \<and>
     (\<exists>i c'. call_acts i c' y y')"
proof -
  let ?s = "ls_store y"
  have wf: "store_wf ?s" using inv by (simp add: lock_inv_def)
  obtain c' s' m' ev where c': "i < length (ls_calls y)" "lock_call_step inp (ls_calls y ! i) (?s, ls_manager y) = Some (c', (s', m'), ev)"
    and y': "ls_store y' = s'" "ls_calls y' = (ls_calls y)[i := c']"
    using run by (auto split: if_splits option.splits)
  note cases = call_step_cases [OF wf c'(2)]
  then have "store_quiet ?s s' \<or> s_seqCounter s' = s_seqCounter ?s + 1"
    using creates_node_effect(2) [OF wf] by (auto simp: goes_on_def)
  then have "unat (s_seqCounter s') < 10 ^ 10 \<and> s_seqCounter ?s \<le> s_seqCounter s'"
    using counter_room guard by simp
  moreover have "call_acts i c' y y'" using cases c'(1) y' by (simp add: call_acts_def)
  ultimately show ?thesis using y' by blast
qed

lemma lock_exec_cases:
  assumes inv: "lock_inv y" and guard: "lock_guard l y" and run: "lock_exec l y = Some y'"
  shows "unat (s_seqCounter (ls_store y')) < 10 ^ 10 \<and> s_seqCounter (ls_store y) \<le> s_seqCounter (ls_store y') \<and>
     (others_act y y' \<or> (\<exists>i c'. call_acts i c' y y'))"
proof -
  let ?s = "ls_store y"
  have wf: "store_wf ?s" and ctr: "unat (s_seqCounter ?s) < 10 ^ 10" using inv by (simp_all add: lock_inv_def)
  show ?thesis
  proof (cases l)
    case (StartCall name owner sid timeout)
    then show ?thesis using run ctr wf by (auto simp: others_act_def store_quiet_refl) blast
  next
    case (CallStep i inp)
    then show ?thesis using call_exec [OF inv] guard run by blast
  next
    case (ReleaseLock lo)
    obtain s m ev r where u: "Unlock (?s, ls_manager y) lo = ((s, m), ev, r)" by (cases "Unlock (?s, ls_manager y) lo") auto
    note Unlock_quiet [OF wf u]
    then show ?thesis using run ReleaseLock u ctr by (auto simp: others_act_def)
  next
    case (RunCallback k)
    then show ?thesis using run ctr wf by (auto simp: others_act_def store_quiet_refl split: if_splits)
  next
    case (ClientCreate t1 t2 path data ephm sid sequential)
    obtain s ev r where c: "Store_Create ?s t1 t2 path data ephm sid sequential = (s, ev, r)" by (metis prod.collapse)
    have "store_quiet ?s s" using Create_quiet [OF wf c] guard ClientCreate by simp
    then show ?thesis using run guard ClientCreate c counter_room [of ?s s] by (auto simp: others_act_def)
  next
    case (ClientSet now path data v)
    obtain s ev r where c: "Store_Set ?s now path data v = (s, ev, r)" by (metis prod.collapse)
    then have "s_seqCounter s = s_seqCounter ?s" using Store_counter(1) by (metis fst_conv)
    then show ?thesis using run ClientSet c ctr Set_quiet [OF wf c] by (auto simp: others_act_def)
  next
    case (ClientDelete path v)
    obtain s ev r where c: "Store_Delete ?s path v = (s, ev, r)" by (metis prod.collapse)
    then have "s_seqCounter s = s_seqCounter ?s" using Store_counter(2) by (metis fst_conv)
    then show ?thesis using run ClientDelete c ctr Delete_quiet [OF wf c] by (auto simp: others_act_def)
  next
    case (SessionEnd keys sid)
    obtain s ev r where c: "Store_DeleteEphemerals keys ?s sid = (s, ev, r)" by (metis prod.collapse)
    then have "s_seqCounter s = s_seqCounter ?s" using Store_counter(3) by (metis fst_conv)
    then show ?thesis using run guard SessionEnd c ctr Expire_quiet [OF wf _ c] by (auto simp: others_act_def)
  qed
qed

lemma request_unique: "request c k \<Longrightarrow> request c k' \<Longrightarrow> k = k'"
  by (auto simp: request_def path_of_inject dest: ticket_number)

lemma goes_on_request: "goes_on c s c' s' \<Longrightarrow> request c' k \<Longrightarrow> request c k"
  unfolding goes_on_def request_def same_lock_def by (metis (no_types))

lemma goes_on_lock:
  assumes "goes_on c s c' s'" "pc_lock (lc_pc c') \<noteq> None" "request c k"
  shows "request c' k"
  using assms unfolding goes_on_def request_def same_lock_def by (metis (no_types) option.exhaust option.inject)

lemma new_call [simp]: "\<not> request (TryLock name owner sid timeout) k" "pc_lock (lc_pc (TryLock name owner sid timeout)) = None"
  "\<not> pc_granted (lc_pc (TryLock name owner sid timeout))"
  by (simp_all add: request_def TryLock_def)

lemma calls_ok_add: "calls_ok ctr cs \<Longrightarrow> calls_ok ctr (cs @ [TryLock name owner sid timeout])"
  by (auto simp: calls_ok_def nth_append less_Suc_eq split: if_splits)

lemma calls_ok_mono: "calls_ok ctr cs \<Longrightarrow> ctr \<le> ctr' \<Longrightarrow> calls_ok ctr' cs"
  unfolding calls_ok_def by (meson order_trans)

lemma calls_ok_lock: "calls_ok ctr cs \<Longrightarrow> c \<in> set cs \<Longrightarrow> pc_lock (lc_pc c) \<noteq> None \<Longrightarrow> \<exists>k. request c k \<and> k \<le> ctr"
  unfolding calls_ok_def by blast

lemma calls_ok_plain: "calls_ok ctr cs \<Longrightarrow> c \<in> set cs \<Longrightarrow> pc_granted (lc_pc c) \<Longrightarrow> plain (lc_name c)"
  unfolding calls_ok_def by blast

lemma calls_ok_unique:
  "calls_ok ctr cs \<Longrightarrow> i < length cs \<Longrightarrow> j < length cs \<Longrightarrow> request (cs ! i) k \<Longrightarrow> request (cs ! j) k \<Longrightarrow> i = j"
  unfolding calls_ok_def by blast

lemma request_lock: "request c k \<Longrightarrow> pc_lock (lc_pc c) \<noteq> None"
  by (auto simp: request_def)

lemma calls_ok_request:
  assumes "calls_ok ctr cs" "c \<in> set cs" "request c k"
  shows "k \<le> ctr"
proof -
  obtain k' where "request c k'" "k' \<le> ctr" using calls_ok_lock [OF assms(1,2)] request_lock [OF assms(3)] by blast
  then show ?thesis using request_unique [OF assms(3)] by blast
qed

lemma calls_ok_update:
  assumes ok: "calls_ok ctr cs" and i: "i < length cs" and le: "ctr \<le> ctr'"
    and req: "\<And>k. request c' k \<Longrightarrow> request (cs ! i) k \<or> ctr < k"
    and lock: "pc_lock (lc_pc c') \<noteq> None \<Longrightarrow> \<exists>k. request c' k \<and> k \<le> ctr'"
    and grant: "pc_granted (lc_pc c') \<Longrightarrow> plain (lc_name c')"
  shows "calls_ok ctr' (cs[i := c'])"
proof -
  have old: "k \<le> ctr" if "j < length cs" "request (cs ! j) k" for j k
    using calls_ok_request [OF ok _ that(2)] that(1) by simp
  have uniq: "a = b" if a: "a < length cs" "b < length cs" and r: "request (cs[i := c'] ! a) k" "request (cs[i := c'] ! b) k" for a b k
  proof (cases "k \<le> ctr")
    case True
    have "request (cs ! x) k" if "x < length cs" "request (cs[i := c'] ! x) k" for x
      using that req [of k] i True by (cases "x = i") auto
    then show ?thesis using calls_ok_unique [OF ok] a r by blast
  next
    case False
    have "x = i" if "x < length cs" "request (cs[i := c'] ! x) k" for x
      using that old [of x k] False by (cases "x = i") auto
    then show ?thesis using a r by blast
  qed
  have mem: "c \<in> set cs \<or> c = c'" if "c \<in> set (cs[i := c'])" for c using that set_update_subset_insert by fastforce
  show ?thesis
    unfolding calls_ok_def
  proof (intro conjI ballI allI impI)
    show "\<exists>k. request c k \<and> k \<le> ctr'" if "c \<in> set (cs[i := c'])" "pc_lock (lc_pc c) \<noteq> None" for c
      using mem [OF that(1)] that(2) lock calls_ok_mono [OF ok le] by (auto simp: calls_ok_def)
    show "plain (lc_name c)" if "c \<in> set (cs[i := c'])" "pc_granted (lc_pc c)" for c
      using mem [OF that(1)] that(2) grant ok by (auto simp: calls_ok_def)
  qed (use uniq in auto)
qed

lemma word_Suc_less: "x \<le> x + 1 \<Longrightarrow> x < x + (1 :: u64)"
  by (metis add.right_neutral add_left_cancel order_le_less zero_neq_one)

lemma call_acts_inv:
  assumes inv: "lock_inv y" and act: "call_acts i c' y y'"
    and ctr: "unat (s_seqCounter (ls_store y')) < 10 ^ 10" "s_seqCounter (ls_store y) \<le> s_seqCounter (ls_store y')"
  shows "lock_inv y'"
proof -
  let ?s = "ls_store y" and ?s' = "ls_store y'" and ?c = "ls_calls y ! i"
  have i: "i < length (ls_calls y)" and calls: "ls_calls y' = (ls_calls y)[i := c']" using act by (simp_all add: call_acts_def)
  have wf: "store_wf ?s" and ok: "calls_ok (s_seqCounter ?s) (ls_calls y)" using inv by (simp_all add: lock_inv_def)
  have mem: "?c \<in> set (ls_calls y)" using i by simp
  have "store_wf ?s' \<and> calls_ok (s_seqCounter ?s') (ls_calls y')"
  proof (cases "creates_node ?c ?s c' ?s'")
    case True
    note new = creates_node_effect [OF wf True]
    have lt: "s_seqCounter ?s < s_seqCounter ?s'" using ctr(2) new(2) word_Suc_less by simp
    have "calls_ok (s_seqCounter ?s') ((ls_calls y)[i := c'])"
      by (rule calls_ok_update [OF ok i ctr(2)]) (use new lt in auto)
    then show ?thesis using new(1) calls by simp
  next
    case False
    then have on: "goes_on ?c ?s c' ?s'" using act by (simp add: call_acts_def)
    have lock: "\<exists>k. request c' k \<and> k \<le> s_seqCounter ?s'" if l: "pc_lock (lc_pc c') \<noteq> None"
    proof -
      have "pc_lock (lc_pc ?c) \<noteq> None" using on l unfolding goes_on_def by blast
      then obtain k where "request ?c k" "k \<le> s_seqCounter ?s" using calls_ok_lock [OF ok mem] by blast
      then show ?thesis using goes_on_lock [OF on l] ctr(2) by (meson order_trans)
    qed
    have grant: "plain (lc_name c')" if g: "pc_granted (lc_pc c')"
    proof (cases "pc_granted (lc_pc ?c)")
      case True
      then show ?thesis using calls_ok_plain [OF ok mem] on by (simp add: goes_on_def)
    next
      case False
      then obtain l where l: "pc_lock (lc_pc ?c) = Some l" "checkLockAcquired ?s (lock_path (lc_name ?c)) (lk_Path l) = Inr True"
        using on g unfolding goes_on_def by blast
      moreover obtain k where "request ?c k" using calls_ok_lock [OF ok mem] l(1) by blast
      ultimately have "checkLockAcquired ?s (lock_path (lc_name ?c)) (path_of (ticket (lc_name ?c) k)) = Inr True"
        by (simp add: request_def)
      then show ?thesis using check_acquired(1) [OF wf] on by (simp add: goes_on_def)
    qed
    have "calls_ok (s_seqCounter ?s') ((ls_calls y)[i := c'])"
      by (rule calls_ok_update [OF ok i ctr(2) _ lock grant]) (use goes_on_request [OF on] in auto)
    then show ?thesis using on calls by (simp add: goes_on_def store_quiet_def)
  qed
  then show ?thesis using ctr(1) by (simp add: lock_inv_def)
qed

lemma lock_step_inv: "lock_inv y \<Longrightarrow> lock_step y y' \<Longrightarrow> lock_inv y'"
proof -
  assume inv: "lock_inv y" and "lock_step y y'"
  then obtain l where "lock_guard l y" "lock_exec l y = Some y'" by (auto simp: lock_step_def)
  note cases = lock_exec_cases [OF inv this]
  show ?thesis
  proof (cases "others_act y y'")
    case True
    then have "calls_ok (s_seqCounter (ls_store y)) (ls_calls y')"
      using inv calls_ok_add by (auto simp: others_act_def lock_inv_def)
    then show ?thesis using True cases calls_ok_mono by (auto simp: others_act_def store_quiet_def lock_inv_def)
  next
    case False
    then show ?thesis using cases call_acts_inv [OF inv] by blast
  qed
qed

lemma ticket_below: "plain name \<Longrightarrow> below_locks (ticket name k)"
  using plain_dir [of name] plain_locks [of name] by (simp add: ticket_def below_locks_def)

text \<open>The two laws of tickets for the steps of the system.\<close>

lemma live_creator:
  assumes inv: "lock_inv y" and step: "lock_step y y'" and live: "ticket_live y' u" "\<not> ticket_live y u"
  obtains i c' where "creates_node (ls_calls y ! i) (ls_store y) c' (ls_store y')" "ls_calls y' = (ls_calls y)[i := c']"
    "s_seqCounter (ls_store y) \<le> s_seqCounter (ls_store y')"
proof -
  let ?s = "ls_store y" and ?s' = "ls_store y'"
  obtain l where "lock_guard l y" "lock_exec l y = Some y'" using step by (auto simp: lock_step_def)
  note cases = lock_exec_cases [OF inv this]
  obtain name k where u: "u = (name, k)" by fastforce
  have plain: "plain name" and e: "eph ?s' (ticket name k)" using live(1) u by (simp_all add: ticket_live_def)
  obtain c where c: "c \<in> set (ls_calls y')" "lc_name c = name" "request c k" using live(1) u by (auto simp: ticket_live_def)
  have quiet: False if q: "store_quiet ?s ?s'" "c \<in> set (ls_calls y) \<or> (\<exists>d \<in> set (ls_calls y). lc_name d = name \<and> request d k)"
  proof -
    have "eph ?s (ticket name k)" using q(1) e ticket_below [OF plain] unfolding store_quiet_def by blast
    then show False using live(2) u plain q(2) c by (auto simp: ticket_live_def)
  qed
  have "\<not> others_act y y'" using quiet c by (auto simp: others_act_def)
  then obtain i c' where act: "call_acts i c' y y'" using cases by blast
  have i: "ls_calls y ! i \<in> set (ls_calls y)" and calls: "ls_calls y' = (ls_calls y)[i := c']" using act by (simp_all add: call_acts_def)
  have "\<not> goes_on (ls_calls y ! i) ?s c' ?s'"
  proof
    assume on: "goes_on (ls_calls y ! i) ?s c' ?s'"
    have "c = c' \<or> c \<in> set (ls_calls y)" using c(1) calls set_update_subset_insert by fastforce
    moreover have "store_quiet ?s ?s'" "lc_name c' = lc_name (ls_calls y ! i)" using on by (simp_all add: goes_on_def)
    ultimately show False using quiet goes_on_request [OF on, of k] c i by metis
  qed
  then show thesis using that act cases by (auto simp: call_acts_def)
qed

lemma live_is_new:
  assumes inv: "lock_inv y" and step: "lock_step y y'" and live: "ticket_live y' u" "\<not> ticket_live y u"
  shows "snd u = s_seqCounter (ls_store y) + 1 \<and> s_seqCounter (ls_store y) < snd u \<and> \<not> ticket_granted y' u"
proof -
  let ?s = "ls_store y" and ?s' = "ls_store y'"
  have wf: "store_wf ?s" and ok: "calls_ok (s_seqCounter ?s) (ls_calls y)" using inv by (simp_all add: lock_inv_def)
  obtain name k where u: "u = (name, k)" by fastforce
  obtain i c' where new: "creates_node (ls_calls y ! i) ?s c' ?s'" and calls: "ls_calls y' = (ls_calls y)[i := c']"
    and le: "s_seqCounter ?s \<le> s_seqCounter ?s'" using live_creator [OF inv step live] .
  note eff = creates_node_effect [OF wf new]
  have lt: "s_seqCounter ?s < s_seqCounter ?s + 1" using le eff(2) word_Suc_less by simp
  have mem: "d = c' \<or> d \<in> set (ls_calls y)" if "d \<in> set (ls_calls y')" for d using that calls set_update_subset_insert by fastforce
  have k: "k = s_seqCounter ?s + 1"
  proof (rule ccontr)
    assume ne: "k \<noteq> s_seqCounter ?s + 1"
    obtain c where c: "c \<in> set (ls_calls y')" "lc_name c = name" "request c k" using live(1) u by (auto simp: ticket_live_def)
    then have "c \<in> set (ls_calls y)" using mem ne eff(5) by blast
    moreover have "eph ?s (ticket name k)" using eff(6) [of "ticket name k"] live(1) u ne ticket_number by (auto simp: ticket_live_def)
    ultimately show False using live u c by (auto simp: ticket_live_def)
  qed
  have "\<not> ticket_granted y' u"
  proof
    assume "ticket_granted y' u"
    then obtain d where d: "d \<in> set (ls_calls y')" "request d k" "pc_granted (lc_pc d)" using u by (auto simp: ticket_granted_def)
    then have "d \<in> set (ls_calls y)" using mem eff(4) by blast
    then show False using calls_ok_request [OF ok _ d(2)] lt k by simp
  qed
  then show ?thesis using u k lt by simp
qed

lemma granted_is_first:
  assumes inv: "lock_inv y" and step: "lock_step y y'" and granted: "ticket_granted y' t" "\<not> ticket_granted y t"
    and live: "ticket_live y' u" "fst t = fst u"
  shows "snd t \<le> snd u"
proof -
  let ?s = "ls_store y" and ?s' = "ls_store y'"
  obtain l where "lock_guard l y" "lock_exec l y = Some y'" using step by (auto simp: lock_step_def)
  note cases = lock_exec_cases [OF inv this] and inv' = lock_step_inv [OF inv step]
  have wf: "store_wf ?s" and ok: "calls_ok (s_seqCounter ?s) (ls_calls y)" using inv by (simp_all add: lock_inv_def)
  obtain c where c: "c \<in> set (ls_calls y')" "lc_name c = fst t" "request c (snd t)" "pc_granted (lc_pc c)"
    using granted(1) by (auto simp: ticket_granted_def)
  have not_old: "c \<notin> set (ls_calls y)" using c granted(2) by (auto simp: ticket_granted_def)
  then have "\<not> others_act y y'" using c by (auto simp: others_act_def)
  then obtain i c' where act: "call_acts i c' y y'" using cases by blast
  let ?c = "ls_calls y ! i"
  have i: "?c \<in> set (ls_calls y)" and calls: "ls_calls y' = (ls_calls y)[i := c']" using act by (simp_all add: call_acts_def)
  have eq: "c = c'" using not_old c(1) calls set_update_subset_insert by fastforce
  then have on: "goes_on ?c ?s c' ?s'" using act c(4) creates_node_effect(4) [OF wf] by (auto simp: call_acts_def)
  have req: "request ?c (snd t)" "lc_name ?c = fst t" using goes_on_request [OF on] on c eq by (auto simp: goes_on_def)
  then have "\<not> pc_granted (lc_pc ?c)" using granted(2) i by (auto simp: ticket_granted_def)
  then obtain l where same: "?s' = ?s" and l: "pc_lock (lc_pc ?c) = Some l" "checkLockAcquired ?s (lock_path (lc_name ?c)) (lk_Path l) = Inr True"
    using on c(4) eq unfolding goes_on_def by blast
  then have chk: "checkLockAcquired ?s (lock_path (fst t)) (path_of (ticket (fst t) (snd t))) = Inr True"
    using req by (simp add: request_def)
  have "eph ?s (ticket (fst t) (snd u))" using live same by (simp add: ticket_live_def)
  then have "tree_of ?s (ticket (fst t) (snd u)) \<noteq> None" by (auto simp: eph_def)
  then have "formatSequence (snd t) \<le> formatSequence (snd u)"
    using check_acquired(2) [OF wf chk, of "ticket (fst t) (snd u)"] by (simp add: ticket_def)
  moreover have "snd t \<le> s_seqCounter ?s'" "snd u \<le> s_seqCounter ?s'" "unat (s_seqCounter ?s') < 10 ^ 10"
    using inv' c live(1) calls_ok_request by (auto simp: lock_inv_def ticket_live_def)
  ultimately show ?thesis
    using formatSequence_order [of "snd u" "snd t"] by (simp add: word_le_nat_alt not_le [symmetric])
qed

interpretation lock_tickets: ticket_lock lock_initial lock_step lock_inv ticket_live ticket_granted
  "\<lambda>t u. fst t = fst u" "\<lambda>t u. snd t < snd u"
proof
  show "lock_initial y \<Longrightarrow> lock_inv y" for y
    using stores.reachable_invar by (auto simp: lock_initial_def lock_inv_def calls_ok_def)
  show "lock_inv y \<Longrightarrow> lock_step y y' \<Longrightarrow> lock_inv y'" for y y' by (rule lock_step_inv)
  show "lock_initial y \<Longrightarrow> \<not> ticket_granted y t" for y t by (simp add: lock_initial_def ticket_granted_def)
  show "\<not> ticket_granted y' u \<and> (\<forall>t. ticket_granted y t \<and> ticket_live y t \<and> fst t = fst u \<longrightarrow> snd t < snd u)"
    if "lock_inv y" "lock_step y y'" "ticket_live y' u" "\<not> ticket_live y u" for y y' u
  proof -
    have "snd t \<le> s_seqCounter (ls_store y)" if "ticket_granted y t" for t
      using that \<open>lock_inv y\<close> calls_ok_request by (auto simp: ticket_granted_def lock_inv_def)
    then show ?thesis using live_is_new [OF that] by (meson le_less_trans)
  qed
  show "t = u \<or> snd t < snd u"
    if "lock_inv y" "lock_step y y'" "ticket_granted y' t" "\<not> ticket_granted y t" "ticket_live y' u" "fst t = fst u" for y y' t u
    using granted_is_first [OF that] that(6) by (metis order_le_less prod_eqI)
qed auto

end
