(* ===== verification/LockProperties.thy ===== *)
theory LockProperties
  imports LockSystem
begin

text \<open>
  What the locks promise and where the promise breaks, over \<open>internal/lock/manager.go\<close>: mutual
  exclusion and the order of grants for every interleaving, the uncontended case, and the ways in
  which a waiting call is never woken.
\<close>

section \<open>Mutual exclusion and fairness\<close>

text \<open>The node behind a lock still exists: neither released nor gone with its session.\<close>

definition lock_alive :: "lock_system \<Rightarrow> Lock \<Rightarrow> bool" where
  "lock_alive y l \<longleftrightarrow> (case Store_Get (ls_store y) (lk_Path l) of Inl e \<Rightarrow> False | Inr n \<Rightarrow> sn_Ephemeral n)"

lemma call_ticket:
  assumes "lock_inv y" "c \<in> set (ls_calls y)" "pc_lock (lc_pc c) = Some l"
  obtains k where "request c k" "lk_Name l = lc_name c"
    "plain (lc_name c) \<Longrightarrow> lk_Sequence l = k" "plain (lc_name c) \<Longrightarrow> lock_alive y l \<Longrightarrow> ticket_live y (lc_name c, k)"
    "pc_granted (lc_pc c) \<Longrightarrow> ticket_granted y (lc_name c, k)" "pc_granted (lc_pc c) \<Longrightarrow> plain (lc_name c)"
proof -
  have ok: "calls_ok (s_seqCounter (ls_store y)) (ls_calls y)" using assms(1) by (simp add: lock_inv_def)
  obtain k where k: "request c k" using calls_ok_lock [OF ok assms(2)] assms(3) by auto
  then have l: "lk_Name l = lc_name c" "lk_Path l = path_of (ticket (lc_name c) k)" "plain (lc_name c) \<Longrightarrow> lk_Sequence l = k"
    using assms(3) by (auto simp: request_def)
  have "lock_alive y l \<Longrightarrow> eph (ls_store y) (ticket (lc_name c) k)"
    by (auto simp: lock_alive_def l(2) store_simps eph_def split: option.splits)
  then show thesis using that [OF k l(1,3)] k assms(2) calls_ok_plain [OF ok assms(2)]
    by (auto simp: ticket_live_def ticket_granted_def)
qed

text \<open>
  C1. Mutual exclusion: however lock calls, releases, session ends, callbacks and the operations
  of other clients interleave, two calls that have returned locks of the same name whose nodes
  still exist are the same call. The sequence counter must fit the ten digits of the node names,
  and other clients must not put ephemeral nodes below \<open>/locks\<close>.
\<close>

theorem mutual_exclusion:
  assumes "reachable lock_initial lock_step y"
    and "i < length (ls_calls y)" "lc_pc (ls_calls y ! i) = Returned (Inr l)" "lock_alive y l"
    and "j < length (ls_calls y)" "lc_pc (ls_calls y ! j) = Returned (Inr l')" "lock_alive y l'"
    and "lk_Name l = lk_Name l'"
  shows "i = j"
proof -
  have inv: "lock_inv y" using lock_tickets.reachable_invar assms(1) by blast
  let ?c = "ls_calls y ! i" and ?d = "ls_calls y ! j"
  obtain k where k: "request ?c k" "lk_Name l = lc_name ?c" "ticket_granted y (lc_name ?c, k)" "ticket_live y (lc_name ?c, k)"
    using call_ticket [OF inv, of ?c l] assms(2-4) by auto
  obtain k' where k': "request ?d k'" "lk_Name l' = lc_name ?d" "ticket_granted y (lc_name ?d, k')" "ticket_live y (lc_name ?d, k')"
    using call_ticket [OF inv, of ?d l'] assms(5-7) by auto
  have "k = k'" using lock_tickets.exclusion [OF assms(1) k(3,4) k'(3,4)] assms(8) k(2) k'(2) by simp
  then show ?thesis using calls_ok_unique k(1) k'(1) assms(2,5) inv by (auto simp: lock_inv_def)
qed

text \<open>
  C12. Locks are granted in the order of the requests: a call that has been granted a lock that is
  still alive has the smallest sequence number of all calls, waiting or not, whose request for
  that lock is alive.
\<close>

theorem lock_fifo:
  assumes "reachable lock_initial lock_step y"
    and "c \<in> set (ls_calls y)" "pc_granted (lc_pc c)" "pc_lock (lc_pc c) = Some l" "lock_alive y l"
    and "d \<in> set (ls_calls y)" "pc_lock (lc_pc d) = Some l'" "lock_alive y l'"
    and "lk_Name l = lk_Name l'"
  shows "lk_Sequence l \<le> lk_Sequence l'"
proof -
  have inv: "lock_inv y" using lock_tickets.reachable_invar assms(1) by blast
  obtain k where k: "lk_Name l = lc_name c" "lk_Sequence l = k" "ticket_granted y (lc_name c, k)" "ticket_live y (lc_name c, k)" "plain (lc_name c)"
    using call_ticket [OF inv, of c l] assms(2-5) by auto
  obtain k' where k': "lk_Name l' = lc_name d" "plain (lc_name d) \<Longrightarrow> lk_Sequence l' = k'" "plain (lc_name d) \<Longrightarrow> ticket_live y (lc_name d, k')"
    using call_ticket [OF inv, of d l'] assms(6-8) by auto
  have same: "lc_name c = lc_name d" using assms(9) k(1) k'(1) by simp
  have "(lc_name c, k) = (lc_name d, k') \<or> k < k'"
    using lock_tickets.first_come [OF assms(1) k(3,4) k'(3)] k(5) same by simp
  then show ?thesis using k(2,5) k'(2) same by auto
qed

section \<open>Example runs\<close>

text \<open>
  A store with the directory \<open>/locks\<close>, whose callback for deletions is the given one, and a fresh
  lock manager. A run that touches the store only through lock calls, and while the sequence
  counter is small, keeps the conditions on steps.
\<close>

definition lock_base :: "store_callback \<Rightarrow> lock_system" where
  "lock_base h = \<lparr>ls_store = fst (Store_Create (SetWatchCallbacks None None (Some h) (NewStore 0 0)) 0 0 ''/locks'' '''' False '''' False),
     ls_manager = \<lparr>lm_locks = Map.empty, lm_waiters = Map.empty, lm_chans = []\<rparr>, ls_calls = [], ls_spawned = []\<rparr>"

fun by_lock_calls :: "lock_label \<Rightarrow> bool" where
  "by_lock_calls (StartCall name owner sid timeout) = True"
| "by_lock_calls (CallStep i inp) = True"
| "by_lock_calls (ReleaseLock l) = True"
| "by_lock_calls (RunCallback k) = True"
| "by_lock_calls _ = False"

fun short_run :: "lock_label list \<Rightarrow> lock_system \<Rightarrow> lock_system option" where
  "short_run [] y = Some y"
| "short_run (l # ls) y =
     (if by_lock_calls l \<and> s_seqCounter (ls_store y) < 1000
      then (case lock_exec l y of None \<Rightarrow> None | Some y' \<Rightarrow> short_run ls y') else None)"

lemma lock_base_initial: "lock_initial (lock_base h)"
proof -
  let ?s0 = "SetWatchCallbacks None None (Some h) (NewStore 0 0) :: store_callback Store"
  have "reachable store_initial store_step (NewStore 0 0 :: store_callback Store)" by (rule reach_init) (auto simp: store_initial_def)
  then have "reachable store_initial store_step ?s0" by (rule reach_step) (rule store_step.callbacks)
  then have "reachable store_initial store_step (ls_store (lock_base h))"
    unfolding lock_base_def lock_system.simps by (rule reach_step) (rule store_step.create)
  moreover have "s_seqCounter (ls_store (lock_base h)) = 0"
    using Store_Create_elems [OF refl, of ?s0 0 0 "''/locks''" "''''" False "''''" False]
    by (simp add: lock_base_def seq_store_def SetWatchCallbacks_def NewStore_def)
  ultimately show ?thesis by (simp add: lock_initial_def lock_base_def NewLockManager_def)
qed

lemma lock_base_reachable: "reachable lock_initial lock_step (lock_base h)"
  by (rule reach_init) (rule lock_base_initial)

lemma short_run_steps: "short_run ls y = Some y' \<Longrightarrow> lock_step\<^sup>*\<^sup>* y y'"
proof (induction ls arbitrary: y)
  case (Cons l ls)
  then obtain y1 where l: "by_lock_calls l" "s_seqCounter (ls_store y) < 1000" "lock_exec l y = Some y1" "short_run ls y1 = Some y'"
    by (auto split: if_splits option.splits)
  have "unat (s_seqCounter (ls_store y)) < unat (1000 :: u64)" using l(2) by (simp add: word_less_nat_alt)
  then have "lock_guard l y" using l(1) by (cases l) auto
  then have "lock_step y y1" using l(3) by (auto simp: lock_step_def)
  then show ?case using Cons.IH [OF l(4)] by (rule converse_rtranclp_into_rtranclp)
qed simp

lemma reachable_steps: "step\<^sup>*\<^sup>* s t \<Longrightarrow> reachable init step s \<Longrightarrow> reachable init step t"
  by (induction rule: rtranclp_induct) (auto intro: reach_step)

lemma short_run_reachable:
  "short_run ls y = Some y' \<Longrightarrow> reachable init lock_step y \<Longrightarrow> reachable init lock_step y'"
  by (rule reachable_steps [OF short_run_steps])

definition proceed :: "nat \<Rightarrow> lock_label" where
  "proceed i = CallStep i (Proceed 0 0)"

text \<open>
  Two calls for one lock: the first one acquires it, the second one waits without limit.
\<close>

definition two_calls :: "lock_label list" where
  "two_calls = StartCall ''a'' ''anna'' ''s1'' 0 # replicate 5 (proceed 0) @ StartCall ''a'' ''bob'' ''s2'' 0 # replicate 4 (proceed 1)"

datatype call_view = Holds string u64 bool | Waits string u64 bool | Failed lock_error | Busy

definition view :: "lock_system \<Rightarrow> nat \<Rightarrow> call_view" where
  "view y i = (case lc_pc (ls_calls y ! i) of
      Returned (Inr l) \<Rightarrow> Holds (lk_Name l) (lk_Sequence l) (lock_alive y l)
    | Returned (Inl e) \<Rightarrow> Failed e
    | AtWait l w t \<Rightarrow> Waits (lk_Name l) (lk_Sequence l) (lock_alive y l)
    | _ \<Rightarrow> Busy)"

lemma view_Holds: "view y i = Holds name k b \<Longrightarrow> \<exists>l. lc_pc (ls_calls y ! i) = Returned (Inr l) \<and> lk_Name l = name \<and> lk_Sequence l = k \<and> lock_alive y l = b"
  by (auto simp: view_def split: lock_pc.splits sum.splits)

lemma view_Waits: "view y i = Waits name k b \<Longrightarrow> \<exists>l w t. lc_pc (ls_calls y ! i) = AtWait l w t \<and> lk_Name l = name \<and> lk_Sequence l = k \<and> lock_alive y l = b"
  by (auto simp: view_def split: lock_pc.splits sum.splits)

lemma view_Failed: "view y i = Failed e \<Longrightarrow> lc_pc (ls_calls y ! i) = Returned (Inl e)"
  by (auto simp: view_def split: lock_pc.splits sum.splits)

lemma two_calls_run:
  obtains y where "reachable lock_initial lock_step y" "short_run two_calls (lock_base LockDeleted) = Some y"
    "length (ls_calls y) = 2" "view y 0 = Holds ''a'' 1 True" "view y 1 = Waits ''a'' 2 True"
proof -
  have "map_option (\<lambda>y. (length (ls_calls y), view y 0, view y 1)) (short_run two_calls (lock_base LockDeleted)) =
      Some (2, Holds ''a'' 1 True, Waits ''a'' 2 True)" by code_simp
  then show thesis using that short_run_reachable [OF _ lock_base_reachable] by auto
qed

theorem mutual_exclusion_witness:
  "\<exists>y l. reachable lock_initial lock_step y \<and> length (ls_calls y) = 2 \<and>
     lc_pc (ls_calls y ! 0) = Returned (Inr l) \<and> lock_alive y l \<and>
     (\<forall>j l'. j < length (ls_calls y) \<and> lc_pc (ls_calls y ! j) = Returned (Inr l') \<and> lock_alive y l' \<and> lk_Name l' = ''a'' \<longrightarrow> j = 0)"
proof -
  obtain y where y: "reachable lock_initial lock_step y" "length (ls_calls y) = 2" "view y 0 = Holds ''a'' 1 True"
    using two_calls_run by metis
  obtain l where l: "lc_pc (ls_calls y ! 0) = Returned (Inr l)" "lk_Name l = ''a''" "lock_alive y l" using view_Holds [OF y(3)] by auto
  have "j = 0" if "j < length (ls_calls y)" "lc_pc (ls_calls y ! j) = Returned (Inr l')" "lock_alive y l'" "lk_Name l' = ''a''" for j l'
    using mutual_exclusion [OF y(1) _ l(1,3) that(1-3)] l(2) that(4) y(2) by simp
  with y l show ?thesis by blast
qed

theorem lock_fifo_witness:
  "\<exists>y l l' w t. reachable lock_initial lock_step y \<and> lc_pc (ls_calls y ! 0) = Returned (Inr l) \<and>
     lc_pc (ls_calls y ! 1) = AtWait l' w t \<and> lock_alive y l \<and> lock_alive y l' \<and> lk_Sequence l = 1 \<and> lk_Sequence l' = 2 \<and>
     lk_Sequence l \<le> lk_Sequence l'"
proof -
  obtain y where y: "reachable lock_initial lock_step y" "length (ls_calls y) = 2" "view y 0 = Holds ''a'' 1 True" "view y 1 = Waits ''a'' 2 True"
    using two_calls_run by metis
  obtain l where l: "lc_pc (ls_calls y ! 0) = Returned (Inr l)" "lk_Name l = ''a''" "lk_Sequence l = 1" "lock_alive y l" using view_Holds [OF y(3)] by auto
  obtain l' w t where l': "lc_pc (ls_calls y ! 1) = AtWait l' w t" "lk_Name l' = ''a''" "lk_Sequence l' = 2" "lock_alive y l'" using view_Waits [OF y(4)] by auto
  have "lk_Sequence l \<le> lk_Sequence l'"
    using lock_fifo [OF y(1), of "ls_calls y ! 0" l "ls_calls y ! 1" l'] l l' y(2) by simp
  with y(1) l l' show ?thesis by blast
qed

section \<open>Calls that are never woken\<close>

text \<open>
  The second call finds the lock taken; before it registers as a waiter, the holder releases the
  lock and the notification finds no waiter.
\<close>

definition race :: "lock_label list" where
  "race = StartCall ''a'' ''anna'' ''s1'' 0 # replicate 5 (proceed 0) @ StartCall ''a'' ''bob'' ''s2'' 0 # replicate 3 (proceed 1) @
     [ReleaseLock (Some \<lparr>lk_Name = ''a'', lk_Owner = ''anna'', lk_SessionID = ''s1'', lk_Path = ''/locks/a/lock-0000000001'',
                         lk_Sequence = 1, lk_Acquired = 0\<rparr>), RunCallback 0, proceed 1]"

text \<open>
  A release can be missed: there is an execution, with the lock manager's own notification in
  place, after which the lock is free, the only request is first in line and would pass the check,
  and yet its call waits without limit on an empty channel, with no notification under way.
\<close>

lemma lost_wakeup:
  "\<exists>y l w. reachable lock_initial lock_step y \<and> s_onNodeDelete (ls_store y) = Some LockDeleted \<and>
     lc_pc (ls_calls y ! 1) = AtWait l w None \<and>
     checkLockAcquired (ls_store y) (lock_path (lk_Name l)) (lk_Path l) = Inr True \<and>
     ls_spawned y = [] \<and> (\<forall>inp. lock_exec (CallStep 1 inp) y = None)"
proof -
  let ?v = "\<lambda>y. (length (ls_calls y), lc_pc (ls_calls y ! 1), s_onNodeDelete (ls_store y), ls_spawned y, lm_chans (ls_manager y))"
  have "map_option ?v (short_run race (lock_base LockDeleted)) =
      Some (2, AtWait (new_lock ''a'' ''bob'' ''s2'' ''/locks/a/lock-0000000002'') 0 None, Some LockDeleted, [], [False])"
    by code_simp
  then obtain y where run: "short_run race (lock_base LockDeleted) = Some y"
    and v: "?v y = (2, AtWait (new_lock ''a'' ''bob'' ''s2'' ''/locks/a/lock-0000000002'') 0 None, Some LockDeleted, [], [False])"
    unfolding map_option_eq_Some by (elim exE conjE) (rule that)
  have "map_option (\<lambda>y. checkLockAcquired (ls_store y) (lock_path ''a'') ''/locks/a/lock-0000000002'') (short_run race (lock_base LockDeleted)) =
      Some (Inr True)" by code_simp
  then have chk: "checkLockAcquired (ls_store y) (lock_path ''a'') ''/locks/a/lock-0000000002'' = Inr True" using run by simp
  have "lock_exec (CallStep 1 inp) y = None" for inp
    using v by (cases inp) (simp_all add: lock_call_step_def)
  moreover have "reachable lock_initial lock_step y" using short_run_reachable [OF run lock_base_reachable] .
  ultimately show ?thesis using v chk by (intro exI conjI) (auto simp: new_lock_def)
qed

text \<open>
  In the server the watch manager's callbacks take the place of the lock manager's
  (\<open>SetWatchCallbacks\<close> in \<open>cmd/skylock/main.go\<close> after \<open>lock.NewManager\<close>): the deletion of a node
  starts \<open>TriggerDelete\<close> and nothing else.
\<close>

definition server_initial :: "lock_system \<Rightarrow> bool" where
  "server_initial y \<longleftrightarrow> lock_initial y \<and> s_onNodeDelete (ls_store y) = Some WatchDeleted"

definition no_notice :: "store_callback spawn list \<Rightarrow> bool" where
  "no_notice ev \<longleftrightarrow> (\<forall>p. GoDelete LockDeleted p \<notin> set ev)"

definition server_inv :: "lock_system \<Rightarrow> bool" where
  "server_inv y \<longleftrightarrow> s_onNodeDelete (ls_store y) = Some WatchDeleted \<and> no_notice (ls_spawned y) \<and>
     True \<notin> set (lm_chans (ls_manager y))"

lemma no_notice_simps [simp]:
  "no_notice []" "no_notice (xs @ ys) \<longleftrightarrow> no_notice xs \<and> no_notice ys" "no_notice (go_create s p n)" "no_notice (go_update s p n)"
  "s_onNodeDelete s = Some WatchDeleted \<Longrightarrow> no_notice (go_delete s p)"
  by (auto simp: no_notice_def go_create_def go_update_def go_delete_def split: option.splits)

lemma no_notice_concat: "s_onNodeDelete s = Some WatchDeleted \<Longrightarrow> no_notice (concat (map (go_delete s) ps))"
  by (auto simp: no_notice_def go_delete_def)

definition server_like :: "store_callback Store \<Rightarrow> store_callback Store \<Rightarrow> store_callback spawn list \<Rightarrow> bool" where
  "server_like s s' ev \<longleftrightarrow> s_onNodeDelete s' = s_onNodeDelete s \<and> (s_onNodeDelete s = Some WatchDeleted \<longrightarrow> no_notice ev)"

lemma Create_server: "Store_Create s t1 t2 p data ephm sid seqn = (s', ev, r) \<Longrightarrow> server_like s s' ev"
  by (auto simp: server_like_def Store_Create_elems [OF refl] seq_store_def split: if_splits)

lemma Set_server: "Store_Set s now p data v = (s', ev, r) \<Longrightarrow> server_like s s' ev"
  by (auto simp: server_like_def Store_Set_def Let_def split: if_splits option.splits)

lemma Delete_server: "Store_Delete s p v = (s', ev, r) \<Longrightarrow> server_like s s' ev"
  by (auto simp: server_like_def Store_Delete_def Let_def split: if_splits option.splits)

lemma Expire_server: "Store_DeleteEphemerals keys s sid = (s', ev, r) \<Longrightarrow> server_like s s' ev"
  by (auto simp: server_like_def Store_DeleteEphemerals_def Let_def no_notice_concat)

lemma Unlock_server: "Unlock (s, m) lo = ((s', m'), ev, r) \<Longrightarrow> server_like s s' ev \<and> lm_chans m' = lm_chans m"
  by (cases lo) (auto simp: Unlock_def Let_def server_like_def split: if_splits prod.splits dest!: Delete_server)

lemmas server_ops = Create_server Set_server Delete_server Expire_server

text \<open>A step of a call that no token reaches.\<close>

lemma TryLock_step_server:
  assumes "TryLock_step inp c (s, m) = Some (c', (s', m'), ev)"
  shows "server_like s s' ev \<and> lm_chans m' = lm_chans m \<and> (\<forall>l w t. lc_pc c \<noteq> AtWait l w t) \<and> (\<forall>l w e. lc_pc c \<noteq> AtDeleteWaiter l w e) \<and>
     (\<forall>n w r. lc_pc c \<noteq> AtLeave n w r) \<and> (\<forall>r. lc_pc c \<noteq> Returned r)"
proof -
  obtain t1 t2 where inp: "inp = Proceed t1 t2" using assms by (cases inp) auto
  show ?thesis
    using assms inp
    by (cases "lc_pc c")
       (auto simp: Let_def record_lock_def server_like_def split: prod.splits sum.splits if_splits dest: server_ops [unfolded server_like_def])
qed

lemma not_woken: "True \<notin> set bs \<Longrightarrow> i < length bs \<Longrightarrow> bs ! i \<Longrightarrow> False"
  by (metis nth_mem)

lemma waitForLock_step_server:
  assumes "waitForLock_step inp c (s, m) = Some (c', (s', m'), ev)" "True \<notin> set (lm_chans m)"
  shows "server_like s s' ev \<and> True \<notin> set (lm_chans m')"
  using assms
  by (cases inp; cases "lc_pc c")
     (auto simp: Let_def record_lock_def server_like_def remove_waiter_def split: prod.splits sum.splits if_splits option.splits
        dest: server_ops [unfolded server_like_def] not_woken)

text \<open>What becomes of a call that waits: it goes on waiting, or its timer ends it.\<close>

definition stuck :: "Lock \<Rightarrow> nat \<Rightarrow> instant option \<Rightarrow> lock_pc \<Rightarrow> bool" where
  "stuck l w timer pc \<longleftrightarrow> pc = AtWait l w timer \<or> (timer \<noteq> None \<and>
     (pc = AtDeleteWaiter l w ErrLockTimeout \<or> pc = AtLeave (lk_Name l) w (Inl ErrLockTimeout) \<or> pc = Returned (Inl ErrLockTimeout)))"

lemma waitForLock_step_stuck:
  assumes "waitForLock_step inp c (s, m) = Some (c', (s', m'), ev)" "True \<notin> set (lm_chans m)" "stuck l w timer (lc_pc c)"
  shows "stuck l w timer (lc_pc c')"
  using assms
  by (cases inp) (auto simp: stuck_def Let_def split: prod.splits if_splits option.splits dest: not_woken)

lemma call_step_server:
  assumes "lock_call_step inp c (s, m) = Some (c', (s', m'), ev)" "True \<notin> set (lm_chans m)"
  shows "server_like s s' ev \<and> True \<notin> set (lm_chans m') \<and> (stuck l w timer (lc_pc c) \<longrightarrow> stuck l w timer (lc_pc c'))"
proof (cases "TryLock_step inp c (s, m)")
  case None
  then have "waitForLock_step inp c (s, m) = Some (c', (s', m'), ev)" using assms(1) by (simp add: lock_call_step_def)
  then show ?thesis using waitForLock_step_server waitForLock_step_stuck assms(2) by blast
next
  case (Some x)
  then have "TryLock_step inp c (s, m) = Some (c', (s', m'), ev)" using assms(1) by (simp add: lock_call_step_def)
  then show ?thesis using TryLock_step_server assms(2) by (fastforce simp: stuck_def)
qed

lemma run_other_callback: "(\<And>p. e \<noteq> GoDelete LockDeleted p) \<Longrightarrow> run_callback e m = m"
  by (rule run_callback.cases [of "(e, m)"]) auto

lemma server_call:
  assumes inv: "server_inv y" and run: "lock_exec (CallStep j inp) y = Some y'"
  shows "server_inv y' \<and> (i < length (ls_calls y) \<and> stuck l w timer (lc_pc (ls_calls y ! i)) \<longrightarrow>
     i < length (ls_calls y') \<and> stuck l w timer (lc_pc (ls_calls y' ! i)))"
proof -
  note s = inv [unfolded server_inv_def]
  obtain c' s' m' ev where c': "j < length (ls_calls y)" "lock_call_step inp (ls_calls y ! j) (ls_store y, ls_manager y) = Some (c', (s', m'), ev)"
    and y': "y' = y\<lparr>ls_store := s', ls_manager := m', ls_calls := (ls_calls y)[j := c'], ls_spawned := ls_spawned y @ ev\<rparr>"
    using run by (auto split: if_splits option.splits)
  have c: "server_like (ls_store y) s' ev" "True \<notin> set (lm_chans m')" "stuck l w timer (lc_pc (ls_calls y ! j)) \<Longrightarrow> stuck l w timer (lc_pc c')"
    using call_step_server [OF c'(2)] s by blast+
  then have "server_inv y'" using s y' by (simp add: server_inv_def server_like_def)
  then show ?thesis using c(3) c'(1) y' by (cases "i = j") auto
qed

lemma server_exec:
  assumes inv: "server_inv y" and run: "lock_exec lab y = Some y'"
  shows "server_inv y' \<and> (i < length (ls_calls y) \<and> stuck l w timer (lc_pc (ls_calls y ! i)) \<longrightarrow>
     i < length (ls_calls y') \<and> stuck l w timer (lc_pc (ls_calls y' ! i)))"
proof -
  note s = inv [unfolded server_inv_def]
  have upd: "server_inv (y\<lparr>ls_store := s', ls_spawned := ls_spawned y @ ev\<rparr>)" if "server_like (ls_store y) s' ev" for s' ev
    using that s by (simp add: server_inv_def server_like_def)
  show ?thesis
  proof (cases lab)
    case (CallStep j inp)
    then show ?thesis using server_call [OF inv] run by blast
  next
    case (ReleaseLock lo)
    obtain s' m' ev r where u: "Unlock (ls_store y, ls_manager y) lo = ((s', m'), ev, r)" by (cases "Unlock (ls_store y, ls_manager y) lo") auto
    show ?thesis using run ReleaseLock u Unlock_server [OF u] s by (auto simp: server_inv_def server_like_def)
  next
    case (RunCallback k)
    then have k: "k < length (ls_spawned y)" "y' = y\<lparr>ls_manager := run_callback (ls_spawned y ! k) (ls_manager y),
        ls_spawned := take k (ls_spawned y) @ drop (Suc k) (ls_spawned y)\<rparr>" using run by (auto split: if_splits)
    have "run_callback (ls_spawned y ! k) (ls_manager y) = ls_manager y"
      using s nth_mem [OF k(1)] by (intro run_other_callback) (auto simp: no_notice_def)
    moreover have "no_notice (take k (ls_spawned y) @ drop (Suc k) (ls_spawned y))"
      using s by (auto simp: no_notice_def dest: in_set_takeD in_set_dropD)
    ultimately show ?thesis using k(2) s by (simp add: server_inv_def)
  next
    case (StartCall name owner sid timeout)
    then show ?thesis using run s by (auto simp: server_inv_def nth_append)
  next
    case (ClientCreate t1 t2 path data ephm sid seqn)
    obtain s' ev r where c: "Store_Create (ls_store y) t1 t2 path data ephm sid seqn = (s', ev, r)" by (metis prod.collapse)
    show ?thesis using run ClientCreate c upd [OF Create_server [OF c]] by auto
  next
    case (ClientSet now path data v)
    obtain s' ev r where c: "Store_Set (ls_store y) now path data v = (s', ev, r)" by (metis prod.collapse)
    show ?thesis using run ClientSet c upd [OF Set_server [OF c]] by auto
  next
    case (ClientDelete path v)
    obtain s' ev r where c: "Store_Delete (ls_store y) path v = (s', ev, r)" by (metis prod.collapse)
    show ?thesis using run ClientDelete c upd [OF Delete_server [OF c]] by auto
  next
    case (SessionEnd keys sid)
    obtain s' ev r where c: "Store_DeleteEphemerals keys (ls_store y) sid = (s', ev, r)" by (metis prod.collapse)
    show ?thesis using run SessionEnd c upd [OF Expire_server [OF c]] by auto
  qed
qed

interpretation server_runs: transition_system server_initial lock_step server_inv
proof
  show "server_initial y \<Longrightarrow> server_inv y" for y
    by (auto simp: server_initial_def server_inv_def lock_initial_def NewLockManager_def)
  show "server_inv y \<Longrightarrow> lock_step y y' \<Longrightarrow> server_inv y'" for y y' using server_exec by (auto simp: lock_step_def)
qed

text \<open>
  C33. In the server no waiting call is ever woken: whatever happens after a call has begun to wait,
  releases of the lock included, the call still waits or has ended with a timeout, and a call
  without a timeout waits for ever.
\<close>

theorem server_never_wakes:
  assumes "reachable server_initial lock_step y" and "lock_step\<^sup>*\<^sup>* y y'"
    and "i < length (ls_calls y)" "lc_pc (ls_calls y ! i) = AtWait l w timer"
  shows "lc_pc (ls_calls y' ! i) = AtWait l w timer \<or> timer \<noteq> None \<and>
    lc_pc (ls_calls y' ! i) \<in> {AtDeleteWaiter l w ErrLockTimeout, AtLeave (lk_Name l) w (Inl ErrLockTimeout), Returned (Inl ErrLockTimeout)}"
proof -
  have "server_inv y' \<and> i < length (ls_calls y') \<and> stuck l w timer (lc_pc (ls_calls y' ! i))"
    using assms(2)
  proof (induction rule: rtranclp_induct)
    case base
    then show ?case using server_runs.reachable_invar [OF assms(1)] assms(3,4) by (simp add: stuck_def)
  next
    case (step y1 y2)
    then obtain lab where "lock_exec lab y1 = Some y2" by (auto simp: lock_step_def)
    then show ?case using server_exec [of y1 lab y2 i l w timer] step.IH by blast
  qed
  then show ?thesis by (auto simp: stuck_def)
qed

theorem server_never_wakes_witness:
  "\<exists>y y' l w. reachable server_initial lock_step y \<and> lock_step\<^sup>*\<^sup>* y y' \<and> lc_pc (ls_calls y ! 1) = AtWait l w None \<and>
     view y 0 = Holds ''a'' 1 True \<and> view y' 0 = Holds ''a'' 1 False \<and>
     checkLockAcquired (ls_store y') (lock_path (lk_Name l)) (lk_Path l) = Inr True \<and> lc_pc (ls_calls y' ! 1) = AtWait l w None"
proof -
  let ?l = "new_lock ''a'' ''bob'' ''s2'' ''/locks/a/lock-0000000002''"
  let ?release = "[ReleaseLock (Some \<lparr>lk_Name = ''a'', lk_Owner = ''anna'', lk_SessionID = ''s1'',
      lk_Path = ''/locks/a/lock-0000000001'', lk_Sequence = 1, lk_Acquired = 0\<rparr>), RunCallback 0]"
  let ?v = "\<lambda>y. (length (ls_calls y), lc_pc (ls_calls y ! 1), view y 0)"
  have "s_onNodeDelete (ls_store (lock_base WatchDeleted)) = Some WatchDeleted" by code_simp
  then have start: "server_initial (lock_base WatchDeleted)" using lock_base_initial by (simp add: server_initial_def)
  have "map_option ?v (short_run two_calls (lock_base WatchDeleted)) = Some (2, AtWait ?l 0 None, Holds ''a'' 1 True)" by code_simp
  then obtain y where y: "short_run two_calls (lock_base WatchDeleted) = Some y" "?v y = (2, AtWait ?l 0 None, Holds ''a'' 1 True)"
    unfolding map_option_eq_Some by (elim exE conjE) (rule that)
  let ?u = "\<lambda>y. (view y 0, checkLockAcquired (ls_store y) (lock_path ''a'') (lk_Path ?l))"
  have "map_option ?u (Option.bind (short_run two_calls (lock_base WatchDeleted)) (short_run ?release)) = Some (Holds ''a'' 1 False, Inr True)"
    by code_simp
  then obtain y' where y': "short_run ?release y = Some y'" "?u y' = (Holds ''a'' 1 False, Inr True)"
    unfolding map_option_eq_Some y(1) bind.bind_lunit by (elim exE conjE) (rule that)
  have r: "reachable server_initial lock_step y" using short_run_reachable [OF y(1)] start by (auto intro: reach_init)
  have "lc_pc (ls_calls y' ! 1) = AtWait ?l 0 None"
    using server_never_wakes [OF r short_run_steps [OF y'(1)], of 1 ?l 0 None] y(2) by simp
  then show ?thesis using r short_run_steps [OF y'(1)] y(2) y'(2)
    by (intro exI [of _ y] exI [of _ y'] exI [of _ ?l] exI [of _ 0] conjI) (simp_all add: new_lock_def)
qed

section \<open>A call on its own\<close>

fun alone :: "lock_input list \<Rightarrow> lock_call \<Rightarrow> 'h lock_world \<Rightarrow> (lock_call \<times> 'h lock_world) option" where
  "alone [] c w = Some (c, w)"
| "alone (inp # inps) c w = (case lock_call_step inp c w of None \<Rightarrow> None | Some (c', w', ev) \<Rightarrow> alone inps c' w')"

lemma alone_append: "alone (is @ js) c w = (case alone is c w of None \<Rightarrow> None | Some (c', w') \<Rightarrow> alone js c' w')"
  by (induction "is" arbitrary: c w) (auto split: option.split)

lemma good_lock_elems: "good_elem name \<Longrightarrow> path_elems (lock_path name) = [''locks'', name]"
proof -
  assume "good_elem name"
  then have "list_all good_elem [''locks'', name]" by (simp add: good_elem_def)
  moreover have "lock_path name = path_of [''locks'', name]" by (simp add: lock_path_def path_of_def)
  ultimately show ?thesis by simp
qed

lemma locks_elems: "path_elems ''/locks'' = [''locks'']"
  by code_simp

text \<open>
  C34. The lock manager does not create the directory \<open>/locks\<close> itself: as long as nobody has, every
  \<open>TryLock\<close> with a plain name fails with \<open>ErrNodeNotFound\<close> and changes nothing, whatever the timeout.
\<close>

theorem trylock_needs_directory:
  assumes "reachable store_initial store_step s" and "\<not> Store_Exists s ''/locks''" and "good_elem name"
  shows "\<exists>c'. alone [Proceed t1 t2, Proceed t3 t4, Proceed t5 t6] (TryLock name owner sid timeout) (s, m) = Some (c', (s, m)) \<and>
     lc_pc c' = Returned (Inl (LockStoreError ErrNodeNotFound))"
proof -
  have wf: "tree_wf (tree_of s)" using stores.reachable_invar [OF assms(1)] by blast
  have root: "tree_of s [''locks''] = None" using assms(2) by (simp add: store_simps locks_elems)
  have dir: "tree_of s [''locks'', name] = None"
    using tree_wf_parent [OF wf, of "[''locks'']" name] root by (metis append_Cons append_Nil option.distinct(1) option.exhaust)
  note es = good_lock_elems [OF assms(3)]
  have ex: "\<not> Store_Exists s (lock_path name)" using dir by (simp add: store_simps es)
  have mk: "Store_Create s a b (lock_path name) '''' False '''' False = (s, [], Inl ErrNodeNotFound)" for a b
    using root by (simp add: Store_Create_elems [OF refl] es)
  have cr: "Store_Create s a b (lock_path name @ ''/lock-'') owner True sid True = (s, [], Inl ErrNodeNotFound)" for a b
    using dir by (simp add: Store_Create_elems [OF refl] request_elems es)
  show ?thesis using ex mk cr by (simp add: lock_call_step_def TryLock_def goto_def)
qed

theorem trylock_needs_directory_witness:
  "\<exists>c'. alone [Proceed 0 0, Proceed 0 0, Proceed 0 0] (TryLock ''a'' ''anna'' ''s1'' 5) (NewStore 0 0 :: unit Store, snd (NewLockManager () (NewStore 0 0 :: unit Store))) =
       Some (c', (NewStore 0 0, snd (NewLockManager () (NewStore 0 0 :: unit Store)))) \<and> lc_pc c' = Returned (Inl (LockStoreError ErrNodeNotFound))"
proof -
  have "reachable store_initial store_step (NewStore 0 0 :: unit Store)" by (rule reach_init) (auto simp: store_initial_def)
  moreover have "\<not> Store_Exists (NewStore 0 0 :: unit Store) ''/locks''" by code_simp
  moreover have "good_elem ''a''" by code_simp
  ultimately show ?thesis by (rule trylock_needs_directory)
qed

lemma children_sorted: "Store_GetChildren s p = Inr cs \<Longrightarrow> sort_Strings cs = cs"
  by (auto simp: store_simps split: option.splits)

text \<open>
  The name of the node of a request. Releasing the first request of a queue leaves the rest of it.
\<close>

definition request_name :: "Lock \<Rightarrow> string" where
  "request_name l = ''lock-'' @ formatSequence (lk_Sequence l)"

lemma sort_Strings_remove_first: "sort_Strings (remove_first (\<lambda>x. x = c) xs) = remove_first (\<lambda>x. x = c) (sort_Strings xs)"
  unfolding remove_first_eq_remove1 sort_Strings_def by (rule properties_for_sort) (simp_all add: sorted_remove1)

lemma Unlock_next:
  assumes wf: "store_wf s" and good: "good_elem name" and path: "lk_Path h = path_of (ticket name (lk_Sequence h))"
    and queue: "Store_GetChildren s (lock_path name) = Inr (request_name h # rest)"
    and node: "tree_of s (ticket name (lk_Sequence h)) = Some n" "sn_Children n = []"
  shows "\<exists>s'. Unlock (s, m) (Some h) = ((s', m\<lparr>lm_locks := (lm_locks m)(lk_Path h := None)\<rparr>), go_delete s (lk_Path h), Inr ()) \<and>
     Store_GetChildren s' (lock_path name) = Inr rest \<and> tree_of s' (ticket name (lk_Sequence h)) = None \<and>
     (\<forall>t. t \<noteq> ticket name (lk_Sequence h) \<longrightarrow> t \<noteq> [''locks'', name] \<longrightarrow> tree_of s' t = tree_of s t)"
proof -
  note es = good_lock_elems [OF good]
  let ?t = "ticket name (lk_Sequence h)"
  have tk: "?t = [''locks'', name] @ [request_name h]" by (simp add: ticket_def es request_name_def)
  have elems: "path_elems (lk_Path h) = ?t" using path by simp
  obtain s' ev res where del: "Store_Delete s (lk_Path h) (- 1) = (s', ev, res)" by (metis prod.collapse)
  have "tree_delete (tree_of s) ?t (- 1) = (tree_remove [''locks'', name] (request_name h) (tree_of s), Inr ())"
    using node by (simp add: tree_delete_def version_ok_def tk)
  then have tr: "tree_of s' = tree_remove [''locks'', name] (request_name h) (tree_of s)" "res = Inr ()"
    using Store_Delete_refines [OF wf, of "lk_Path h" "- 1"] del elems by simp_all
  have "ev = go_delete s (lk_Path h)"
    using del tr(2) by (auto simp: Store_Delete_def Let_def normalizePath_eq elems path split: if_splits option.splits)
  then have "Unlock (s, m) (Some h) = ((s', m\<lparr>lm_locks := (lm_locks m)(lk_Path h := None)\<rparr>), go_delete s (lk_Path h), Inr ())"
    using del tr(2) by (simp add: Unlock_def path)
  moreover have "Store_GetChildren s' (lock_path name) = Inr rest"
    using queue tr(1) by (auto simp: store_simps es tree_remove_def del_child_def sort_Strings_remove_first split: option.splits)
  ultimately show ?thesis using tr(1) by (auto simp: tree_remove_def tk)
qed

text \<open>From an existing, empty lock directory.\<close>

lemma acquire_empty:
  assumes wf: "store_wf s" and good: "good_elem name"
    and dir: "tree_of s [''locks'', name] = Some d" "\<not> sn_Ephemeral d" "sn_Children d = []"
  defines "k \<equiv> s_seqCounter s + 1"
  shows "\<exists>c' s' l. alone [Proceed a1 b1, Proceed a2 b2, Proceed a3 b3] (goto AtCreate (TryLock name owner sid timeout)) (s, m) =
      Some (c', (s', m\<lparr>lm_locks := (lm_locks m)(lk_Path l \<mapsto> l)\<rparr>)) \<and> lc_pc c' = Returned (Inr l) \<and> store_wf s' \<and>
      lk_Name l = name \<and> lk_Owner l = owner \<and> lk_SessionID l = sid \<and> lk_Sequence l = k \<and> lk_Path l = path_of (ticket name k) \<and>
      tree_of s' [''locks'', name] = Some (d\<lparr>sn_Children := [''lock-'' @ formatSequence k]\<rparr>) \<and>
      (\<exists>n. tree_of s' (ticket name k) = Some n \<and> sn_Data n = owner \<and> sn_Children n = [])"
proof -
  have t: "tree_wf (tree_of s)" using wf by blast
  note es = good_lock_elems [OF good]
  have tk: "ticket name k = [''locks'', name, ''lock-'' @ formatSequence k]" by (simp add: ticket_def es)
  have free: "tree_of s (ticket name k) = None"
    using tree_wf_parent [OF t, of "[''locks'', name]" "''lock-'' @ formatSequence k"] dir
    by (cases "tree_of s (ticket name k)") (auto simp: tk)
  have se: "seq_elems True s (path_elems (lock_path name @ ''/lock-'')) = ticket name k"
    unfolding k_def by (rule request_ticket)
  obtain s' ev where c: "Store_Create s a1 b1 (lock_path name @ ''/lock-'') owner True sid True = (s', ev, Inr (path_of (ticket name k)))"
    using dir free se by (simp add: Store_Create_elems [OF refl] request_elems es)
  note ok = Store_Create_ok [OF c]
  have tr: "tree_of s' = tree_insert [''locks'', name] (''lock-'' @ formatSequence k)
      (new_node owner True sid True a1 b1 (ticket name k) (s_seqCounter (seq_store True s))) (tree_of s)"
    using ok(4) se by (simp add: request_elems es tk)
  have new: "\<exists>n. tree_of s' (ticket name k) = Some n \<and> sn_Data n = owner \<and> sn_Children n = []"
    by (simp add: tr tree_insert_def tk new_node_def)
  have dir': "tree_of s' [''locks'', name] = Some (d\<lparr>sn_Children := [''lock-'' @ formatSequence k]\<rparr>)"
    using dir by (simp add: tr tree_insert_def add_child_def)
  have wf': "store_wf s'" using Store_Create_wf [OF wf] c by (metis fst_conv)
  have plain: "plain name" using good by (rule plain_good)
  let ?l = "new_lock name owner sid (path_of (ticket name k))"
  have l: "lk_Path ?l = path_of (ticket name k)" "lk_Name ?l = name" "lk_Owner ?l = owner" "lk_SessionID ?l = sid" "lk_Sequence ?l = k"
    using new_lock_sequence [OF plain] by (simp_all add: new_lock_def)
  have "strings_TrimPrefix (path_of (ticket name k)) (lock_path name @ ''/'') = ''lock-'' @ formatSequence k"
    using TrimPrefix_append [of "lock_path name @ ''/''" "''lock-'' @ formatSequence k"] by (simp add: plain_ticket [OF plain])
  moreover have "Store_GetChildren s' (lock_path name) = Inr [''lock-'' @ formatSequence k]"
    using dir' by (simp add: store_simps es sort_Strings_def)
  ultimately have chk: "checkLockAcquired s' (lock_path name) (lk_Path ?l) = Inr True"
    by (simp add: checkLockAcquired_def l(1) sort_Strings_def)
  show ?thesis
    by (intro exI [of _ "goto (Returned (Inr (?l\<lparr>lk_Acquired := a3\<rparr>))) (TryLock name owner sid timeout)"] exI [of _ s'] exI [of _ "?l\<lparr>lk_Acquired := a3\<rparr>"])
       (use c chk l new dir' wf' in \<open>simp add: lock_call_step_def TryLock_def goto_def record_lock_def Let_def\<close>)
qed

lemma first_holds:
  assumes "Store_GetChildren s (lock_path name) = Inr (request_name l # rest)" "tree_of s (ticket name (lk_Sequence l)) = Some n"
  shows "GetLockHolder s s name = Inr (sn_Data n)"
proof -
  have "good_elem (request_name l)" using good_ticket [of name "lk_Sequence l"] by (simp add: ticket_def request_name_def)
  then have "path_elems (lock_path name @ ''/'' @ request_name l) = ticket name (lk_Sequence l)"
    using path_elems_child [of "request_name l" "lock_path name"] by (simp add: ticket_def request_name_def)
  moreover have "sort_Strings (request_name l # rest) = request_name l # rest"
    using children_sorted [OF assms(1)] .
  ultimately show ?thesis using assms by (simp add: GetLockHolder_def store_simps)
qed

lemma ensure_directory:
  assumes wf: "store_wf s" and good: "good_elem name" and root: "tree_of s [''locks''] = Some r" "\<not> sn_Ephemeral r"
    and dir: "\<And>d. tree_of s [''locks'', name] = Some d \<Longrightarrow> \<not> sn_Ephemeral d \<and> sn_Children d = []"
  shows "\<exists>j s1 d. alone (replicate j (Proceed t1 t2)) (TryLock name owner sid timeout) (s, m) =
       Some (goto AtCreate (TryLock name owner sid timeout), (s1, m)) \<and>
     store_wf s1 \<and> s_seqCounter s1 = s_seqCounter s \<and> tree_of s1 [''locks'', name] = Some d \<and> \<not> sn_Ephemeral d \<and> sn_Children d = []"
proof (cases "tree_of s [''locks'', name]")
  case (Some d)
  then have "Store_Exists s (lock_path name)" by (simp add: store_simps good_lock_elems [OF good])
  then have "alone (replicate 1 (Proceed t1 t2)) (TryLock name owner sid timeout) (s, m) =
       Some (goto AtCreate (TryLock name owner sid timeout), (s, m))"
    by (simp add: lock_call_step_def TryLock_def goto_def)
  then show ?thesis using dir [OF Some] Some wf by blast
next
  case None
  note es = good_lock_elems [OF good]
  have ex: "\<not> Store_Exists s (lock_path name)" using None by (simp add: store_simps es)
  obtain s1 ev where c: "Store_Create s t1 t2 (lock_path name) '''' False '''' False = (s1, ev, Inr (path_of [''locks'', name]))"
    using root None by (simp add: Store_Create_elems [OF refl] es seq_elems_def)
  note ok = Store_Create_ok [OF c]
  have tr: "tree_of s1 [''locks'', name] = Some (new_node '''' False '''' False t1 t2 [''locks'', name] (s_seqCounter s))"
    using ok(4) by (simp add: es seq_elems_def seq_store_def tree_insert_def)
  have "alone (replicate 2 (Proceed t1 t2)) (TryLock name owner sid timeout) (s, m) =
       Some (goto AtCreate (TryLock name owner sid timeout), (s1, m))"
    using ex c by (simp add: lock_call_step_def TryLock_def goto_def numeral_2_eq_2)
  moreover have "store_wf s1" using Store_Create_wf [OF wf] c by (metis fst_conv)
  moreover have "s_seqCounter s1 = s_seqCounter s" using ok(5) by simp
  ultimately show ?thesis using tr by (intro exI conjI) (assumption | simp add: new_node_def)+
qed

text \<open>
  C32. A free lock is granted at once and can be released: if \<open>/locks\<close> exists and nobody has a
  request for the lock, a call that runs on its own returns the lock without waiting, with the next
  sequence number; the owner is then reported as the holder; and releasing the lock leaves it
  free again.
\<close>

theorem acquire_release:
  fixes s :: "'h Store"
  assumes "reachable store_initial store_step s" and "good_elem name"
    and "Store_Get s ''/locks'' = Inr r" "\<not> sn_Ephemeral r" and "\<not> IsLocked s name"
    and "case Store_Get s (lock_path name) of Inl e \<Rightarrow> True | Inr d \<Rightarrow> \<not> sn_Ephemeral d"
  shows "\<exists>j c' s' m' l. alone (replicate j (Proceed t1 t2)) (TryLock name owner sid timeout) (s, m) = Some (c', (s', m')) \<and>
     lc_pc c' = Returned (Inr l) \<and> lk_Name l = name \<and> lk_Owner l = owner \<and> lk_Sequence l = s_seqCounter s + 1 \<and>
     lm_locks m' (lk_Path l) = Some l \<and> IsLocked s' name \<and> GetLockHolder s' s' name = Inr owner \<and>
     (\<exists>s'' m'' ev. Unlock (s', m') (Some l) = ((s'', m''), ev, Inr ()) \<and> \<not> IsLocked s'' name \<and> lm_locks m'' (lk_Path l) = None)"
proof -
  have wf: "store_wf s" using stores.reachable_invar [OF assms(1)] .
  note es = good_lock_elems [OF assms(2)]
  have root: "tree_of s [''locks''] = Some r" using assms(3) by (simp add: store_simps locks_elems split: option.splits)
  have dir: "\<not> sn_Ephemeral d \<and> sn_Children d = []" if "tree_of s [''locks'', name] = Some d" for d
    using assms(5,6) that by (simp add: IsLocked_def store_simps es)
  obtain j s1 d where j: "alone (replicate j (Proceed t1 t2)) (TryLock name owner sid timeout) (s, m) =
       Some (goto AtCreate (TryLock name owner sid timeout), (s1, m))"
    and s1: "store_wf s1" "s_seqCounter s1 = s_seqCounter s" "tree_of s1 [''locks'', name] = Some d" "\<not> sn_Ephemeral d" "sn_Children d = []"
    using ensure_directory [OF wf assms(2) root assms(4) dir] by blast
  let ?k = "s_seqCounter s1 + 1" and ?n = "''lock-'' @ formatSequence (s_seqCounter s1 + 1)"
  obtain c' s' l n where run: "alone [Proceed t1 t2, Proceed t1 t2, Proceed t1 t2] (goto AtCreate (TryLock name owner sid timeout)) (s1, m) =
      Some (c', (s', m\<lparr>lm_locks := (lm_locks m)(lk_Path l \<mapsto> l)\<rparr>))"
    and l: "lc_pc c' = Returned (Inr l)" "lk_Name l = name" "lk_Owner l = owner" "lk_Sequence l = ?k" "lk_Path l = path_of (ticket name ?k)"
    and s': "store_wf s'" "tree_of s' [''locks'', name] = Some (d\<lparr>sn_Children := [?n]\<rparr>)"
      "tree_of s' (ticket name ?k) = Some n" "sn_Data n = owner" "sn_Children n = []"
    using acquire_empty [OF s1(1) assms(2) s1(3-5)] by blast
  have all: "alone (replicate (j + 3) (Proceed t1 t2)) (TryLock name owner sid timeout) (s, m) =
      Some (c', (s', m\<lparr>lm_locks := (lm_locks m)(lk_Path l \<mapsto> l)\<rparr>))"
  proof -
    have "replicate (j + 3) (Proceed t1 t2) = replicate j (Proceed t1 t2) @ [Proceed t1 t2, Proceed t1 t2, Proceed t1 t2]"
      by (simp only: replicate_add) (simp add: numeral_3_eq_3)
    then show ?thesis using j run by (simp only: alone_append option.case prod.case)
  qed
  have kids: "Store_GetChildren s' (lock_path name) = Inr [request_name l]"
    using s'(2) by (simp add: store_simps es sort_Strings_def request_name_def l(4))
  then have locked: "IsLocked s' name" "GetLockHolder s' s' name = Inr owner"
    using first_holds [OF kids] s'(3,4) l(4) by (simp_all add: IsLocked_def)
  obtain s'' where "Unlock (s', m\<lparr>lm_locks := (lm_locks m)(lk_Path l \<mapsto> l)\<rparr>) (Some l) =
      ((s'', m\<lparr>lm_locks := (lm_locks m)(lk_Path l := None)\<rparr>), go_delete s' (lk_Path l), Inr ())"
    "Store_GetChildren s'' (lock_path name) = Inr []"
    using Unlock_next [OF s'(1) assms(2) _ kids, of n "m\<lparr>lm_locks := (lm_locks m)(lk_Path l \<mapsto> l)\<rparr>"] l(4,5) s'(3,5) by auto
  then have "\<exists>s'' m'' ev. Unlock (s', m\<lparr>lm_locks := (lm_locks m)(lk_Path l \<mapsto> l)\<rparr>) (Some l) = ((s'', m''), ev, Inr ()) \<and>
      \<not> IsLocked s'' name \<and> lm_locks m'' (lk_Path l) = None"
    by (simp add: IsLocked_def)
  moreover have "lm_locks (m\<lparr>lm_locks := (lm_locks m)(lk_Path l \<mapsto> l)\<rparr>) (lk_Path l) = Some l" by simp
  moreover have "lk_Sequence l = s_seqCounter s + 1" using l(4) s1(2) by simp
  ultimately show ?thesis using all l(1-3) locked by blast
qed

theorem acquire_release_witness:
  "\<exists>j c' s' m' l. alone (replicate j (Proceed 0 0)) (TryLock ''a'' ''anna'' ''s1'' 0) (ls_store (lock_base LockDeleted), ls_manager (lock_base LockDeleted)) =
       Some (c', (s', m')) \<and> lc_pc c' = Returned (Inr l) \<and> lk_Sequence l = 1 \<and> GetLockHolder s' s' ''a'' = Inr ''anna''"
proof -
  let ?s = "ls_store (lock_base LockDeleted)"
  have r: "reachable store_initial store_step ?s" using lock_base_initial by (auto simp: lock_initial_def)
  have v: "map_option sn_Ephemeral (case Store_Get ?s ''/locks'' of Inl e \<Rightarrow> None | Inr n \<Rightarrow> Some n) = Some False"
    "good_elem ''a''" "\<not> IsLocked ?s ''a''" "case Store_Get ?s (lock_path ''a'') of Inl e \<Rightarrow> True | Inr d \<Rightarrow> \<not> sn_Ephemeral d"
    "s_seqCounter ?s = 0"
    by code_simp+
  obtain r0 where "Store_Get ?s ''/locks'' = Inr r0" "\<not> sn_Ephemeral r0" using v(1) by (auto split: sum.splits)
  from acquire_release [OF r v(2) this v(3,4), of 0 0 "''anna''" "''s1''" 0 "ls_manager (lock_base LockDeleted)"] v(5)
  show ?thesis by auto
qed

end
