(* ===== verification/LockHandover.thy ===== *)
theory LockHandover
  imports LockProperties
begin

text \<open>
  How a lock passes from its holder to the next request, over \<open>internal/lock/manager.go\<close>, in a
  system whose store still has the callback that \<open>NewManager\<close> installs: \<open>Unlock\<close> deletes the node,
  the callback puts a token into the channel of the first registered waiter, and that call checks
  again and returns with the lock.
\<close>

section \<open>Channels\<close>

text \<open>The channel of a waiting call has been made.\<close>

fun pc_channel :: "lock_pc \<Rightarrow> nat option" where
  "pc_channel (AtWait l w t) = Some w"
| "pc_channel (AtRecheck l w t) = Some w"
| "pc_channel _ = None"

definition channels_made :: "lock_system \<Rightarrow> bool" where
  "channels_made y \<longleftrightarrow> (\<forall>c \<in> set (ls_calls y). \<forall>w. pc_channel (lc_pc c) = Some w \<longrightarrow> w < length (lm_chans (ls_manager y)))"

lemma TryLock_step_channel:
  fixes s :: "store_callback Store"
  assumes "TryLock_step inp c (s, m) = Some (c', (s', m'), ev)"
  shows "pc_channel (lc_pc c') = None" "lm_chans m' = lm_chans m"
proof -
  obtain t1 t2 where inp: "inp = Proceed t1 t2" using assms by (cases inp) auto
  show "pc_channel (lc_pc c') = None" using assms inp
    by (cases "lc_pc c") (auto simp: Let_def record_lock_def goto_def split: prod.splits sum.splits if_splits)
  show "lm_chans m' = lm_chans m" using TryLock_step_server [OF assms] by blast
qed

lemma waitForLock_step_channel:
  assumes "waitForLock_step inp c (s, m) = Some (c', (s', m'), ev)"
  shows "length (lm_chans m) \<le> length (lm_chans m')"
    and "pc_channel (lc_pc c') = Some w \<Longrightarrow> pc_channel (lc_pc c) = Some w \<or> w < length (lm_chans m')"
  using assms
  by (cases inp; cases "lc_pc c";
      auto simp: Let_def record_lock_def goto_def remove_waiter_def split: prod.splits sum.splits if_splits option.splits)+

lemma call_step_channel:
  fixes s :: "store_callback Store"
  assumes "lock_call_step inp c (s, m) = Some (c', (s', m'), ev)"
  shows "length (lm_chans m) \<le> length (lm_chans m')"
    and "pc_channel (lc_pc c') = Some w \<Longrightarrow> pc_channel (lc_pc c) = Some w \<or> w < length (lm_chans m')"
  using assms TryLock_step_channel [of inp c s m c' s' m' ev] waitForLock_step_channel [of inp c s m c' s' m' ev]
  by (auto simp: lock_call_step_def split: option.splits)

lemma run_callback_channels: "length (lm_chans (run_callback e m)) = length (lm_chans m)"
  by (rule run_callback.cases [of "(e, m)"]) (auto simp: onNodeDeleted_def Let_def split: option.splits list.splits)

lemma channels_made_step:
  assumes "channels_made y" "lock_exec lab y = Some y'"
  shows "channels_made y'"
proof (cases lab)
  case (CallStep j inp)
  then obtain c' s' m' ev where c': "j < length (ls_calls y)" "lock_call_step inp (ls_calls y ! j) (ls_store y, ls_manager y) = Some (c', (s', m'), ev)"
    and y': "y' = y\<lparr>ls_store := s', ls_manager := m', ls_calls := (ls_calls y)[j := c'], ls_spawned := ls_spawned y @ ev\<rparr>"
    using assms(2) by (auto split: if_splits option.splits)
  note chan = call_step_channel [OF c'(2)]
  have old: "w < length (lm_chans m')" if "c \<in> set (ls_calls y)" "pc_channel (lc_pc c) = Some w" for c w
    using assms(1) that chan(1) unfolding channels_made_def by (meson less_le_trans)
  have "w < length (lm_chans m')" if "c \<in> set ((ls_calls y)[j := c'])" "pc_channel (lc_pc c) = Some w" for c w
    using that set_update_subset_insert [of "ls_calls y" j c'] chan(2) [of w] old [of c w] old [of "ls_calls y ! j" w] nth_mem [OF c'(1)] by auto
  then show ?thesis using y' by (simp add: channels_made_def)
qed (use assms run_callback_channels in \<open>auto simp: channels_made_def TryLock_def Unlock_def Let_def split: if_splits prod.splits option.splits\<close>)

interpretation lock_channels: transition_system lock_initial lock_step channels_made
proof
  show "lock_initial y \<Longrightarrow> channels_made y" for y by (simp add: lock_initial_def channels_made_def)
  show "channels_made y \<Longrightarrow> lock_step y y' \<Longrightarrow> channels_made y'" for y y' using channels_made_step by (auto simp: lock_step_def)
qed

section \<open>The queue of a lock\<close>

lemma ephemeral_leaf:
  assumes "store_wf s" "tree_of s t = Some n" "sn_Ephemeral n"
  shows "sn_Children n = []"
proof -
  have t: "tree_wf (tree_of s)" using assms(1) by blast
  show ?thesis using tree_wf_child [OF t assms(2)] tree_wf_parent [OF t, of t] assms(2,3)
    by (metis list.set_intros(1) neq_Nil_conv not_None_eq option.inject)
qed

lemma onNodeDeleted_ticket:
  assumes "good_elem name" "lm_waiters m name = Some (w # ws)"
  shows "onNodeDeleted (path_of (ticket name k)) m = m\<lparr>lm_chans := (lm_chans m)[w := True]\<rparr>"
proof -
  have no: "CHR ''/'' \<notin> set name" "CHR ''/'' \<notin> set (''lock-'' @ formatSequence k)"
    using assms(1) good_ticket [of name k] by (auto simp: good_elem_def ticket_def)
  have p: "path_of (ticket name k) = ''/locks/'' @ name @ CHR ''/'' # (''lock-'' @ formatSequence k)"
    using plain_ticket [OF plain_good [OF assms(1)]] by (simp add: lock_path_def)
  have "split_on (CHR ''/'') (path_of (ticket name k)) = ['''', ''locks'', name, ''lock-'' @ formatSequence k]"
    using no split_on_slash [of "CHR ''/''" "''/locks''" "name @ CHR ''/'' # (''lock-'' @ formatSequence k)"]
    by (simp add: p split_on_slash split_on_word)
  moreover have "strings_HasPrefix (path_of (ticket name k)) ''/locks/''" by (simp add: p strings_HasPrefix_def)
  ultimately show ?thesis using assms(2) by (simp add: onNodeDeleted_def)
qed

text \<open>
  The name that the callback notifies ends at the next slash, while a waiter is registered under the
  whole name: the waiters of a lock whose name has a slash in it are never notified, those of the
  lock named by its first part are.
\<close>

lemma nested_name_unnotified:
  assumes "good_elem outer" "plain (outer @ CHR ''/'' # inner)" "lm_waiters m outer = None"
  shows "onNodeDeleted (path_of (ticket (outer @ CHR ''/'' # inner) k)) m = m"
proof -
  have no: "CHR ''/'' \<notin> set outer" using assms(1) by (simp add: good_elem_def)
  have p: "path_of (ticket (outer @ CHR ''/'' # inner) k) = ''/locks/'' @ outer @ CHR ''/'' # (inner @ ''/lock-'' @ formatSequence k)"
    using plain_ticket [OF assms(2)] by (simp add: lock_path_def)
  have "split_on (CHR ''/'') (path_of (ticket (outer @ CHR ''/'' # inner) k)) =
      '''' # ''locks'' # outer # split_on (CHR ''/'') (inner @ ''/lock-'' @ formatSequence k)"
    using no split_on_slash [of "CHR ''/''" "''/locks''"] by (simp add: p split_on_slash split_on_word)
  then show ?thesis using assms(3) by (simp add: onNodeDeleted_def)
qed

lemma lock_request:
  assumes "lock_inv y" "c \<in> set (ls_calls y)" "pc_lock (lc_pc c) = Some l" "plain (lk_Name l)"
  shows "lc_name c = lk_Name l" "lk_Path l = path_of (ticket (lk_Name l) (lk_Sequence l))"
proof -
  have "calls_ok (s_seqCounter (ls_store y)) (ls_calls y)" using assms(1) by (simp add: lock_inv_def)
  then obtain k where "request c k" using calls_ok_lock assms(2,3) by (metis option.discI)
  then show "lc_name c = lk_Name l" "lk_Path l = path_of (ticket (lk_Name l) (lk_Sequence l))"
    using assms(3,4) by (auto simp: request_def)
qed

lemma queue_distinct:
  assumes "store_wf s" "Store_GetChildren s p = Inr cs"
  shows "distinct cs"
proof -
  have "tree_wf (tree_of s)" using assms(1) by blast
  then show ?thesis using assms(2) tree_wf_node by (fastforce simp: store_simps split: option.splits)
qed

lemma lock_run_append: "lock_run ls y = Some y1 \<Longrightarrow> lock_run (ls @ ls') y = lock_run ls' y1"
  by (induction ls arbitrary: y) (auto split: option.splits)

lemma first_acquires:
  assumes "good_elem name" "Store_GetChildren s (lock_path name) = Inr (request_name l # rest)"
    and "lk_Path l = path_of (ticket name (lk_Sequence l))"
  shows "checkLockAcquired s (lock_path name) (lk_Path l) = Inr True"
proof -
  have "strings_TrimPrefix (lk_Path l) (lock_path name @ ''/'') = request_name l"
    using TrimPrefix_append [of "lock_path name @ ''/''" "request_name l"] plain_ticket [OF plain_good [OF assms(1)]]
    by (simp add: assms(3) request_name_def)
  moreover have "sort_Strings (request_name l # rest) = request_name l # rest"
    using children_sorted [OF assms(2)] .
  ultimately show ?thesis using assms(2) by (simp add: checkLockAcquired_def)
qed

text \<open>A waiting call with a token in its channel whose request is the first one returns with the lock.\<close>

lemma woken_returns:
  assumes "i < length (ls_calls y)" "lc_pc (ls_calls y ! i) = AtWait l w timer" "lc_name (ls_calls y ! i) = lk_Name l"
    and "w < length (lm_chans (ls_manager y))" "lm_chans (ls_manager y) ! w"
    and "checkLockAcquired (ls_store y) (lock_path (lk_Name l)) (lk_Path l) = Inr True"
    and "lm_waiters (ls_manager y) (lk_Name l) = Some (w # ws)"
  shows "\<exists>y'. lock_run [CallStep i Woken, CallStep i (Proceed t1 t2), CallStep i (Proceed t3 t4), CallStep i (Proceed t5 t6)] y = Some y' \<and>
     ls_store y' = ls_store y \<and> lc_pc (ls_calls y' ! i) = Returned (Inr (l\<lparr>lk_Acquired := t3\<rparr>)) \<and>
     lm_locks (ls_manager y') (lk_Path l) = Some (l\<lparr>lk_Acquired := t3\<rparr>) \<and> lm_waiters (ls_manager y') (lk_Name l) = Some ws"
  using assms by (simp add: lock_call_step_def goto_def record_lock_def remove_waiter_def Let_def)

text \<open>
  C13. Releasing a lock hands it over: if the lock manager's callback is in place, the lock of a call
  that has returned is released, the next request in the queue belongs to a waiting call, and that
  call is the first one registered, then after the release and its callback the waiting call takes
  the token and returns with the lock, which is alive and recorded, while the released one is not,
  and the waiter is no longer registered.
\<close>

theorem release_hands_over:
  assumes "reachable lock_initial lock_step y" "s_onNodeDelete (ls_store y) = Some LockDeleted" "good_elem name"
    and "c \<in> set (ls_calls y)" "lc_pc c = Returned (Inr h)" "lk_Name h = name" "lock_alive y h"
    and "i < length (ls_calls y)" "lc_pc (ls_calls y ! i) = AtWait l w timer" "lk_Name l = name" "lock_alive y l"
    and "Store_GetChildren (ls_store y) (lock_path name) = Inr (request_name h # request_name l # rest)"
    and "lm_waiters (ls_manager y) name = Some (w # ws)"
  shows "\<exists>y'. lock_run [ReleaseLock (Some h), RunCallback (length (ls_spawned y)), CallStep i Woken,
         CallStep i (Proceed t1 t2), CallStep i (Proceed t3 t4), CallStep i (Proceed t5 t6)] y = Some y' \<and>
     lc_pc (ls_calls y' ! i) = Returned (Inr (l\<lparr>lk_Acquired := t3\<rparr>)) \<and> lock_alive y' l \<and> \<not> lock_alive y' h \<and>
     lm_locks (ls_manager y') (lk_Path l) = Some (l\<lparr>lk_Acquired := t3\<rparr>) \<and> lm_waiters (ls_manager y') name = Some ws"
proof -
  have inv: "lock_inv y" using lock_tickets.reachable_invar assms(1) by blast
  have plain: "plain name" using plain_good [OF assms(3)] .
  have h: "lk_Path h = path_of (ticket name (lk_Sequence h))"
    using lock_request [OF inv assms(4), of h] assms(5,6) plain by simp
  have l: "lc_name (ls_calls y ! i) = name" "lk_Path l = path_of (ticket name (lk_Sequence l))"
    using lock_request [OF inv nth_mem [OF assms(8)], of l] assms(9,10) plain by simp_all
  have w: "w < length (lm_chans (ls_manager y))"
    using lock_channels.reachable_invar [OF assms(1)] nth_mem [OF assms(8)] assms(9) by (auto simp: channels_made_def)
  have wf: "store_wf (ls_store y)" using inv by (simp add: lock_inv_def)
  obtain n where n: "tree_of (ls_store y) (ticket name (lk_Sequence h)) = Some n" "sn_Ephemeral n"
    using assms(7) by (auto simp: lock_alive_def store_simps h split: option.splits)
  obtain s' where u: "Unlock (ls_store y, ls_manager y) (Some h) =
      ((s', (ls_manager y)\<lparr>lm_locks := (lm_locks (ls_manager y))(lk_Path h := None)\<rparr>), [GoDelete LockDeleted (lk_Path h)], Inr ())"
    and s': "Store_GetChildren s' (lock_path name) = Inr (request_name l # rest)" "tree_of s' (ticket name (lk_Sequence h)) = None"
      "\<And>t. t \<noteq> ticket name (lk_Sequence h) \<Longrightarrow> t \<noteq> [''locks'', name] \<Longrightarrow> tree_of s' t = tree_of (ls_store y) t"
    using Unlock_next [OF wf assms(3) h assms(12) n(1) ephemeral_leaf [OF wf n], of "ls_manager y"] assms(2) by (auto simp: go_delete_def)
  let ?m = "(ls_manager y)\<lparr>lm_locks := (lm_locks (ls_manager y))(lk_Path h := None), lm_chans := (lm_chans (ls_manager y))[w := True]\<rparr>"
  let ?y = "y\<lparr>ls_store := s', ls_manager := ?m\<rparr>"
  have run: "lock_run [ReleaseLock (Some h), RunCallback (length (ls_spawned y))] y = Some ?y"
    using u onNodeDeleted_ticket [OF assms(3), of "(ls_manager y)\<lparr>lm_locks := (lm_locks (ls_manager y))(lk_Path h := None)\<rparr>"] assms(13)
    by (simp add: h)
  have "request_name h \<noteq> request_name l" using queue_distinct [OF wf assms(12)] by simp
  then have "ticket name (lk_Sequence l) \<noteq> ticket name (lk_Sequence h)" by (auto simp: ticket_def request_name_def)
  then have "tree_of s' (ticket name (lk_Sequence l)) = tree_of (ls_store y) (ticket name (lk_Sequence l))"
    by (intro s'(3)) (simp_all add: ticket_def good_lock_elems [OF assms(3)])
  then have alive: "lock_alive y' l" "\<not> lock_alive y' h" if "ls_store y' = s'" for y'
    using assms(11) s'(2) that by (simp_all add: lock_alive_def store_simps h l(2))
  have "checkLockAcquired s' (lock_path name) (lk_Path l) = Inr True" by (rule first_acquires [OF assms(3) s'(1) l(2)])
  then obtain y' where y': "lock_run [CallStep i Woken, CallStep i (Proceed t1 t2), CallStep i (Proceed t3 t4), CallStep i (Proceed t5 t6)] ?y = Some y'"
    "ls_store y' = s'" "lc_pc (ls_calls y' ! i) = Returned (Inr (l\<lparr>lk_Acquired := t3\<rparr>))"
    "lm_locks (ls_manager y') (lk_Path l) = Some (l\<lparr>lk_Acquired := t3\<rparr>)" "lm_waiters (ls_manager y') name = Some ws"
    using woken_returns [of i ?y l w timer ws t1 t2 t3 t4 t5 t6] assms(8-10,13) l(1) w by auto
  show ?thesis
    using lock_run_append [OF run] y' alive [OF y'(2)] by (intro exI [of _ y']) simp
qed

theorem release_hands_over_witness:
  "\<exists>y y' h l. reachable lock_initial lock_step y \<and> view y 0 = Holds ''a'' 1 True \<and> view y 1 = Waits ''a'' 2 True \<and>
     lc_pc (ls_calls y ! 0) = Returned (Inr h) \<and>
     lock_run (ReleaseLock (Some h) # RunCallback (length (ls_spawned y)) # CallStep 1 Woken # replicate 3 (proceed 1)) y = Some y' \<and>
     lc_pc (ls_calls y' ! 1) = Returned (Inr l) \<and> lk_Owner l = ''bob'' \<and> lock_alive y' l \<and> \<not> lock_alive y' h"
proof -
  let ?h = "(new_lock ''a'' ''anna'' ''s1'' ''/locks/a/lock-0000000001'')\<lparr>lk_Acquired := 0\<rparr>"
  let ?l = "new_lock ''a'' ''bob'' ''s2'' ''/locks/a/lock-0000000002''"
  let ?v = "\<lambda>y. (length (ls_calls y), lc_pc (ls_calls y ! 0), lc_pc (ls_calls y ! 1), view y 0, view y 1)"
  let ?u = "\<lambda>y. (s_onNodeDelete (ls_store y), lm_waiters (ls_manager y) ''a'', Store_GetChildren (ls_store y) (lock_path ''a''))"
  have "map_option (\<lambda>y. (?v y, ?u y)) (short_run two_calls (lock_base LockDeleted)) =
      Some ((2, Returned (Inr ?h), AtWait ?l 0 None, Holds ''a'' 1 True, Waits ''a'' 2 True),
            (Some LockDeleted, Some [0], Inr [request_name ?h, request_name ?l]))" by code_simp
  then obtain y where y: "short_run two_calls (lock_base LockDeleted) = Some y"
    and v: "length (ls_calls y) = 2" "lc_pc (ls_calls y ! 0) = Returned (Inr ?h)" "lc_pc (ls_calls y ! 1) = AtWait ?l 0 None"
      "view y 0 = Holds ''a'' 1 True" "view y 1 = Waits ''a'' 2 True"
    and u: "s_onNodeDelete (ls_store y) = Some LockDeleted" "lm_waiters (ls_manager y) ''a'' = Some [0]"
      "Store_GetChildren (ls_store y) (lock_path ''a'') = Inr [request_name ?h, request_name ?l]"
    unfolding map_option_eq_Some prod.inject by (elim exE conjE) (rule that, assumption+)
  have r: "reachable lock_initial lock_step y" using short_run_reachable [OF y lock_base_reachable] .
  have names: "lk_Name ?h = ''a''" "lk_Name ?l = ''a''" "lk_Owner ?l = ''bob''" by (simp_all add: new_lock_def)
  have alive: "lock_alive y ?h" "lock_alive y ?l" using view_Holds [OF v(4)] view_Waits [OF v(5)] v(2,3) by auto
  have good: "good_elem ''a''" by code_simp
  have mem: "ls_calls y ! 0 \<in> set (ls_calls y)" "1 < length (ls_calls y)" using v(1) by simp_all
  obtain y' where "lock_run [ReleaseLock (Some ?h), RunCallback (length (ls_spawned y)), CallStep 1 Woken,
         CallStep 1 (Proceed 0 0), CallStep 1 (Proceed 0 0), CallStep 1 (Proceed 0 0)] y = Some y'"
     "lc_pc (ls_calls y' ! 1) = Returned (Inr (?l\<lparr>lk_Acquired := 0\<rparr>))" "lock_alive y' ?l" "\<not> lock_alive y' ?h"
    using release_hands_over [OF r u(1) good mem(1) v(2) names(1) alive(1) mem(2) v(3) names(2) alive(2) u(3,2), of 0 0 0 0 0 0]
    by blast
  then show ?thesis using r v names(3)
    by (intro exI [of _ y] exI [of _ y'] exI [of _ ?h] exI [of _ "?l\<lparr>lk_Acquired := 0\<rparr>"] conjI)
       (simp_all add: proceed_def numeral_3_eq_3 lock_alive_def)
qed

end
