(* ===== verification/LockQueue.thy ===== *)
theory LockQueue
  imports LockProperties
begin

text \<open>
  The contract of a lock as an abstract queue, and the proof that the system of lock calls over
  \<open>internal/lock/manager.go\<close> implements it: requests join at the end with a ticket that was never
  used before, any of them may leave, and only the first one is ever granted the lock.
\<close>

section \<open>The abstract queue lock\<close>

text \<open>
  The tickets in the queue, those of them that were granted the lock, and the last ticket that was
  issued. Tickets are shared by all locks, so some of them are skipped here; one that has left the
  queue never comes back.
\<close>

record queue_lock =
  ql_queue :: "u64 list"
  ql_held :: "u64 set"
  ql_last :: u64

inductive queue_step :: "queue_lock \<Rightarrow> queue_lock \<Rightarrow> bool" where
  join: "ql_last a < k \<Longrightarrow> queue_step a (a\<lparr>ql_queue := ql_queue a @ [k], ql_last := k\<rparr>)"
| skip: "ql_last a \<le> k \<Longrightarrow> queue_step a (a\<lparr>ql_last := k\<rparr>)"
| leave: "queue_step a (a\<lparr>ql_queue := filter P (ql_queue a), ql_held := {h \<in> ql_held a. P h}\<rparr>)"
| grant: "ql_queue a = k # q \<Longrightarrow> queue_step a (a\<lparr>ql_held := insert k (ql_held a)\<rparr>)"

inductive_cases queue_stepE [elim!]: "queue_step a b"

definition queue_initial :: "queue_lock \<Rightarrow> bool" where
  "queue_initial a \<longleftrightarrow> ql_queue a = [] \<and> ql_held a = {}"

text \<open>The queue is in the order of the tickets, and nobody but the head is granted the lock.\<close>

definition queue_inv :: "queue_lock \<Rightarrow> bool" where
  "queue_inv a \<longleftrightarrow> sorted (ql_queue a) \<and> distinct (ql_queue a) \<and> (\<forall>h \<in> ql_held a. \<exists>q. ql_queue a = h # q) \<and>
     (\<forall>j \<in> set (ql_queue a). j \<le> ql_last a)"

interpretation queue_locks: transition_system queue_initial queue_step queue_inv
proof
  show "queue_inv a" if "queue_initial a" for a using that by (simp add: queue_initial_def queue_inv_def)
  show "queue_inv b" if "queue_inv a" "queue_step a b" for a b
    using that(2,1)
  proof cases
    case (join k)
    then show ?thesis using that(1) by (force simp: queue_inv_def sorted_append)
  next
    case (skip k)
    then show ?thesis using that(1) by (auto simp: queue_inv_def)
  next
    case (leave P)
    then show ?thesis using that(1) by (fastforce simp: queue_inv_def sorted_wrt_filter)
  next
    case (grant k q)
    then show ?thesis using that(1) by (auto simp: queue_inv_def)
  qed
qed

section \<open>The queue of a lock\<close>

definition live_set :: "lock_system \<Rightarrow> string \<Rightarrow> u64 set" where
  "live_set y name = {k. ticket_live y (name, k)}"

definition held_set :: "lock_system \<Rightarrow> string \<Rightarrow> u64 set" where
  "held_set y name = {k. ticket_live y (name, k) \<and> ticket_granted y (name, k)}"

definition queue_of :: "lock_system \<Rightarrow> string \<Rightarrow> queue_lock" where
  "queue_of y name = \<lparr>ql_queue = sorted_list_of_set (live_set y name), ql_held = held_set y name,
     ql_last = s_seqCounter (ls_store y)\<rparr>"

lemma set_queue [simp]: "set (sorted_list_of_set (L :: u64 set)) = L"
  by simp

lemma queue_filter: "filter P (sorted_list_of_set (L :: u64 set)) = sorted_list_of_set {k \<in> L. P k}"
  by (rule sorted_distinct_set_unique) (auto simp: sorted_wrt_filter)

lemma queue_snoc:
  assumes "\<forall>j \<in> L. j < (k :: u64)"
  shows "sorted_list_of_set L @ [k] = sorted_list_of_set (insert k L)"
proof (rule sorted_distinct_set_unique)
  show "sorted (sorted_list_of_set L @ [k])" "distinct (sorted_list_of_set L @ [k])" using assms by (auto simp: sorted_append less_imp_le)
  show "set (sorted_list_of_set L @ [k]) = set (sorted_list_of_set (insert k L))" unfolding set_append set_queue by simp
qed (rule sorted_sorted_list_of_set distinct_sorted_list_of_set)+

lemma queue_head:
  assumes "k \<in> L" "\<forall>j \<in> L. k \<le> (j :: u64)"
  shows "\<exists>q. sorted_list_of_set L = k # q"
proof (cases "sorted_list_of_set L")
  case (Cons j q)
  have L: "L = set (j # q)" "sorted (j # q)" using set_queue [of L] sorted_sorted_list_of_set [of L] by (simp_all add: Cons del: set_queue)
  then have "j \<le> k" "k \<le> j" using assms by auto
  then show ?thesis using Cons by simp
qed (use assms set_queue [of L] in auto)

lemma live_bound: "lock_inv y \<Longrightarrow> k \<in> live_set y name \<Longrightarrow> k \<le> s_seqCounter (ls_store y)"
  using calls_ok_request by (auto simp: live_set_def ticket_live_def lock_inv_def)

text \<open>A call that has been granted the lock keeps it, until it is released or its node is gone.\<close>

lemma call_step_granted:
  assumes "lock_call_step inp c (s, m) = Some (c', (s', m'), ev)" "pc_granted (lc_pc c)" "request c k"
  shows "request c' k \<and> lc_name c' = lc_name c \<and> pc_granted (lc_pc c')"
  using assms
  by (cases inp; cases c rule: lock_call.cases; cases "lc_pc c" rule: pc_granted.cases)
     (auto simp: lock_call_step_def request_def record_lock_def Let_def goto_def split: option.splits)

lemma granted_kept:
  assumes "lock_step y y'" "ticket_granted y t"
  shows "ticket_granted y' t"
proof -
  obtain l where run: "lock_exec l y = Some y'" using assms(1) by (auto simp: lock_step_def)
  obtain c where c: "c \<in> set (ls_calls y)" "lc_name c = fst t" "request c (snd t)" "pc_granted (lc_pc c)"
    using assms(2) by (auto simp: ticket_granted_def)
  show ?thesis
  proof (cases l)
    case (CallStep i inp)
    then obtain c' s' m' ev where i: "i < length (ls_calls y)" "lock_call_step inp (ls_calls y ! i) (ls_store y, ls_manager y) = Some (c', (s', m'), ev)"
      and y': "ls_calls y' = (ls_calls y)[i := c']" using run by (auto split: if_splits option.splits)
    obtain j where j: "j < length (ls_calls y)" "c = ls_calls y ! j" using c(1) by (auto simp: in_set_conv_nth)
    have "(ls_calls y)[i := c'] ! j \<in> set (ls_calls y')" using j(1) y' by simp
    then show ?thesis using call_step_granted [OF i(2)] c j i(1) by (cases "i = j") (auto simp: ticket_granted_def)
  qed (use run c in \<open>auto simp: ticket_granted_def Unlock_def Let_def split: if_splits option.splits prod.splits\<close>)
qed

lemma counter_grows:
  assumes "lock_inv y" "lock_step y y'"
  shows "s_seqCounter (ls_store y) \<le> s_seqCounter (ls_store y')"
  using lock_exec_cases [OF assms(1)] assms(2) by (auto simp: lock_step_def)

text \<open>The tickets that stay, the one that is new, and the one that is granted in a step.\<close>

lemma queue_stay:
  "queue_step (queue_of y name) \<lparr>ql_queue = sorted_list_of_set (live_set y name \<inter> live_set y' name),
     ql_held = held_set y name \<inter> live_set y' name, ql_last = s_seqCounter (ls_store y)\<rparr>"
  using queue_step.leave [of "queue_of y name" "\<lambda>k. k \<in> live_set y' name"]
  by (simp add: queue_of_def queue_filter Int_def)

lemma queue_enter:
  assumes inv: "lock_inv y" and step: "lock_step y y'" and inv': "lock_inv y'"
  shows "queue_step\<^sup>*\<^sup>*
     \<lparr>ql_queue = sorted_list_of_set (live_set y name \<inter> live_set y' name), ql_held = H, ql_last = s_seqCounter (ls_store y)\<rparr>
     \<lparr>ql_queue = sorted_list_of_set (live_set y' name), ql_held = H, ql_last = s_seqCounter (ls_store y')\<rparr>"
    (is "queue_step\<^sup>*\<^sup>* ?a ?b")
proof (cases "live_set y' name \<subseteq> live_set y name")
  case True
  then show ?thesis using queue_step.skip [of ?a "s_seqCounter (ls_store y')"] counter_grows [OF inv step]
    by (simp add: Int_absorb1 Int_commute r_into_rtranclp)
next
  case False
  let ?k = "s_seqCounter (ls_store y) + 1" and ?L = "live_set y name \<inter> live_set y' name"
  have new: "k = ?k \<and> s_seqCounter (ls_store y) < ?k" if "k \<in> live_set y' name" "k \<notin> live_set y name" for k
    using live_is_new [OF inv step, of "(name, k)"] that by (auto simp: live_set_def)
  then have L: "live_set y' name = insert ?k ?L" "s_seqCounter (ls_store y) < ?k" using False by auto
  have "\<forall>j \<in> ?L. j < ?k" using live_bound [OF inv] L(2) by (auto intro: le_less_trans)
  then have "queue_step ?a (?b\<lparr>ql_last := ?k\<rparr>)"
    using queue_step.join [of ?a ?k] L(2) by (simp add: queue_snoc L(1) [symmetric])
  moreover have "?k \<le> s_seqCounter (ls_store y')" using live_bound [OF inv', of ?k name] L(1) by blast
  then have "queue_step (?b\<lparr>ql_last := ?k\<rparr>) ?b"
    using queue_step.skip [of "?b\<lparr>ql_last := ?k\<rparr>" "s_seqCounter (ls_store y')"] by simp
  ultimately show ?thesis by (rule converse_rtranclp_into_rtranclp [OF _ r_into_rtranclp])
qed

lemma held_live: "held_set y name \<subseteq> live_set y name"
  by (auto simp: held_set_def live_set_def)

lemma held_kept: "lock_step y y' \<Longrightarrow> held_set y name \<inter> live_set y' name \<subseteq> held_set y' name"
  using granted_kept by (auto simp: held_set_def live_set_def)

lemma held_new:
  assumes inv: "lock_inv y" and step: "lock_step y y'" and j: "j \<in> held_set y' name" "j \<notin> held_set y name" and i: "i \<in> live_set y' name"
  shows "j \<le> i"
proof -
  have live: "ticket_live y' (name, j)" "ticket_granted y' (name, j)" using j(1) by (simp_all add: held_set_def)
  have "ticket_live y (name, j)" using live_is_new [OF inv step live(1)] live(2) by blast
  then have "\<not> ticket_granted y (name, j)" using j(2) by (simp add: held_set_def)
  then show ?thesis using granted_is_first [OF inv step live(2)] i by (fastforce simp: live_set_def)
qed

lemma queue_hold:
  assumes inv: "lock_inv y" and step: "lock_step y y'"
  shows "queue_step\<^sup>*\<^sup>* \<lparr>ql_queue = sorted_list_of_set (live_set y' name), ql_held = held_set y name \<inter> live_set y' name,
       ql_last = s_seqCounter (ls_store y')\<rparr> (queue_of y' name)"
proof (cases "held_set y' name \<subseteq> held_set y name")
  case True
  then have "held_set y name \<inter> live_set y' name = held_set y' name" using held_kept [OF step] held_live by blast
  then show ?thesis by (simp add: queue_of_def)
next
  case False
  then obtain k where k: "k \<in> held_set y' name" "k \<notin> held_set y name" by blast
  have kl: "k \<in> live_set y' name" using k(1) held_live by blast
  have "j = k" if j: "j \<in> held_set y' name" "j \<notin> held_set y name" for j
  proof (rule antisym)
    show "j \<le> k" by (rule held_new [OF inv step j kl])
    show "k \<le> j" using held_new [OF inv step k] j(1) held_live by blast
  qed
  then have H: "held_set y' name = insert k (held_set y name \<inter> live_set y' name)"
    using k(1) held_kept [OF step, of name] held_live [of y' name] by blast
  obtain q where "sorted_list_of_set (live_set y' name) = k # q" using queue_head [OF kl] held_new [OF inv step k] by blast
  then have "queue_step \<lparr>ql_queue = sorted_list_of_set (live_set y' name), ql_held = held_set y name \<inter> live_set y' name,
        ql_last = s_seqCounter (ls_store y')\<rparr> (queue_of y' name)"
    using queue_step.grant [of "\<lparr>ql_queue = sorted_list_of_set (live_set y' name), ql_held = held_set y name \<inter> live_set y' name,
        ql_last = s_seqCounter (ls_store y')\<rparr>" k q]
    by (simp add: queue_of_def H)
  then show ?thesis by (rule r_into_rtranclp)
qed

text \<open>
  C4. The locks refine queues: at the start the queue of every lock is empty, and every step of the
  system, whatever calls, releases, sessions and other clients do, is for every lock a sequence of
  steps of the abstract queue lock: requests join at the end with a ticket above all earlier ones,
  requests leave for good, and the lock is granted to the head of the queue, which keeps it until
  it leaves.
\<close>

theorem locks_refine_queue:
  assumes "reachable lock_initial lock_step y"
  shows "(lock_initial y \<longrightarrow> queue_initial (queue_of y name)) \<and>
    (\<forall>y'. lock_step y y' \<longrightarrow> queue_step\<^sup>*\<^sup>* (queue_of y name) (queue_of y' name))"
proof (intro conjI allI impI)
  show "queue_initial (queue_of y name)" if "lock_initial y"
    using that by (simp add: queue_initial_def queue_of_def live_set_def held_set_def ticket_live_def lock_initial_def)
  have inv: "lock_inv y" using lock_tickets.reachable_invar assms by blast
  show "queue_step\<^sup>*\<^sup>* (queue_of y name) (queue_of y' name)" if step: "lock_step y y'" for y'
  proof -
    have inv': "lock_inv y'" by (rule lock_tickets.reachable_invar [OF reach_step [OF assms step]])
    show ?thesis
      by (rule converse_rtranclp_into_rtranclp [OF queue_stay rtranclp_trans [OF queue_enter [OF inv step inv'] queue_hold [OF inv step]]])
  qed
qed

lemma view_queue:
  assumes "lock_inv y" "i < length (ls_calls y)"
  shows "view y i = Holds ''a'' k True \<Longrightarrow> k \<in> held_set y ''a''" and "view y i = Waits ''a'' k True \<Longrightarrow> k \<in> live_set y ''a''"
proof -
  have plain: "plain ''a''" by (rule plain_good) (simp add: good_elem_def)
  note mem = nth_mem [OF assms(2)]
  show "k \<in> held_set y ''a''" if v: "view y i = Holds ''a'' k True"
  proof -
    obtain l where l: "lc_pc (ls_calls y ! i) = Returned (Inr l)" "lk_Name l = ''a''" "lk_Sequence l = k" "lock_alive y l" using view_Holds [OF v] by auto
    have pc: "pc_lock (lc_pc (ls_calls y ! i)) = Some l" "pc_granted (lc_pc (ls_calls y ! i))" using l(1) by simp_all
    obtain k' where "lk_Name l = lc_name (ls_calls y ! i)" "plain (lc_name (ls_calls y ! i)) \<Longrightarrow> lk_Sequence l = k'"
      "plain (lc_name (ls_calls y ! i)) \<Longrightarrow> lock_alive y l \<Longrightarrow> ticket_live y (lc_name (ls_calls y ! i), k')"
      "ticket_granted y (lc_name (ls_calls y ! i), k')"
      using call_ticket [OF assms(1) mem pc(1)] pc(2) by metis
    then show ?thesis using l plain by (simp add: held_set_def)
  qed
  show "k \<in> live_set y ''a''" if v: "view y i = Waits ''a'' k True"
  proof -
    obtain l w t where l: "lc_pc (ls_calls y ! i) = AtWait l w t" "lk_Name l = ''a''" "lk_Sequence l = k" "lock_alive y l" using view_Waits [OF v] by auto
    have pc: "pc_lock (lc_pc (ls_calls y ! i)) = Some l" using l(1) by simp
    obtain k' where "lk_Name l = lc_name (ls_calls y ! i)" "plain (lc_name (ls_calls y ! i)) \<Longrightarrow> lk_Sequence l = k'"
      "plain (lc_name (ls_calls y ! i)) \<Longrightarrow> lock_alive y l \<Longrightarrow> ticket_live y (lc_name (ls_calls y ! i), k')"
      using call_ticket [OF assms(1) mem pc] by metis
    then show ?thesis using l plain by (simp add: live_set_def)
  qed
qed

text \<open>The holder of a lock for which another call waits releases it.\<close>

theorem locks_refine_queue_witness:
  "\<exists>y y'. reachable lock_initial lock_step y \<and> 1 \<in> ql_held (queue_of y ''a'') \<and> 2 \<in> set (ql_queue (queue_of y ''a'')) \<and>
     lock_step y y' \<and> view y' 0 = Holds ''a'' 1 False \<and> queue_step\<^sup>*\<^sup>* (queue_of y ''a'') (queue_of y' ''a'')"
proof -
  let ?h = "(new_lock ''a'' ''anna'' ''s1'' ''/locks/a/lock-0000000001'')\<lparr>lk_Acquired := 0\<rparr>"
  let ?v = "\<lambda>y. (length (ls_calls y), view y 0, view y 1)"
  have "map_option ?v (short_run two_calls (lock_base LockDeleted)) = Some (2, Holds ''a'' 1 True, Waits ''a'' 2 True)" by code_simp
  then obtain y where y: "short_run two_calls (lock_base LockDeleted) = Some y" "?v y = (2, Holds ''a'' 1 True, Waits ''a'' 2 True)"
    unfolding map_option_eq_Some by (elim exE conjE) (rule that)
  have "map_option (\<lambda>y. view y 0) (Option.bind (short_run two_calls (lock_base LockDeleted)) (lock_exec (ReleaseLock (Some ?h)))) =
      Some (Holds ''a'' 1 False)" by code_simp
  then obtain y' where y': "lock_exec (ReleaseLock (Some ?h)) y = Some y'" "view y' 0 = Holds ''a'' 1 False"
    unfolding map_option_eq_Some y(1) bind.bind_lunit by (elim exE conjE) (rule that)
  have r: "reachable lock_initial lock_step y" using short_run_reachable [OF y(1) lock_base_reachable] .
  then have inv: "lock_inv y" by (rule lock_tickets.reachable_invar)
  have "lock_guard (ReleaseLock (Some ?h)) y" by simp
  then have step: "lock_step y y'" using y'(1) unfolding lock_step_def by blast
  have v: "0 < length (ls_calls y)" "1 < length (ls_calls y)" "view y 0 = Holds ''a'' 1 True" "view y 1 = Waits ''a'' 2 True" using y(2) by auto
  have "1 \<in> held_set y ''a''" "2 \<in> live_set y ''a''" by (rule view_queue(1) [OF inv v(1,3)], rule view_queue(2) [OF inv v(2,4)])
  then have q: "1 \<in> ql_held (queue_of y ''a'')" "2 \<in> set (ql_queue (queue_of y ''a''))" by (simp_all add: queue_of_def)
  have "queue_step\<^sup>*\<^sup>* (queue_of y ''a'') (queue_of y' ''a'')" using locks_refine_queue [OF r] step by blast
  then show ?thesis by (intro exI conjI) (rule r q step y'(2) | assumption)+
qed

end
