(* ===== verification/RaftLogMatching.thy ===== *)
theory RaftLogMatching
  imports RaftCluster "HOL-Library.Sublist"
begin

text \<open>
  Log matching for the cluster of \<open>internal/raft/node.go\<close>: two nodes whose logs have an entry of the
  same term at the same index agree on all entries up to it. The proof keeps the set of all
  sequences of entries that a log has begun with so far; a leader only adds to it, and what a
  follower stores was in it before.
\<close>

section \<open>Chains\<close>

text \<open>
  A set of logs, closed under prefixes, in which the index and the term of an entry determine
  everything up to it.
\<close>

definition chain_set :: "LogEntry list set \<Rightarrow> bool" where
  "chain_set C \<longleftrightarrow> (\<forall>xs \<in> C. log_wf \<lparr>log_entries = xs\<rparr>) \<and> (\<forall>xs ys. xs @ ys \<in> C \<longrightarrow> xs \<in> C) \<and>
     (\<forall>xs e ys f. xs @ [e] \<in> C \<and> ys @ [f] \<in> C \<and> length xs = length ys \<and> le_Term e = le_Term f \<longrightarrow> xs @ [e] = ys @ [f])"

lemma chain_prefix: "chain_set C \<Longrightarrow> xs @ ys \<in> C \<Longrightarrow> xs \<in> C"
  unfolding chain_set_def by blast

lemma chain_wf: "chain_set C \<Longrightarrow> xs \<in> C \<Longrightarrow> log_wf \<lparr>log_entries = xs\<rparr>"
  unfolding chain_set_def by blast

lemma chain_unique:
  "chain_set C \<Longrightarrow> xs @ [e] \<in> C \<Longrightarrow> ys @ [f] \<in> C \<Longrightarrow> length xs = length ys \<Longrightarrow> le_Term e = le_Term f \<Longrightarrow> xs @ [e] = ys @ [f]"
  unfolding chain_set_def by blast

lemma chain_take: "chain_set C \<Longrightarrow> xs \<in> C \<Longrightarrow> take k xs \<in> C"
  using chain_prefix [of C "take k xs" "drop k xs"] by simp

lemma chain_agree:
  assumes C: "chain_set C" "xs \<in> C" "ys \<in> C" and i: "i < length xs" "i < length ys" "le_Term (xs ! i) = le_Term (ys ! i)"
  shows "take (Suc i) xs = take (Suc i) ys"
proof -
  have "take i xs @ [xs ! i] \<in> C" "take i ys @ [ys ! i] \<in> C"
    using chain_take [OF C(1,2), of "Suc i"] chain_take [OF C(1,3), of "Suc i"] i by (simp_all add: take_Suc_conv_app_nth)
  from chain_unique [OF C(1) this] show ?thesis using i by (simp add: take_Suc_conv_app_nth)
qed

lemma chain_extend:
  assumes C: "chain_set C" "xs \<in> C" and wf: "log_wf \<lparr>log_entries = xs @ [e]\<rparr>"
    and new: "\<And>ys f. ys @ [f] \<in> C \<Longrightarrow> le_Term f = le_Term e \<Longrightarrow> length ys \<noteq> length xs"
  shows "chain_set (insert (xs @ [e]) C)"
  unfolding chain_set_def
proof (intro conjI ballI allI impI)
  show "log_wf \<lparr>log_entries = ys\<rparr>" if "ys \<in> insert (xs @ [e]) C" for ys using that wf chain_wf [OF C(1)] by auto
  show "ys \<in> insert (xs @ [e]) C" if "ys @ zs \<in> insert (xs @ [e]) C" for ys zs
    using that C chain_prefix [OF C(1)] by (cases zs rule: rev_cases) auto
  show "ys @ [f] = zs @ [g]" if eq: "ys @ [f] \<in> insert (xs @ [e]) C \<and> zs @ [g] \<in> insert (xs @ [e]) C \<and>
      length ys = length zs \<and> le_Term f = le_Term g" for ys f zs g
  proof (cases "ys @ [f] \<in> C \<and> zs @ [g] \<in> C")
    case True
    then show ?thesis using eq chain_unique [OF C(1)] by blast
  next
    case False
    then show ?thesis using eq new [of ys f] new [of zs g] by auto
  qed
qed

section \<open>The invariant\<close>

text \<open>The candidacy that the main loop of a node is in.\<close>

definition active :: "'m cluster \<Rightarrow> string \<Rightarrow> nat \<Rightarrow> bool" where
  "active c p r \<longleftrightarrow> cl_pc c p = Spawned r \<or> (\<exists>t. cl_pc c p = Counting r t)"

text \<open>A node that has been leader of a term: it was elected, and its candidacy is over.\<close>

definition led :: "'m cluster \<Rightarrow> string \<Rightarrow> u64 \<Rightarrow> bool" where
  "led c q T \<longleftrightarrow> (\<exists>S. cluster_quorum (dom (cl_nodes c)) S \<and> (\<forall>v \<in> S. (v, T, q) \<in> set (cl_granted c))) \<and>
     (\<forall>r. active c q r \<longrightarrow> run_term (cl_runs c ! r) \<noteq> T)"

text \<open>The entries of a request continue a chain at the index and the term that it names.\<close>

fun rpc_chain :: "LogEntry list set \<Rightarrow> rpc \<Rightarrow> bool" where
  "rpc_chain C (BeatSent p T a req) \<longleftrightarrow> aq_Entries req \<noteq> [] \<longrightarrow>
     (\<exists>xs. xs @ aq_Entries req \<in> C \<and> length xs = unat (aq_PrevLogIndex req) \<and>
        (xs \<noteq> [] \<longrightarrow> le_Term (last xs) = aq_PrevLogTerm req))"
| "rpc_chain C _ \<longleftrightarrow> True"

definition node_log :: "'m Node \<Rightarrow> LogEntry list" where
  "node_log n = log_entries (st_log (nd_state n))"

definition log_inv :: "LogEntry list set \<Rightarrow> 'm cluster \<Rightarrow> bool" where
  "log_inv C c \<longleftrightarrow> chain_set C \<and> (\<forall>p n. cl_nodes c p = Some n \<longrightarrow> node_log n \<in> C) \<and> (\<forall>x \<in> set (cl_rpcs c). rpc_chain C x) \<and>
     (\<forall>xs e. xs @ [e] \<in> C \<longrightarrow> (\<exists>q. led c q (le_Term e))) \<and>
     (\<forall>p n. cl_nodes c p = Some n \<and> IsLeader n \<longrightarrow> (\<forall>r. \<not> active c p r) \<and>
        (\<forall>xs e. xs @ [e] \<in> C \<and> le_Term e = currentTerm (nd_state n) \<longrightarrow> prefix (xs @ [e]) (node_log n)))"

lemma log_invI:
  assumes "chain_set C" "\<And>p n. cl_nodes c p = Some n \<Longrightarrow> node_log n \<in> C" "\<And>x. x \<in> set (cl_rpcs c) \<Longrightarrow> rpc_chain C x"
    and "\<And>xs e. xs @ [e] \<in> C \<Longrightarrow> \<exists>q. led c q (le_Term e)"
    and "\<And>p n r. cl_nodes c p = Some n \<Longrightarrow> IsLeader n \<Longrightarrow> \<not> active c p r"
    and "\<And>p n xs e. cl_nodes c p = Some n \<Longrightarrow> IsLeader n \<Longrightarrow> xs @ [e] \<in> C \<Longrightarrow> le_Term e = currentTerm (nd_state n) \<Longrightarrow>
      prefix (xs @ [e]) (node_log n)"
  shows "log_inv C c"
  using assms unfolding log_inv_def by blast

lemma log_inv_chain: "log_inv C c \<Longrightarrow> chain_set C"
  by (simp add: log_inv_def)

lemma log_inv_node: "log_inv C c \<Longrightarrow> cl_nodes c p = Some n \<Longrightarrow> node_log n \<in> C"
  by (simp add: log_inv_def)

lemma log_inv_rpc: "log_inv C c \<Longrightarrow> x \<in> set (cl_rpcs c) \<Longrightarrow> rpc_chain C x"
  by (simp add: log_inv_def)

lemma log_inv_led: "log_inv C c \<Longrightarrow> xs @ [e] \<in> C \<Longrightarrow> \<exists>q. led c q (le_Term e)"
  by (simp add: log_inv_def)

lemma log_inv_leader:
  "log_inv C c \<Longrightarrow> cl_nodes c p = Some n \<Longrightarrow> IsLeader n \<Longrightarrow> (\<forall>r. \<not> active c p r) \<and>
     (\<forall>xs e. xs @ [e] \<in> C \<and> le_Term e = currentTerm (nd_state n) \<longrightarrow> prefix (xs @ [e]) (node_log n))"
  by (simp add: log_inv_def)

text \<open>
  What a step that adds no entry may do: nodes keep their logs, or take one that there has been and
  are not leaders; none becomes leader; votes are only added; a candidacy goes on or starts with a
  term later than all the terms of its node; and the requests that are new continue chains.
\<close>

definition kept :: "LogEntry list set \<Rightarrow> 'm Node \<Rightarrow> 'm Node \<Rightarrow> bool" where
  "kept C n n' \<longleftrightarrow> node_log n' = node_log n \<or> node_log n' \<in> C \<and> \<not> IsLeader n'"

lemma keptI: "node_log n' = node_log n \<Longrightarrow> kept C n n'"
  by (simp add: kept_def)

definition log_frame :: "LogEntry list set \<Rightarrow> 'm cluster \<Rightarrow> 'm cluster \<Rightarrow> bool" where
  "log_frame C c c' \<longleftrightarrow> dom (cl_nodes c') = dom (cl_nodes c) \<and> set (cl_granted c) \<subseteq> set (cl_granted c') \<and>
     (\<forall>p n'. cl_nodes c' p = Some n' \<longrightarrow> (\<exists>n. cl_nodes c p = Some n \<and> kept C n n' \<and>
        (IsLeader n' \<longrightarrow> IsLeader n \<and> currentTerm (nd_state n') = currentTerm (nd_state n) \<and> (\<forall>r. active c' p r \<longrightarrow> active c p r)))) \<and>
     (\<forall>q r. active c' q r \<longrightarrow> active c q r \<and> run_term (cl_runs c' ! r) = run_term (cl_runs c ! r) \<or> node_term c q < run_term (cl_runs c' ! r)) \<and>
     (\<forall>x \<in> set (cl_rpcs c'). x \<in> set (cl_rpcs c) \<or> rpc_chain C x)"

lemma led_term:
  assumes "election_inv c" "led c q T"
  shows "T \<le> node_term c q"
proof -
  obtain S where S: "cluster_quorum (dom (cl_nodes c)) S" "\<forall>v \<in> S. (v, T, q) \<in> set (cl_granted c)"
    using assms(2) by (auto simp: led_def)
  then have "S \<noteq> {}" by (auto simp: cluster_quorum_def)
  then obtain v where "v \<in> S" by blast
  then have "(v, T, q) \<in> set (cl_granted c)" using S(2) by blast
  moreover have "votes_once c" using assms(1) by (simp add: election_inv_def)
  ultimately show ?thesis using votes_once_terms by blast
qed

lemma led_frame:
  assumes "election_inv c" "log_frame C c c'" "led c q T"
  shows "led c' q T"
proof -
  have "run_term (cl_runs c' ! r) \<noteq> T" if r: "active c' q r" for r
  proof (cases "active c q r \<and> run_term (cl_runs c' ! r) = run_term (cl_runs c ! r)")
    case True
    then show ?thesis using assms(3) by (simp add: led_def)
  next
    case False
    then have "node_term c q < run_term (cl_runs c' ! r)" using assms(2) r unfolding log_frame_def by blast
    then show ?thesis using led_term [OF assms(1,3)] by auto
  qed
  moreover have "set (cl_granted c) \<subseteq> set (cl_granted c')" "dom (cl_nodes c') = dom (cl_nodes c)"
    using assms(2) unfolding log_frame_def by blast+
  moreover obtain S where "cluster_quorum (dom (cl_nodes c)) S" "\<forall>v \<in> S. (v, T, q) \<in> set (cl_granted c)"
    using assms(3) by (auto simp: led_def)
  ultimately show ?thesis by (simp add: led_def) blast
qed

lemma log_inv_frame:
  assumes el: "election_inv c" and inv: "log_inv C c" and fr: "log_frame C c c'"
  shows "log_inv C c'"
proof (rule log_invI)
  have node: "\<exists>n. cl_nodes c p = Some n \<and> kept C n n' \<and>
      (IsLeader n' \<longrightarrow> IsLeader n \<and> currentTerm (nd_state n') = currentTerm (nd_state n) \<and> (\<forall>r. active c' p r \<longrightarrow> active c p r))"
    if "cl_nodes c' p = Some n'" for p n' using fr that unfolding log_frame_def by blast
  show "chain_set C" using inv by (rule log_inv_chain)
  show "node_log n' \<in> C" if "cl_nodes c' p = Some n'" for p n' using node [OF that] log_inv_node [OF inv] by (auto simp: kept_def)
  show "rpc_chain C x" if "x \<in> set (cl_rpcs c')" for x using fr that log_inv_rpc [OF inv] unfolding log_frame_def by blast
  show "\<exists>q. led c' q (le_Term e)" if "xs @ [e] \<in> C" for xs e
    using log_inv_led [OF inv that] led_frame [OF el fr] by blast
  show "\<not> active c' p r" if "cl_nodes c' p = Some n'" "IsLeader n'" for p n' r
    using node [OF that(1)] that(2) log_inv_leader [OF inv] by blast
  show "prefix (xs @ [e]) (node_log n')" if n': "cl_nodes c' p = Some n'" "IsLeader n'"
    and e: "xs @ [e] \<in> C" "le_Term e = currentTerm (nd_state n')" for p n' xs e
  proof -
    obtain n where "cl_nodes c p = Some n" "node_log n' = node_log n" "IsLeader n" "currentTerm (nd_state n') = currentTerm (nd_state n)"
      using node [OF n'(1)] n'(2) unfolding kept_def by blast
    then show ?thesis using log_inv_leader [OF inv, of p n] e by simp
  qed
qed

section \<open>Steps that store nothing\<close>

lemma log_frameI:
  assumes n: "cl_nodes c p = Some n" "cl_nodes c' = (cl_nodes c)(p \<mapsto> n')" and q: "quiet n n'" "kept C n n'"
    and granted: "set (cl_granted c) \<subseteq> set (cl_granted c')" and pc: "\<And>u. u \<noteq> p \<Longrightarrow> cl_pc c' u = cl_pc c u"
    and act: "\<And>r. active c' p r \<Longrightarrow> active c p r \<and> run_term (cl_runs c' ! r) = run_term (cl_runs c ! r) \<or>
      \<not> IsLeader n' \<and> node_term c p < run_term (cl_runs c' ! r)"
    and runs: "\<And>u r. active c u r \<Longrightarrow> run_term (cl_runs c' ! r) = run_term (cl_runs c ! r)"
    and rpcs: "\<And>x. x \<in> set (cl_rpcs c') \<Longrightarrow> x \<in> set (cl_rpcs c) \<or> rpc_chain C x"
  shows "log_frame C c c'"
  unfolding log_frame_def
proof (intro conjI allI ballI impI)
  have other: "active c' u r \<longleftrightarrow> active c u r" if "u \<noteq> p" for u r using pc [OF that] by (simp add: active_def)
  show "dom (cl_nodes c') = dom (cl_nodes c)" using n dom_upd_same by metis
  show "active c u r \<and> run_term (cl_runs c' ! r) = run_term (cl_runs c ! r) \<or> node_term c u < run_term (cl_runs c' ! r)"
    if "active c' u r" for u r using that other [of u r] act [of r] runs [of u r] by (cases "u = p") auto
  show "\<exists>m. cl_nodes c u = Some m \<and> kept C m m' \<and>
      (IsLeader m' \<longrightarrow> IsLeader m \<and> currentTerm (nd_state m') = currentTerm (nd_state m) \<and> (\<forall>r. active c' u r \<longrightarrow> active c u r))"
    if "cl_nodes c' u = Some m'" for u m'
    using that n q other act by (cases "u = p") (auto simp: quiet_def keptI)
qed (use granted rpcs in auto)

lemma node_log_update [simp]:
  "node_log (n\<lparr>nd_timers := ts\<rparr>) = node_log n" "node_log (n\<lparr>nd_commitCh := b\<rparr>) = node_log n"
  "node_log (timer_receive t n) = node_log n" "node_log (Node_Stop n) = node_log n" "node_log (fst (leader_begin now n)) = node_log n"
  by (simp_all add: node_log_def Node_Stop_def leader_begin_def)

lemma node_log_follower_timeout: "follower_timeout t n = Some n' \<Longrightarrow> node_log n' = node_log n"
  by (auto simp: node_log_def follower_timeout_def raft_simps split: if_splits)

lemma node_log_candidate_begin: "candidate_begin now rnd n = Some (n', T) \<Longrightarrow> node_log n' = node_log n \<and> \<not> IsLeader n'"
  by (auto simp: node_log_def candidate_begin_def IsLeader_def raft_simps Let_def dest!: reset_dest)

lemma node_log_candidate_finish: "candidate_finish now rnd n votes = Some n' \<Longrightarrow> node_log n' = node_log n"
  by (auto simp: node_log_def candidate_finish_def raft_simps split: if_splits dest!: reset_dest)

lemma node_log_leader_select: "node_log (fst (fst (leader_select now keys ev n))) = node_log n"
  by (auto simp: node_log_def leader_select_def leader_check_def updateCommitIndex_def raft_simps Let_def
      split: leader_event.split option.split)

lemma node_log_vote: "HandleRequestVote hb now rnd n req = Some (n', resp) \<Longrightarrow> node_log n' = node_log n"
  using HandleRequestVote_frame(3,4) [of hb now rnd n req n' resp] by (cases "vr_VoteGranted resp") (auto simp: node_log_def raft_simps)

lemma node_log_beat_reply: "node_log (heartbeat_reply hb T a es r n) = node_log n"
  by (auto simp: node_log_def heartbeat_reply_def raft_simps Let_def split: option.split)

lemma node_log_vote_reply: "candidate_reply T (n, v) (hb, Some resp) = (n', v') \<Longrightarrow> node_log n' = node_log n"
  by (auto simp: node_log_def raft_simps split: if_splits)

lemma node_log_wf: "chain_set C \<Longrightarrow> node_log n \<in> C \<Longrightarrow> log_wf (st_log (nd_state n))"
  using chain_wf [of C "node_log n"] by (cases "st_log (nd_state n)") (simp add: node_log_def)

lemma last_take: "0 < k \<Longrightarrow> k \<le> length xs \<Longrightarrow> last (take k xs) = xs ! (k - 1)"
  by (subst last_conv_nth) auto

lemma request_chain:
  assumes C: "chain_set C" "node_log n \<in> C"
  shows "rpc_chain C (BeatSent p T a (heartbeat_request n T a))"
proof -
  let ?i = "map_get (nextIndex (nd_state n)) a - 1" and ?l = "st_log (nd_state n)"
  have wf: "log_wf ?l" by (rule node_log_wf [OF C])
  have req: "aq_Entries (heartbeat_request n T a) = drop (unat ?i) (node_log n)" "aq_PrevLogIndex (heartbeat_request n T a) = ?i"
    "aq_PrevLogTerm (heartbeat_request n T a) = Log_TermAt ?l ?i"
    using wf by (simp_all add: heartbeat_request_def Let_def raft_simps Log_EntriesAfter_wf node_log_def)
  show ?thesis
  proof (cases "drop (unat ?i) (node_log n) = []")
    case False
    then have len: "unat ?i < length (node_log n)" by simp
    have "le_Term (last (take (unat ?i) (node_log n))) = Log_TermAt ?l ?i" if "0 < unat ?i"
    proof -
      have "?i \<noteq> 0" using that unat_gt_0 by blast
      then show ?thesis using that len wf last_take [of "unat ?i" "node_log n"] by (simp add: Log_TermAt_wf node_log_def)
    qed
    then show ?thesis using len C(2) by (auto simp: req intro!: exI [of _ "take (unat ?i) (node_log n)"])
  qed (simp add: req)
qed

lemma set_drop_nth: "set (drop_nth k xs) \<subseteq> set xs"
  by (auto simp: drop_nth_def dest: in_set_takeD in_set_dropD)

lemma active_upd [simp]:
  "active (set_node p n c) u r \<longleftrightarrow> active c u r" "active (c\<lparr>cl_granted := g\<rparr>) u r \<longleftrightarrow> active c u r"
  "active (c\<lparr>cl_rpcs := xs\<rparr>) u r \<longleftrightarrow> active c u r" "active (c\<lparr>cl_runs := rs\<rparr>) u r \<longleftrightarrow> active c u r"
  "active (set_pc p x c) p r \<longleftrightarrow> x = Spawned r \<or> (\<exists>t. x = Counting r t)"
  by (simp_all add: active_def)

lemma active_run: "election_inv c \<Longrightarrow> active c p r \<Longrightarrow> r < length (cl_runs c)"
  using pc_run by (auto simp: active_def)

text \<open>The main loop of node \<open>p\<close> moves on, with a change that stores nothing and makes no leader.\<close>

lemma frame_move:
  assumes "cl_nodes c p = Some n" "quiet n n'" "node_log n' = node_log n"
    and "\<And>r t. x \<noteq> Spawned r \<and> x \<noteq> Counting r t"
  shows "log_frame C c (set_pc p x (set_node p n' c))"
  by (rule log_frameI [OF assms(1) _ assms(2) keptI [OF assms(3)]]) (use assms(4) in auto)

lemma frame_node:
  assumes "cl_nodes c p = Some n" "quiet n n'" "node_log n' = node_log n"
  shows "log_frame C c (set_node p n' c)"
  by (rule log_frameI [OF assms(1) _ assms(2) keptI [OF assms(3)]]) auto

lemma frame_pc:
  assumes "cl_nodes c p = Some n" "\<And>r t. x = Spawned r \<or> x = Counting r t \<Longrightarrow> active c p r"
  shows "log_frame C c (set_pc p x c)"
  by (rule log_frameI [OF assms(1), of _ n]) (use assms in \<open>auto simp: quiet_def keptI fun_upd_idem\<close>)

lemma frame_beats:
  assumes "log_frame C c c'"
  shows "log_frame C c (c'\<lparr>cl_rpcs := cl_rpcs c' @ map (\<lambda>(T, a). BeatStart p T a) calls\<rparr>)"
proof -
  have "active (c'\<lparr>cl_rpcs := cl_rpcs c' @ map (\<lambda>(T, a). BeatStart p T a) calls\<rparr>) = active c'" by (intro ext) simp
  then show ?thesis using assms by (auto simp: log_frame_def)
qed

lemma frame_candidate_begin:
  assumes el: "election_inv c" and step: "main_step (CandidateBegin p now rnd) c = Some c'" and wrap: "node_term c p + 1 \<noteq> 0"
  shows "log_frame C c c'"
proof -
  obtain n n' T where n: "cl_nodes c p = Some n" and b: "candidate_begin now rnd n = Some (n', T)"
    and c': "c' = (set_pc p (Spawned (length (cl_runs c))) (set_node p n' c))
       \<lparr>cl_runs := cl_runs c @ [\<lparr>run_node = p, run_term = T, run_votes = 1, run_from = []\<rparr>],
        cl_rpcs := cl_rpcs c @ map (VoteStart (length (cl_runs c))) (nd_peers n), cl_granted := (p, T, p) # cl_granted c\<rparr>"
    using step by (auto simp: bind_Some_iff Let_def split: if_splits)
  note q = quiet_candidate_begin [OF b] and l = node_log_candidate_begin [OF b]
  show ?thesis
    by (rule log_frameI [OF n, of _ n']) (use q l n wrap active_run [OF el] in \<open>auto simp: c' nth_append keptI\<close>)
qed

lemma frame_leader_begin:
  assumes "main_step (LeaderBegin p now) c = Some c'"
  shows "log_frame C c c'"
proof -
  from assms obtain n where n: "cl_nodes c p = Some n"
    and c': "c' = (set_pc p Leading (set_node p (fst (leader_begin now n)) c))
               \<lparr>cl_rpcs := cl_rpcs c @ map (\<lambda>(T, a). BeatStart p T a) (snd (leader_begin now n))\<rparr>"
    by (auto simp: bind_Some_iff case_prod_unfold split: if_splits)
  have "quiet n (fst (leader_begin now n))" by (rule quiet_same) (simp_all add: leader_begin_def)
  from frame_beats [OF frame_move [OF n this]] show ?thesis by (simp add: c')
qed

lemma frame_leader_select:
  assumes "main_step (LeaderSelect p now keys ev) c = Some c'"
  shows "log_frame C c c'"
proof -
  define x where "x n = (if snd (fst (leader_select now keys ev n)) = InLeader then Leading
                         else Loop (snd (fst (leader_select now keys ev n))))" for n :: "'a Node"
  from assms obtain n where n: "cl_nodes c p = Some n"
    and c': "c' = (set_pc p (x n) (set_node p (fst (fst (leader_select now keys ev n))) c))
               \<lparr>cl_rpcs := cl_rpcs c @ map (\<lambda>(T, a). BeatStart p T a) (snd (leader_select now keys ev n))\<rparr>"
    by (auto simp: bind_Some_iff case_prod_unfold x_def split: if_splits)
  have "log_frame C c (set_pc p (x n) (set_node p (fst (fst (leader_select now keys ev n))) c))"
    by (rule frame_move [OF n quiet_leader_select node_log_leader_select]) (simp add: x_def)
  from frame_beats [OF this] show ?thesis by (simp add: c')
qed

lemma frame_rpc:
  assumes "cl_nodes c p = Some n" "quiet n n'" "kept C n n'"
    and "cl_nodes c' = (cl_nodes c)(p \<mapsto> n')" "cl_pc c' = cl_pc c" "set (cl_granted c) \<subseteq> set (cl_granted c')"
    and "\<And>r. run_term (cl_runs c' ! r) = run_term (cl_runs c ! r)"
    and "\<And>x. x \<in> set (cl_rpcs c') \<Longrightarrow> x \<in> set (cl_rpcs c) \<or> rpc_chain C x"
  shows "log_frame C c c'"
  by (rule log_frameI [OF assms(1,4,2,3)]) (use assms in \<open>auto simp: active_def\<close>)

lemma put_rpc_simps [simp]:
  "cl_nodes (put_rpc k x c) = cl_nodes c" "cl_pc (put_rpc k x c) = cl_pc c" "cl_runs (put_rpc k x c) = cl_runs c"
  "cl_granted (put_rpc k x c) = cl_granted c" "cl_addr (put_rpc k x c) = cl_addr c" "cl_rpcs (put_rpc k x c) = (cl_rpcs c)[k := x]"
  by (simp_all add: put_rpc_def)

lemma end_rpc_simps [simp]:
  "cl_nodes (end_rpc k c) = cl_nodes c" "cl_pc (end_rpc k c) = cl_pc c" "cl_runs (end_rpc k c) = cl_runs c"
  "cl_granted (end_rpc k c) = cl_granted c" "cl_addr (end_rpc k c) = cl_addr c" "cl_rpcs (end_rpc k c) = drop_nth k (cl_rpcs c)"
  by (simp_all add: end_rpc_def)

lemma put_rpc_mem: "x \<in> set ((cl_rpcs c)[k := y]) \<Longrightarrow> x \<in> set (cl_rpcs c) \<or> x = y"
  using set_update_subset_insert by fastforce

lemma end_rpc_mem: "x \<in> set (drop_nth k (cl_rpcs c)) \<Longrightarrow> x \<in> set (cl_rpcs c)"
  using set_drop_nth by fastforce

lemma frame_vote_serve:
  assumes "rpc_step (VoteServe k hb now rnd) c = Some c'"
  shows "log_frame C c c'"
proof -
  from assms obtain r a req n n' resp where n: "cl_nodes c (cl_addr c a) = Some n"
    and h: "HandleRequestVote hb now rnd n req = Some (n', resp)"
    and c': "c' = (if vr_VoteGranted resp
       then (put_rpc k (VoteBack r a resp) (set_node (cl_addr c a) n' c))
         \<lparr>cl_granted := (cl_addr c a, vq_Term req, vq_CandidateID req) # cl_granted (put_rpc k (VoteBack r a resp) (set_node (cl_addr c a) n' c))\<rparr>
       else put_rpc k (VoteBack r a resp) (set_node (cl_addr c a) n' c))"
    by (auto simp: bind_Some_iff Let_def split: option.splits rpc.splits)
  show ?thesis
    by (rule frame_rpc [OF n quiet_vote(1) [OF h] keptI [OF node_log_vote [OF h]]])
       (auto simp: c' split: if_splits dest!: put_rpc_mem)
qed

lemma frame_vote_reply:
  assumes av: "avoids_defects (VoteReply k hb) c" and st: "rpc_step (VoteReply k hb) c = Some c'"
  shows "log_frame C c c'"
proof -
  from st obtain r a resp n where k: "get_rpc k c = Some (VoteBack r a resp)"
    and n: "cl_nodes c (run_node (cl_runs c ! r)) = Some n"
    by (auto simp: bind_Some_iff Let_def simp del: candidate_reply.simps split: option.splits rpc.splits)
  let ?run = "cl_runs c ! r"
  obtain n' votes where res: "candidate_reply (run_term ?run) (n, run_votes ?run) (hb, Some resp) = (n', votes)" by fastforce
  define run' where "run' = ?run\<lparr>run_votes := votes,
      run_from := (if votes = run_votes ?run then run_from ?run else cl_addr c a # run_from ?run)\<rparr>"
  have c': "c' = (end_rpc k (set_node (run_node ?run) n' c))\<lparr>cl_runs := (cl_runs c)[r := run']\<rparr>"
    using st k n res by (simp add: bind_Some_iff Let_def run'_def del: candidate_reply.simps)
  have "run_term ?run < vr_Term resp \<Longrightarrow> currentTerm (nd_state n) \<le> vr_Term resp" using av k n by simp
  then have q: "quiet n n'" using res quiet_follower [of n "vr_Term resp"] quiet_same [of n n] by (auto split: if_splits)
  have "run_term ((cl_runs c)[r := run'] ! u) = run_term (cl_runs c ! u)" for u
    by (cases "u = r \<and> r < length (cl_runs c)") (auto simp: run'_def nth_list_update list_update_beyond)
  then show ?thesis
    by (intro frame_rpc [OF n q keptI [OF node_log_vote_reply [OF res]]]) (auto simp: c' dest: end_rpc_mem)
qed

lemma frame_beat_reply:
  assumes av: "avoids_defects (BeatReply k hb) c" and st: "rpc_step (BeatReply k hb) c = Some c'"
  shows "log_frame C c c'"
proof -
  from st obtain p T a es resp n where k: "get_rpc k c = Some (BeatBack p T a es resp)" and n: "cl_nodes c p = Some n"
    and c': "c' = end_rpc k (set_node p (heartbeat_reply hb T a es (Some resp) n) c)"
    by (auto simp: bind_Some_iff Let_def split: option.splits rpc.splits)
  have "quiet n (heartbeat_reply hb T a es (Some resp) n)" using av k n by (intro quiet_beat_reply) auto
  then show ?thesis
    by (intro frame_rpc [OF n _ keptI [OF node_log_beat_reply]]) (auto simp: c' dest: end_rpc_mem)
qed

lemma frame_send:
  assumes "cl_nodes c p = Some n" "rpc_chain C x"
  shows "log_frame C c (put_rpc k x c)"
  by (rule frame_rpc [OF assms(1) quiet_same [of n n] keptI [of n n]]) (use assms in \<open>auto simp: fun_upd_idem dest!: put_rpc_mem\<close>)

section \<open>Storing entries\<close>

text \<open>What a follower stores is a chain: its log agrees with the request up to the entry before the new ones.\<close>

lemma append_chain:
  assumes C: "chain_set C" "node_log n \<in> C" and x: "rpc_chain C (BeatSent p T a req)" and es: "aq_Entries req \<noteq> []"
    and ok: "aq_PrevLogIndex req > 0 \<longrightarrow> Log_TermAt (st_log (nd_state n)) (aq_PrevLogIndex req) = aq_PrevLogTerm req"
  shows "log_entries (fst (Log_AppendEntries (st_log (nd_state n)) (aq_PrevLogIndex req) (aq_Entries req))) \<in> C"
proof -
  let ?l = "st_log (nd_state n)" and ?i = "aq_PrevLogIndex req"
  have wf: "log_wf ?l" by (rule node_log_wf [OF C])
  obtain xs where xs: "xs @ aq_Entries req \<in> C" "length xs = unat ?i" "xs \<noteq> [] \<longrightarrow> le_Term (last xs) = aq_PrevLogTerm req"
    using x es by auto
  show ?thesis
  proof (cases "unat ?i > length (node_log n)")
    case True
    then show ?thesis using C wf by (simp add: Log_AppendEntries_def log_word node_log_def)
  next
    case False
    have "take (unat ?i) (node_log n) = xs"
    proof (cases xs rule: rev_cases)
      case (snoc ys e)
      then have i: "?i \<noteq> 0" "unat ?i = Suc (length ys)" using xs(2) by auto
      then have "le_Term (node_log n ! length ys) = le_Term e"
        using ok xs(3) snoc False wf by (simp add: Log_TermAt_wf node_log_def word_gt_0)
      moreover have "xs \<in> C" using chain_prefix [OF C(1) xs(1)] .
      ultimately show ?thesis using chain_agree [OF C, of xs "length ys"] i(2) False snoc by simp
    qed (use xs(2) in simp)
    moreover have "le_Index (aq_Entries req ! j) = ?i + of_nat (0 + j) + 1" if "j < length (aq_Entries req)" for j
      using log_wf_index [OF chain_wf [OF C(1) xs(1)], of "unat ?i + j"] that xs(2) by (simp add: nth_append)
    ultimately have "append_loop ?i 0 (aq_Entries req) (take (unat ?i) (log_entries ?l)) = xs @ aq_Entries req"
      by (simp add: append_loop_numbered node_log_def)
    then show ?thesis using False wf xs(1) by (simp add: Log_AppendEntries_def log_word node_log_def)
  qed
qed

lemma HandleAppendEntries_log:
  assumes "HandleAppendEntries hb now rnd n req = Some (n', resp)"
  shows "node_log n' = node_log n \<or> \<not> IsLeader n' \<and> aq_Entries req \<noteq> [] \<and>
     (aq_PrevLogIndex req > 0 \<longrightarrow> Log_TermAt (st_log (nd_state n)) (aq_PrevLogIndex req) = aq_PrevLogTerm req) \<and>
     node_log n' = log_entries (fst (Log_AppendEntries (st_log (nd_state n)) (aq_PrevLogIndex req) (aq_Entries req)))"
  using assms
  by (auto simp: HandleAppendEntries_def Let_def raft_simps not_le node_log_def IsLeader_def
      dest!: reset_dest split: if_splits option.splits)

lemma frame_beat_serve:
  assumes inv: "log_inv C c" and st: "rpc_step (BeatServe k hb now rnd) c = Some c'"
  shows "log_frame C c c'"
proof -
  from st obtain p T a req n n' resp where k: "get_rpc k c = Some (BeatSent p T a req)"
    and n: "cl_nodes c (cl_addr c a) = Some n" and h: "HandleAppendEntries hb now rnd n req = Some (n', resp)"
    and c': "c' = put_rpc k (BeatBack p T a (aq_Entries req) resp) (set_node (cl_addr c a) n' c)"
    by (auto simp: bind_Some_iff Let_def split: option.splits rpc.splits)
  have "BeatSent p T a req \<in> set (cl_rpcs c)" using k by (metis get_rpc_def nth_mem option.distinct(1) option.inject)
  then have "kept C n n'"
    using HandleAppendEntries_log [OF h] append_chain [OF log_inv_chain [OF inv] log_inv_node [OF inv n] log_inv_rpc [OF inv]]
    by (fastforce simp: kept_def)
  then show ?thesis
    by (intro frame_rpc [OF n quiet_append [OF h]]) (auto simp: c' dest!: put_rpc_mem)
qed

text \<open>Only the leader of a term makes entries of that term, and its log has all of them.\<close>

lemma Propose_leader:
  assumes "IsLeader n"
  shows "\<exists>e. node_log (fst (Propose n cmd)) = node_log n @ [e] \<and> le_Term e = currentTerm (nd_state n) \<and>
     le_Index e = of_nat (Suc (length (node_log n)))"
    and "IsLeader (fst (Propose n cmd))" "currentTerm (nd_state (fst (Propose n cmd))) = currentTerm (nd_state n)"
  using assms by (simp_all add: Propose_def IsLeader_def node_log_def Log_Append_def Let_def raft_simps)

lemma Propose_other: "\<not> IsLeader n \<Longrightarrow> fst (Propose n cmd) = n"
  by (simp add: Propose_def IsLeader_def)

lemma other_leader:
  assumes "election_inv c" "cl_nodes c p = Some n" "IsLeader n" "u \<noteq> p" "cl_nodes c u = Some m" "IsLeader m"
  shows "currentTerm (nd_state m) \<noteq> currentTerm (nd_state n)"
proof
  assume "currentTerm (nd_state m) = currentTerm (nd_state n)"
  then have "u \<in> leaders c (currentTerm (nd_state n))" "p \<in> leaders c (currentTerm (nd_state n))"
    using assms by (auto simp: leaders_def)
  then show False using leaders_agree [OF assms(1)] assms(4) by blast
qed

lemma propose_chain:
  assumes inv: "log_inv C c" and n: "cl_nodes c p = Some n" and lead: "IsLeader n" and room: "length (node_log n) < max_len"
    and e: "le_Term e = currentTerm (nd_state n)" "le_Index e = of_nat (Suc (length (node_log n)))"
  shows "chain_set (insert (node_log n @ [e]) C)"
proof -
  note C = log_inv_chain [OF inv] log_inv_node [OF inv n]
  have wf: "log_wf \<lparr>log_entries = node_log n @ [e]\<rparr>"
    using node_log_wf [OF C] room e(2) by (auto simp: log_wf_def nth_append less_Suc_eq node_log_def)
  show ?thesis
  proof (rule chain_extend [OF C wf])
    fix ys f assume "ys @ [f] \<in> C" "le_Term f = le_Term e"
    then have "prefix (ys @ [f]) (node_log n)" using log_inv_leader [OF inv n lead] e(1) by simp
    then show "length ys \<noteq> length (node_log n)" using prefix_length_le by fastforce
  qed
qed

lemma log_inv_propose:
  assumes el: "election_inv c" and inv: "log_inv C c" and n: "cl_nodes c p = Some n" and lead: "IsLeader n"
    and room: "length (node_log n) < max_len"
  shows "\<exists>C'. log_inv C' (set_node p (fst (Propose n cmd)) c)"
proof -
  let ?n' = "fst (Propose n cmd)" and ?T = "currentTerm (nd_state n)"
  let ?c = "set_node p ?n' c"
  obtain e where e: "node_log ?n' = node_log n @ [e]" "le_Term e = ?T" "le_Index e = of_nat (Suc (length (node_log n)))"
    using Propose_leader(1) [OF lead] by blast
  let ?C = "insert (node_log n @ [e]) C"
  note old = log_inv_leader [OF inv]
  note chain = propose_chain [OF inv n lead room e(2,3)]
  have led: "led ?c q T" if "led c q T" for q T using that n dom_upd_same [of "cl_nodes c" p n ?n', OF n] by (simp add: led_def del: dom_fun_upd)
  have "p \<in> leaders c ?T" using n lead by (auto simp: leaders_def)
  then have "led c p ?T" using leader_quorum [OF el] old [OF n lead] by (auto simp: led_def)
  have made: "\<exists>q. led ?c q (le_Term f)" if "xs @ [f] \<in> ?C" for xs f
  proof (cases "xs @ [f] \<in> C")
    case True
    then show ?thesis using log_inv_led [OF inv] led by blast
  next
    case False
    then show ?thesis using that led e(2) \<open>led c p ?T\<close> by auto
  qed
  have mono: "rpc_chain C x \<Longrightarrow> rpc_chain ?C x" for x by (cases x) auto
  have "log_inv ?C ?c"
  proof (rule log_invI [OF chain])
    show "node_log m \<in> ?C" if "cl_nodes ?c u = Some m" for u m using that e(1) log_inv_node [OF inv] by (auto split: if_splits)
    show "rpc_chain ?C x" if "x \<in> set (cl_rpcs ?c)" for x using that mono log_inv_rpc [OF inv] by simp
    show "\<not> active ?c u r" if "cl_nodes ?c u = Some m" "IsLeader m" for u m r using that old n lead by (auto split: if_splits)
    show "prefix (xs @ [f]) (node_log m)" if m: "cl_nodes ?c u = Some m" "IsLeader m"
      and f: "xs @ [f] \<in> ?C" "le_Term f = currentTerm (nd_state m)" for u m xs f
    proof (cases "u = p")
      case True
      then show ?thesis using m f e old [OF n lead] Propose_leader(3) [OF lead, of cmd] by auto
    next
      case False
      then show ?thesis using old [of u m] m f e(2) other_leader [OF el n lead False] by auto
    qed
  qed (rule made)
  then show ?thesis by blast
qed

lemma led_unique:
  assumes el: "election_inv c" and q: "led c q T" and S: "cluster_quorum (dom (cl_nodes c)) S" "\<forall>v \<in> S. (v, T, p) \<in> set (cl_granted c)"
  shows "q = p"
proof -
  obtain R where R: "cluster_quorum (dom (cl_nodes c)) R" "\<forall>v \<in> R. (v, T, q) \<in> set (cl_granted c)" using q by (auto simp: led_def)
  obtain v where "(v, T, p) \<in> set (cl_granted c)" "(v, T, q) \<in> set (cl_granted c)" using cluster.overlap [OF R(1) S(1)] R(2) S(2) by blast
  then show ?thesis using el unfolding election_inv_def votes_once_def by blast
qed

lemma log_inv_win:
  assumes el: "election_inv c" and inv: "log_inv C c" and n: "cl_nodes c p = Some n" and pc: "cl_pc c p = Counting r t"
    and run: "run_term (cl_runs c ! r) = node_term c p" and n': "node_log n' = node_log n" "currentTerm (nd_state n') = currentTerm (nd_state n)"
    and el': "election_inv (set_pc p (Loop RunTop) (set_node p n' c))" and lead: "IsLeader n'"
  shows "log_inv C (set_pc p (Loop RunTop) (set_node p n' c))"
proof -
  let ?c = "set_pc p (Loop RunTop) (set_node p n' c)" and ?T = "currentTerm (nd_state n)"
  note dom = dom_upd_same [of "cl_nodes c" p n n', OF n]
  have act: "active ?c u q \<longleftrightarrow> u \<noteq> p \<and> active c u q" for u q by (auto simp: active_def)
  have "p \<in> leaders ?c ?T" using lead n'(2) by (auto simp: leaders_def)
  from leader_quorum [OF el' this] obtain S where S: "cluster_quorum (dom (cl_nodes c)) S" "\<forall>v \<in> S. (v, ?T, p) \<in> set (cl_granted c)"
    by (auto simp: dom simp del: dom_fun_upd)
  have none: "le_Term e \<noteq> ?T" if e: "xs @ [e] \<in> C" for xs e
  proof
    assume T: "le_Term e = ?T"
    obtain q where q: "led c q ?T" using log_inv_led [OF inv e] T by auto
    then have "led c p ?T" using led_unique [OF el q S] by simp
    moreover have "active c p r" using pc by (simp add: active_def)
    ultimately show False using run n by (simp add: led_def)
  qed
  have led: "led ?c q T" if "led c q T" for q T using that by (auto simp: led_def act dom simp del: dom_fun_upd)
  show ?thesis
  proof (rule log_invI [OF log_inv_chain [OF inv]])
    show "node_log m \<in> C" if "cl_nodes ?c u = Some m" for u m
      using that n n'(1) log_inv_node [OF inv] by (auto split: if_splits)
    show "rpc_chain C x" if "x \<in> set (cl_rpcs ?c)" for x using that log_inv_rpc [OF inv] by simp
    show "\<exists>q. led ?c q (le_Term e)" if "xs @ [e] \<in> C" for xs e using log_inv_led [OF inv that] led by blast
    show "\<not> active ?c u q" if "cl_nodes ?c u = Some m" "IsLeader m" for u m q
      using that log_inv_leader [OF inv, of u m] by (auto simp: act)
    show "prefix (xs @ [e]) (node_log m)" if m: "cl_nodes ?c u = Some m" "IsLeader m"
      and e: "xs @ [e] \<in> C" "le_Term e = currentTerm (nd_state m)" for u m xs e
      using m e none [OF e(1)] n'(2) log_inv_leader [OF inv, of u m] by (cases "u = p") auto
  qed
qed

section \<open>Log matching\<close>

lemma max_len_int: "n < max_len \<longleftrightarrow> int n < 2 ^ 63 - 1"
  by (simp add: max_len_def)

lemma log_inv_propose_step:
  assumes el: "election_inv c" and inv: "log_inv C c" and av: "avoids_defects (ProposeCall p cmd) c"
    and st: "main_step (ProposeCall p cmd) c = Some c'"
  shows "\<exists>C'. log_inv C' c'"
proof -
  obtain n where n: "cl_nodes c p = Some n" "c' = set_node p (fst (Propose n cmd)) c" using st by (auto simp: bind_Some_iff)
  show ?thesis
  proof (cases "IsLeader n")
    case True
    then show ?thesis using log_inv_propose [OF el inv n(1)] n av by (simp add: node_log_def max_len_int)
  next
    case False
    then show ?thesis using n inv by (auto simp: Propose_other set_node_def fun_upd_idem)
  qed
qed

lemma log_inv_done_step:
  assumes el: "election_inv c" and inv: "log_inv C c" and av: "avoids_defects (CandidateDone p now rnd) c"
    and st: "main_step (CandidateDone p now rnd) c = Some c'"
  shows "log_inv C c'"
proof -
  obtain n r t n' where n: "cl_nodes c p = Some n" "cl_pc c p = Counting r t"
    and fin: "candidate_finish now rnd n (run_votes (cl_runs c ! r)) = Some n'" and c': "c' = set_pc p (Loop RunTop) (set_node p n' c)"
    using st by (auto simp: bind_Some_iff split: pc.splits if_splits)
  have same: "run_term (cl_runs c ! r) = node_term c p" using av n(2) by simp
  from candidate_finish_cases [OF fin] show ?thesis
  proof
    assume "votesNeeded n \<le> run_votes (cl_runs c ! r) \<and> n' = upd_state (State_BecomeLeader (nd_id n) (nd_peers n)) n"
    then have "currentTerm (nd_state n') = currentTerm (nd_state n)" "IsLeader n'" by (auto simp: raft_simps IsLeader_def)
    then show ?thesis
      using log_inv_win [OF el inv n same node_log_candidate_finish [OF fin]] inv_candidate_done [OF el n fin same] c' by blast
  next
    assume "quiet n n'"
    then have "log_frame C c c'" unfolding c' by (intro frame_move [OF n(1) _ node_log_candidate_finish [OF fin]]) auto
    then show ?thesis by (rule log_inv_frame [OF el inv])
  qed
qed

lemma frame_follower_timeout:
  assumes "main_step (FollowerTimeout p) c = Some c'"
  shows "log_frame C c c'"
proof (cases "cl_pc c p")
  case (Loop x)
  then show ?thesis using assms
    by (cases x) (auto simp: bind_Some_iff intro!: frame_move quiet_follower_timeout node_log_follower_timeout)
qed (use assms in \<open>auto simp: bind_Some_iff\<close>)

lemma log_inv_main:
  assumes el: "election_inv c" and inv: "log_inv C c" and av: "avoids_defects l c" and st: "main_step l c = Some c'"
  shows "\<exists>C'. log_inv C' c'"
proof -
  have framed: "\<exists>C'. log_inv C' d" if "log_frame C c d" for d using log_inv_frame [OF el inv that] by blast
  show ?thesis
  proof (cases l)
    case (ProposeCall p cmd)
    then show ?thesis using log_inv_propose_step [OF el inv] av st by blast
  next
    case (CandidateDone p now rnd)
    then show ?thesis using log_inv_done_step [OF el inv] av st by blast
  next
    case (CandidateBegin p now rnd)
    then show ?thesis using framed [OF frame_candidate_begin [OF el]] st av by simp
  next
    case (LeaderBegin p now)
    then show ?thesis using framed [OF frame_leader_begin] st by blast
  next
    case (LeaderSelect p now keys ev)
    then show ?thesis using framed [OF frame_leader_select] st by blast
  next
    case (FollowerTimeout p)
    then show ?thesis using framed [OF frame_follower_timeout] st by blast
  next
    case (CandidateSelect p)
    then show ?thesis using st by (auto simp: bind_Some_iff active_def split: pc.splits intro!: framed frame_pc)
  next
    case (CandidateTimeout p)
    then show ?thesis using st by (auto simp: bind_Some_iff split: pc.splits if_splits intro!: framed frame_move quiet_same)
  next
    case (Clock p now)
    then show ?thesis using st by (auto simp: bind_Some_iff intro!: framed frame_node quiet_same)
  qed (use st in \<open>auto simp: bind_Some_iff split: if_splits intro!: framed frame_pc frame_node quiet_stop\<close>)
qed

lemma log_inv_rpc_step:
  assumes el: "election_inv c" and inv: "log_inv C c" and av: "avoids_defects l c" and st: "rpc_step l c = Some c'"
  shows "log_inv C c'"
proof (rule log_inv_frame [OF el inv], cases l)
  case (VoteSend k)
  then show "log_frame C c c'" using st by (auto simp: bind_Some_iff Let_def split: option.splits rpc.splits intro!: frame_send)
next
  case (BeatSend k)
  then show "log_frame C c c'" using st request_chain [OF log_inv_chain [OF inv] log_inv_node [OF inv]]
    by (auto simp: bind_Some_iff split: option.splits rpc.splits simp del: rpc_chain.simps intro!: frame_send)
next
  case (VoteServe k hb now rnd)
  then show "log_frame C c c'" using frame_vote_serve st by blast
next
  case (VoteReply k hb)
  then show "log_frame C c c'" using frame_vote_reply st av by blast
next
  case (BeatServe k hb now rnd)
  then show "log_frame C c c'" using frame_beat_serve [OF inv] st by blast
next
  case (BeatReply k hb)
  then show "log_frame C c c'" using frame_beat_reply st av by blast
next
  case (RpcFail k)
  then have c': "c' = end_rpc k c" using st by (auto split: if_splits)
  have "active (end_rpc k c) = active c" by (intro ext) (simp add: active_def)
  then show "log_frame C c c'" by (auto simp: log_frame_def c' keptI dest: end_rpc_mem)
qed (use st in auto)

definition matching_inv :: "'m cluster \<Rightarrow> bool" where
  "matching_inv c \<longleftrightarrow> election_inv c \<and> (\<exists>C. log_inv C c)"

lemma log_inv_initial:
  assumes "cluster_initial c"
  shows "log_inv {[]} c"
proof -
  have c: "c = cluster_start (cl_addr c) (cl_nodes c)" and new: "\<And>p n. cl_nodes c p = Some n \<Longrightarrow> nd_state n = NewState"
    using assms unfolding cluster_initial_def by blast+
  have rpcs: "cl_rpcs c = []" by (subst c) (simp add: cluster_start_def)
  have node: "node_log n = [] \<and> \<not> IsLeader n" if "cl_nodes c p = Some n" for p n
    using new [OF that] by (simp add: node_log_def IsLeader_def raft_simps NewState_def NewLog_def)
  have "chain_set {[]}" by (simp add: chain_set_def log_wf_def)
  then show ?thesis using node rpcs by (auto simp: log_inv_def)
qed

interpretation matching: transition_system cluster_initial sound_step matching_inv
proof
  show "matching_inv c" if "cluster_initial c" for c :: "'m cluster"
    using that cluster_initial_inv log_inv_initial unfolding matching_inv_def by blast
  show "matching_inv c'" if inv: "matching_inv c" and step: "sound_step c c'" for c c' :: "'m cluster"
  proof -
    obtain C l where C: "election_inv c" "log_inv C c" and l: "avoids_defects l c" "cluster_step l c = Some c'"
      using inv step by (auto simp: matching_inv_def sound_step_def)
    have "\<exists>C'. log_inv C' c'"
      using l log_inv_main [OF C l(1)] log_inv_rpc_step [OF C l(1)] by (auto simp: cluster_step_def split: option.splits)
    then show ?thesis using cluster_step_inv [OF C(1) l] by (simp add: matching_inv_def)
  qed
qed


text \<open>Node 1 wins the election, takes two commands and sends them to node 2.\<close>

definition first_entries :: "label list" where
  "first_entries = [ProposeCall ''n1'' ''x'', ProposeCall ''n1'' ''y'', Dispatch ''n1'', LeaderBegin ''n1'' Second,
     BeatSend 0, BeatServe 0 Second Second 0]"


end
