(* ===== verification/Transport.thy ===== *)
theory Transport
  imports RaftVoting
begin

text \<open>
  The RPC layer, \<open>internal/transport/grpc.go\<close> and \<open>internal/transport/proto.go\<close>: the message types
  of the wire, the conversions between them and the messages of the Raft node, the table of
  connections, and the two methods on the client's and the server's side.

  The gRPC library is a parameter: \<open>dial\<close> makes a connection, \<open>invoke\<close> runs a method over one. The
  far end is a state that \<open>invoke\<close> threads. \<open>None\<close> is a panic of the called node.
\<close>

section \<open>Messages on the wire\<close>

record PbVoteRequest =
  pvq_Term :: u64
  pvq_CandidateId :: string
  pvq_LastLogIndex :: u64
  pvq_LastLogTerm :: u64

record PbVoteResponse =
  pvr_Term :: u64
  pvr_VoteGranted :: bool

record PbLogEntry =
  ple_Index :: u64
  ple_Term :: u64
  ple_Type :: "32 word"
  ple_Command :: bytes

record PbAppendEntriesRequest =
  paq_Term :: u64
  paq_LeaderId :: string
  paq_PrevLogIndex :: u64
  paq_PrevLogTerm :: u64
  paq_Entries :: "PbLogEntry list"
  paq_LeaderCommit :: u64

record PbAppendEntriesResponse =
  par_Term :: u64
  par_Success :: bool

section \<open>Conversions\<close>

definition toPbVoteRequest :: "VoteRequest \<Rightarrow> PbVoteRequest" where
  "toPbVoteRequest req = \<lparr>pvq_Term = vq_Term req, pvq_CandidateId = vq_CandidateID req,
     pvq_LastLogIndex = vq_LastLogIndex req, pvq_LastLogTerm = vq_LastLogTerm req\<rparr>"

definition fromPbVoteRequest :: "PbVoteRequest \<Rightarrow> VoteRequest" where
  "fromPbVoteRequest req = \<lparr>vq_Term = pvq_Term req, vq_CandidateID = pvq_CandidateId req,
     vq_LastLogIndex = pvq_LastLogIndex req, vq_LastLogTerm = pvq_LastLogTerm req\<rparr>"

definition toPbVoteResponse :: "VoteResponse \<Rightarrow> PbVoteResponse" where
  "toPbVoteResponse resp = \<lparr>pvr_Term = vr_Term resp, pvr_VoteGranted = vr_VoteGranted resp\<rparr>"

definition fromPbVoteResponse :: "PbVoteResponse \<Rightarrow> VoteResponse" where
  "fromPbVoteResponse resp = \<lparr>vr_Term = pvr_Term resp, vr_VoteGranted = pvr_VoteGranted resp\<rparr>"

text \<open>\<open>int32(e.Type)\<close> keeps the low 32 bits, \<open>raft.LogEntryType(e.Type)\<close> extends the sign.\<close>

definition toPbLogEntry :: "LogEntry \<Rightarrow> PbLogEntry" where
  "toPbLogEntry e = \<lparr>ple_Index = le_Index e, ple_Term = le_Term e, ple_Type = ucast (le_Type e), ple_Command = le_Command e\<rparr>"

definition fromPbLogEntry :: "PbLogEntry \<Rightarrow> LogEntry" where
  "fromPbLogEntry e = \<lparr>le_Index = ple_Index e, le_Term = ple_Term e, le_Type = scast (ple_Type e), le_Command = ple_Command e\<rparr>"

definition toPbAppendEntries :: "AppendEntriesRequest \<Rightarrow> PbAppendEntriesRequest" where
  "toPbAppendEntries req = \<lparr>paq_Term = aq_Term req, paq_LeaderId = aq_LeaderID req,
     paq_PrevLogIndex = aq_PrevLogIndex req, paq_PrevLogTerm = aq_PrevLogTerm req,
     paq_Entries = map toPbLogEntry (aq_Entries req), paq_LeaderCommit = aq_LeaderCommit req\<rparr>"

definition fromPbAppendEntries :: "PbAppendEntriesRequest \<Rightarrow> AppendEntriesRequest" where
  "fromPbAppendEntries req = \<lparr>aq_Term = paq_Term req, aq_LeaderID = paq_LeaderId req,
     aq_PrevLogIndex = paq_PrevLogIndex req, aq_PrevLogTerm = paq_PrevLogTerm req,
     aq_Entries = map fromPbLogEntry (paq_Entries req), aq_LeaderCommit = paq_LeaderCommit req\<rparr>"

definition toPbAppendResponse :: "AppendEntriesResponse \<Rightarrow> PbAppendEntriesResponse" where
  "toPbAppendResponse resp = \<lparr>par_Term = ar_Term resp, par_Success = ar_Success resp\<rparr>"

definition fromPbAppendResponse :: "PbAppendEntriesResponse \<Rightarrow> AppendEntriesResponse" where
  "fromPbAppendResponse resp = \<lparr>ar_Term = par_Term resp, ar_Success = par_Success resp\<rparr>"

section \<open>The transport\<close>

datatype 'e transport_error = FailedToListen 'e | FailedToConnect string 'e | NotInitialized | RpcError 'e

record ('m, 'c) GRPCTransport =
  gt_serving :: "string option"
  gt_connections :: "string \<rightharpoonup> 'c"
  gt_raftNode :: "'m Node option"

definition NewGRPCTransport :: "('m, 'c) GRPCTransport" where
  "NewGRPCTransport = \<lparr>gt_serving = None, gt_connections = Map.empty, gt_raftNode = None\<rparr>"

definition SetRaftNode :: "'m Node \<Rightarrow> ('m, 'c) GRPCTransport \<Rightarrow> ('m, 'c) GRPCTransport" where
  "SetRaftNode node t = t\<lparr>gt_raftNode := Some node\<rparr>"

text \<open>\<open>listen\<close> stands for \<open>net.Listen\<close> on the address: an error, or none.\<close>

definition Transport_Start ::
  "(string \<Rightarrow> 'e option) \<Rightarrow> string \<Rightarrow> ('m, 'c) GRPCTransport \<Rightarrow> ('m, 'c) GRPCTransport \<times> 'e transport_error option" where
  "Transport_Start listen address t =
     (case listen address of
        Some err \<Rightarrow> (t, Some (FailedToListen err))
      | None \<Rightarrow> (t\<lparr>gt_serving := Some address\<rparr>, None))"

text \<open>\<open>Stop\<close> also returns the connections it closes.\<close>

definition Transport_Stop :: "('m, 'c) GRPCTransport \<Rightarrow> ('m, 'c) GRPCTransport \<times> 'c set" where
  "Transport_Stop t = (t\<lparr>gt_connections := Map.empty\<rparr>, ran (gt_connections t))"

text \<open>
  The table is read twice, without and with the write lock: \<open>seen\<close> is the table at the first read.
\<close>

definition getConnection ::
  "(string \<Rightarrow> 'e + 'c) \<Rightarrow> (string \<rightharpoonup> 'c) \<Rightarrow> string \<Rightarrow> ('m, 'c) GRPCTransport
     \<Rightarrow> ('m, 'c) GRPCTransport \<times> ('e transport_error + 'c)" where
  "getConnection dial seen target t =
     (case seen target of
        Some conn \<Rightarrow> (t, Inr conn)
      | None \<Rightarrow>
          (case gt_connections t target of
             Some conn \<Rightarrow> (t, Inr conn)
           | None \<Rightarrow>
               (case dial target of
                  Inl err \<Rightarrow> (t, Inl (FailedToConnect target err))
                | Inr conn \<Rightarrow> (t\<lparr>gt_connections := (gt_connections t)(target \<mapsto> conn)\<rparr>, Inr conn))))"

section \<open>The client's side\<close>

type_synonym ('c, 'i, 'o, 'e, 'w) invoke = "'c \<Rightarrow> string \<Rightarrow> 'i \<Rightarrow> 'w \<Rightarrow> ('w \<times> ('e transport_error + 'o)) option"

definition RaftInternalClient_RequestVote ::
  "('c, PbVoteRequest, PbVoteResponse, 'e, 'w) invoke \<Rightarrow> 'c \<Rightarrow> PbVoteRequest \<Rightarrow> 'w \<Rightarrow> ('w \<times> ('e transport_error + PbVoteResponse)) option" where
  "RaftInternalClient_RequestVote invoke cc req w = invoke cc ''/skylock.RaftInternal/RequestVote'' req w"

definition RaftInternalClient_AppendEntries ::
  "('c, PbAppendEntriesRequest, PbAppendEntriesResponse, 'e, 'w) invoke \<Rightarrow> 'c \<Rightarrow> PbAppendEntriesRequest \<Rightarrow> 'w
     \<Rightarrow> ('w \<times> ('e transport_error + PbAppendEntriesResponse)) option" where
  "RaftInternalClient_AppendEntries invoke cc req w = invoke cc ''/skylock.RaftInternal/AppendEntries'' req w"

definition Transport_RequestVote ::
  "(string \<Rightarrow> 'e + 'c) \<Rightarrow> ('c, PbVoteRequest, PbVoteResponse, 'e, 'w) invoke \<Rightarrow> (string \<rightharpoonup> 'c) \<Rightarrow> string \<Rightarrow> VoteRequest
     \<Rightarrow> ('m, 'c) GRPCTransport \<Rightarrow> 'w \<Rightarrow> (('m, 'c) GRPCTransport \<times> 'w \<times> ('e transport_error + VoteResponse)) option" where
  "Transport_RequestVote dial invoke seen target req t w =
     (case getConnection dial seen target t of
        (t', Inl err) \<Rightarrow> Some (t', w, Inl err)
      | (t', Inr conn) \<Rightarrow>
          (case RaftInternalClient_RequestVote invoke conn (toPbVoteRequest req) w of
             None \<Rightarrow> None
           | Some (w', Inl err) \<Rightarrow> Some (t', w', Inl err)
           | Some (w', Inr resp) \<Rightarrow> Some (t', w', Inr (fromPbVoteResponse resp))))"

definition Transport_AppendEntries ::
  "(string \<Rightarrow> 'e + 'c) \<Rightarrow> ('c, PbAppendEntriesRequest, PbAppendEntriesResponse, 'e, 'w) invoke \<Rightarrow> (string \<rightharpoonup> 'c) \<Rightarrow> string
     \<Rightarrow> AppendEntriesRequest \<Rightarrow> ('m, 'c) GRPCTransport \<Rightarrow> 'w
     \<Rightarrow> (('m, 'c) GRPCTransport \<times> 'w \<times> ('e transport_error + AppendEntriesResponse)) option" where
  "Transport_AppendEntries dial invoke seen target req t w =
     (case getConnection dial seen target t of
        (t', Inl err) \<Rightarrow> Some (t', w, Inl err)
      | (t', Inr conn) \<Rightarrow>
          (case RaftInternalClient_AppendEntries invoke conn (toPbAppendEntries req) w of
             None \<Rightarrow> None
           | Some (w', Inl err) \<Rightarrow> Some (t', w', Inl err)
           | Some (w', Inr resp) \<Rightarrow> Some (t', w', Inr (fromPbAppendResponse resp))))"

section \<open>The server's side\<close>

definition raftInternalServer_RequestVote ::
  "instant \<Rightarrow> instant \<Rightarrow> nat \<Rightarrow> PbVoteRequest \<Rightarrow> ('m, 'c) GRPCTransport
     \<Rightarrow> (('m, 'c) GRPCTransport \<times> ('e transport_error + PbVoteResponse)) option" where
  "raftInternalServer_RequestVote hb now rnd req t =
     (case gt_raftNode t of
        None \<Rightarrow> Some (t, Inl NotInitialized)
      | Some node \<Rightarrow>
          (case HandleRequestVote hb now rnd node (fromPbVoteRequest req) of
             None \<Rightarrow> None
           | Some (node', resp) \<Rightarrow> Some (t\<lparr>gt_raftNode := Some node'\<rparr>, Inr (toPbVoteResponse resp))))"

definition raftInternalServer_AppendEntries ::
  "instant \<Rightarrow> instant \<Rightarrow> nat \<Rightarrow> PbAppendEntriesRequest \<Rightarrow> ('m, 'c) GRPCTransport
     \<Rightarrow> (('m, 'c) GRPCTransport \<times> ('e transport_error + PbAppendEntriesResponse)) option" where
  "raftInternalServer_AppendEntries hb now rnd req t =
     (case gt_raftNode t of
        None \<Rightarrow> Some (t, Inl NotInitialized)
      | Some node \<Rightarrow>
          (case HandleAppendEntries hb now rnd node (fromPbAppendEntries req) of
             None \<Rightarrow> None
           | Some (node', resp) \<Rightarrow> Some (t\<lparr>gt_raftNode := Some node'\<rparr>, Inr (toPbAppendResponse resp))))"

text \<open>
  The registered handlers: \<open>dec\<close> is the outcome of decoding the request, \<open>srv\<close> the service's method,
  and an interceptor gets the full name of the method and the method.
\<close>

type_synonym ('i, 'o, 'e, 'w) rpc_method = "'i \<Rightarrow> 'w \<Rightarrow> ('w \<times> ('e transport_error + 'o)) option"

definition RaftInternal_RequestVote_Handler ::
  "(PbVoteRequest, PbVoteResponse, 'e, 'w) rpc_method \<Rightarrow> ('e transport_error + PbVoteRequest) \<Rightarrow>
     (string \<Rightarrow> (PbVoteRequest, PbVoteResponse, 'e, 'w) rpc_method \<Rightarrow> (PbVoteRequest, PbVoteResponse, 'e, 'w) rpc_method) option \<Rightarrow>
     'w \<Rightarrow> ('w \<times> ('e transport_error + PbVoteResponse)) option" where
  "RaftInternal_RequestVote_Handler srv dec interceptor w =
     (case dec of
        Inl err \<Rightarrow> Some (w, Inl err)
      | Inr req \<Rightarrow>
          (case interceptor of
             None \<Rightarrow> srv req w
           | Some f \<Rightarrow> f ''/skylock.RaftInternal/RequestVote'' srv req w))"

definition RaftInternal_AppendEntries_Handler ::
  "(PbAppendEntriesRequest, PbAppendEntriesResponse, 'e, 'w) rpc_method \<Rightarrow> ('e transport_error + PbAppendEntriesRequest) \<Rightarrow>
     (string \<Rightarrow> (PbAppendEntriesRequest, PbAppendEntriesResponse, 'e, 'w) rpc_method \<Rightarrow> (PbAppendEntriesRequest, PbAppendEntriesResponse, 'e, 'w) rpc_method) option \<Rightarrow>
     'w \<Rightarrow> ('w \<times> ('e transport_error + PbAppendEntriesResponse)) option" where
  "RaftInternal_AppendEntries_Handler srv dec interceptor w =
     (case dec of
        Inl err \<Rightarrow> Some (w, Inl err)
      | Inr req \<Rightarrow>
          (case interceptor of
             None \<Rightarrow> srv req w
           | Some f \<Rightarrow> f ''/skylock.RaftInternal/AppendEntries'' srv req w))"

text \<open>
  The description of the service: its name and its methods with their handlers. A client calls a
  method by the full name, which is made of both.
\<close>

datatype rpc_handler = RequestVoteHandler | AppendEntriesHandler

definition RaftInternal_ServiceDesc :: "string \<times> (string \<times> rpc_handler) list" where
  "RaftInternal_ServiceDesc =
     (''skylock.RaftInternal'', [(''RequestVote'', RequestVoteHandler), (''AppendEntries'', AppendEntriesHandler)])"

definition full_name :: "string \<Rightarrow> string" where
  "full_name m = ''/'' @ fst RaftInternal_ServiceDesc @ ''/'' @ m"

section \<open>The conversions as codecs\<close>

text \<open>What the two ends of the wire rely on: a value in the codec's domain comes back unchanged.\<close>

locale codec =
  fixes enc :: "'a \<Rightarrow> 'b" and dec :: "'b \<Rightarrow> 'a" and valid :: "'a \<Rightarrow> bool"
  assumes dec_enc: "valid x \<Longrightarrow> dec (enc x) = x"
begin

lemma enc_inject: "valid x \<Longrightarrow> valid y \<Longrightarrow> enc x = enc y \<longleftrightarrow> x = y"
  by (metis dec_enc)

lemma dec_enc_list: "list_all valid xs \<Longrightarrow> map dec (map enc xs) = xs"
  by (induction xs) (simp_all add: dec_enc)

end

definition int32_type :: "LogEntry \<Rightarrow> bool" where
  "int32_type e \<longleftrightarrow> - (2 ^ 31) \<le> sint (le_Type e) \<and> sint (le_Type e) < 2 ^ 31"

lemma scast_ucast_int32:
  fixes x :: "64 word"
  assumes "- (2 ^ 31) \<le> sint x" "sint x < 2 ^ 31"
  shows "scast (ucast x :: 32 word) = x"
proof -
  have "signed_take_bit 31 (sint x) = sint x"
    using assms by (intro signed_take_bit_int_eq_self) simp_all
  moreover have "sint (ucast x :: 32 word) = signed_take_bit 31 (uint x)"
    by transfer (simp add: signed_take_bit_take_bit min_def)
  moreover have "signed_take_bit 31 (uint x) = signed_take_bit 31 (sint x)"
    by transfer (simp add: signed_take_bit_take_bit signed_take_bit_signed_take_bit min_def)
  ultimately have "sint (ucast x :: 32 word) = sint x" by simp
  then show ?thesis by (simp add: scast_eq)
qed

interpretation vote_request_wire: codec toPbVoteRequest fromPbVoteRequest "\<lambda>_. True"
  by unfold_locales (simp add: toPbVoteRequest_def fromPbVoteRequest_def)

interpretation vote_response_wire: codec toPbVoteResponse fromPbVoteResponse "\<lambda>_. True"
  by unfold_locales (simp add: toPbVoteResponse_def fromPbVoteResponse_def)

interpretation log_entry_wire: codec toPbLogEntry fromPbLogEntry int32_type
  by unfold_locales (simp add: toPbLogEntry_def fromPbLogEntry_def int32_type_def scast_ucast_int32)

interpretation append_request_wire: codec toPbAppendEntries fromPbAppendEntries "\<lambda>req. list_all int32_type (aq_Entries req)"
  by unfold_locales (simp add: toPbAppendEntries_def fromPbAppendEntries_def log_entry_wire.dec_enc_list del: map_map)

interpretation append_response_wire: codec toPbAppendResponse fromPbAppendResponse "\<lambda>_. True"
  by unfold_locales (simp add: toPbAppendResponse_def fromPbAppendResponse_def)

section \<open>A call over the wire is a local call\<close>

lemma getConnection_known: "seen target = Some conn \<or> seen target = None \<and> gt_connections t target = Some conn \<Longrightarrow>
    getConnection dial seen target t = (t, Inr conn)"
  by (auto simp: getConnection_def)

text \<open>
  Once a connection to a target is in the table it is used by every later call, and no call
  replaces it.
\<close>

lemma getConnection_keeps:
  assumes "getConnection dial seen target t = (t', r)" "gt_connections t a = Some conn"
  shows "gt_connections t' a = Some conn"
  using assms by (auto simp: getConnection_def split: option.splits sum.splits)

text \<open>
  The gRPC library, as documented: a method invoked over a connection runs the handler that the
  server registered for its name, on the request as it was sent, without an interceptor.
\<close>

definition delivers_votes :: "('c, PbVoteRequest, PbVoteResponse, 'e, ('m, 'd) GRPCTransport) invoke \<Rightarrow> 'c \<Rightarrow> instant \<Rightarrow> instant \<Rightarrow> nat \<Rightarrow> bool" where
  "delivers_votes invoke conn hb now rnd \<longleftrightarrow> (\<forall>m req w. map_of (snd RaftInternal_ServiceDesc) m = Some RequestVoteHandler \<longrightarrow>
     invoke conn (full_name m) req w = RaftInternal_RequestVote_Handler (raftInternalServer_RequestVote hb now rnd) (Inr req) None w)"

definition delivers_entries :: "('c, PbAppendEntriesRequest, PbAppendEntriesResponse, 'e, ('m, 'd) GRPCTransport) invoke \<Rightarrow> 'c \<Rightarrow> instant \<Rightarrow> instant \<Rightarrow> nat \<Rightarrow> bool" where
  "delivers_entries invoke conn hb now rnd \<longleftrightarrow> (\<forall>m req w. map_of (snd RaftInternal_ServiceDesc) m = Some AppendEntriesHandler \<longrightarrow>
     invoke conn (full_name m) req w = RaftInternal_AppendEntries_Handler (raftInternalServer_AppendEntries hb now rnd) (Inr req) None w)"

lemma registered:
  "map_of (snd RaftInternal_ServiceDesc) ''RequestVote'' = Some RequestVoteHandler"
  "map_of (snd RaftInternal_ServiceDesc) ''AppendEntries'' = Some AppendEntriesHandler"
  by (simp_all add: RaftInternal_ServiceDesc_def)

lemma full_names:
  "full_name ''RequestVote'' = ''/skylock.RaftInternal/RequestVote''" "full_name ''AppendEntries'' = ''/skylock.RaftInternal/AppendEntries''"
  by (simp_all add: full_name_def RaftInternal_ServiceDesc_def)


text \<open>The library replaced by the direct call of the handler, as an instance of the hypotheses.\<close>

definition direct_votes :: "('c, PbVoteRequest, PbVoteResponse, 'e, ('m, 'd) GRPCTransport) invoke" where
  "direct_votes conn name req w = RaftInternal_RequestVote_Handler (raftInternalServer_RequestVote 0 0 0) (Inr req) None w"

definition direct_entries :: "('c, PbAppendEntriesRequest, PbAppendEntriesResponse, 'e, ('m, 'd) GRPCTransport) invoke" where
  "direct_entries conn name req w = RaftInternal_AppendEntries_Handler (raftInternalServer_AppendEntries 0 0 0) (Inr req) None w"

definition example_transport :: "(unit, nat) GRPCTransport" where
  "example_transport = (SetRaftNode (NewNode ''node1'' [''node2'', ''node3''] example_config) NewGRPCTransport)\<lparr>gt_connections := [''a1'' \<mapsto> 7]\<rparr>"


end
