(* ===== verification/Json.thy ===== *)
theory Json
  imports GoLib
begin

text \<open>
  The part of \<open>encoding/json\<close> that the HTTP server and its clients use, over JSON documents that are
  already parsed: which values \<open>Marshal\<close> produces and how \<open>Unmarshal\<close> and \<open>Decoder.Decode\<close> fill the
  fields of a struct. A body that is not a JSON document is \<open>None\<close>.
\<close>

section \<open>Documents\<close>

text \<open>
  \<open>JTime\<close> is a \<open>time.Time\<close> in its text form and \<open>JSeconds\<close> the \<open>float64\<close> that \<open>Duration.Seconds\<close> gives
  for a number of nanoseconds.
\<close>

datatype json =
    JNull | JBool bool | JInt int | JSeconds duration | JString string | JTime instant
  | JArray "json list" | JObject "(string \<times> json) list"

section \<open>Encoding\<close>

text \<open>Bytes that are not valid UTF-8 are replaced by U+FFFD.\<close>

definition utf8_coerce :: "string \<Rightarrow> string" where
  "utf8_coerce s = concat (map encode_rune (runes s))"

fun json_Marshal :: "json \<Rightarrow> json" where
  "json_Marshal (JString s) = JString (utf8_coerce s)"
| "json_Marshal (JArray xs) = JArray (map json_Marshal xs)"
| "json_Marshal (JObject kvs) = JObject (map (\<lambda>(k, v). (utf8_coerce k, json_Marshal v)) kvs)"
| "json_Marshal v = v"

section \<open>Decoding into a struct\<close>

text \<open>
  A key selects the field whose tag is equal to it up to case folding; the tags of the sources are
  lower-case ASCII, so beside the ASCII letters only the long s and the Kelvin sign fold onto them.
\<close>

definition fold_rune :: "int \<Rightarrow> int" where
  "fold_rune r = (if 65 \<le> r \<and> r \<le> 90 then r + 32 else if r = 383 then 115 else if r = 8490 then 107 else r)"

definition key_matches :: "string \<Rightarrow> string \<Rightarrow> bool" where
  "key_matches tag k \<longleftrightarrow> k = tag \<or> map fold_rune (runes k) = map fold_rune (runes tag)"

text \<open>
  The value of one field after the keys of an object: a later key overrides an earlier one, \<open>null\<close>
  leaves the field alone, and a value of the wrong type is an error of the whole decoding.
\<close>

definition decode_field :: "(json \<Rightarrow> 'a option) \<Rightarrow> string \<Rightarrow> 'a \<Rightarrow> json option \<Rightarrow> 'a option" where
  "decode_field conv tag dflt body =
     (case body of
        None \<Rightarrow> None
      | Some JNull \<Rightarrow> Some dflt
      | Some (JObject kvs) \<Rightarrow>
          foldl (\<lambda>acc (k, v). if key_matches tag k \<and> v \<noteq> JNull
                   then (case (acc, conv v) of (Some _, Some x) \<Rightarrow> Some x | _ \<Rightarrow> None) else acc) (Some dflt) kvs
      | Some _ \<Rightarrow> None)"

fun as_string :: "json \<Rightarrow> string option" where
  "as_string (JString s) = Some s"
| "as_string _ = None"

fun as_bool :: "json \<Rightarrow> bool option" where
  "as_bool (JBool b) = Some b"
| "as_bool _ = None"

text \<open>A Go \<open>int\<close> or \<open>int64\<close>, and a \<open>uint64\<close>; a number that does not fit is an error.\<close>

fun as_int :: "json \<Rightarrow> int option" where
  "as_int (JInt i) = (if in_int64 i then Some i else None)"
| "as_int _ = None"

fun as_uint64 :: "json \<Rightarrow> u64 option" where
  "as_uint64 (JInt i) = (if 0 \<le> i \<and> i < 2 ^ 64 then Some (word_of_int i) else None)"
| "as_uint64 _ = None"

text \<open>A \<open>float64\<close> that stands for a time in seconds.\<close>

fun as_seconds :: "json \<Rightarrow> duration option" where
  "as_seconds (JSeconds d) = Some d"
| "as_seconds (JInt i) = Some (i * Second)"
| "as_seconds _ = None"

text \<open>In a list of strings, \<open>null\<close> gives the empty string.\<close>

fun as_strings :: "json \<Rightarrow> string list option" where
  "as_strings (JArray []) = Some []"
| "as_strings (JArray (x # xs)) =
     (case (if x = JNull then Some '''' else as_string x, as_strings (JArray xs)) of
        (Some s, Some ss) \<Rightarrow> Some (s # ss) | _ \<Rightarrow> None)"
| "as_strings _ = None"

section \<open>Round trips\<close>

lemma utf8_coerce_ascii: "ascii s \<Longrightarrow> utf8_coerce s = s"
  by (simp add: utf8_coerce_def runes_ascii o_def) (induction s, auto simp: encode_rune_ascii)

lemma decode_present:
  assumes "key_matches tag k" "v \<noteq> JNull" "conv v = Some x" "\<forall>(k', v') \<in> set kvs. \<not> key_matches tag k'"
  shows "decode_field conv tag dflt (Some (JObject ((k, v) # kvs))) = Some x"
proof -
  have "foldl (\<lambda>acc (k, v). if key_matches tag k \<and> v \<noteq> JNull
                   then (case (acc, conv v) of (Some _, Some x) \<Rightarrow> Some x | _ \<Rightarrow> None) else acc) (Some y) kvs = Some y" for y
    using assms(4) by (induction kvs) auto
  then show ?thesis using assms(1-3) by (simp add: decode_field_def)
qed

end
