(* ===== verification/Api.thy ===== *)
theory Api
  imports Json Sessions Watches LockProperties RaftNode
begin

text \<open>
  The HTTP handlers, \<open>internal/api/server.go\<close>. A handler takes the values of the URL parameters and
  the body of the request and gives the status and the body of the response; besides, it returns
  the changed managers and the callbacks it started. Clock readings, fresh identifiers and the order of walks over maps
  are arguments. \<open>acquireLock\<close> blocks in \<open>TryLock\<close>, so it is given in two parts, before and after
  the call.

  The router and its middleware are the chi library, the listener and the connection handling
  are \<open>net/http\<close>; the handlers start where the router has selected one and set the URL parameters.
\<close>

section \<open>Requests and responses\<close>

record ('m, 'f, 'h) Server =
  sv_raftNode :: "'m Node"
  sv_sessionManager :: "'f SessionManager"
  sv_store :: "'h Store"
  sv_lockManager :: LockManager
  sv_watchManager :: WatchManager

definition NewServer ::
  "'m Node \<Rightarrow> 'f SessionManager \<Rightarrow> 'h Store \<Rightarrow> LockManager \<Rightarrow> WatchManager \<Rightarrow> ('m, 'f, 'h) Server" where
  "NewServer raftNode sessionManager store lockManager watchManager =
     \<lparr>sv_raftNode = raftNode, sv_sessionManager = sessionManager, sv_store = store,
      sv_lockManager = lockManager, sv_watchManager = watchManager\<rparr>"

record Response =
  rs_status :: nat
  rs_body :: "json option"

text \<open>A handler's result: the server, the callback goroutines of the store, the expiry calls, the response.\<close>

type_synonym ('m, 'f, 'h) served = "('m, 'f, 'h) Server \<times> 'h spawn list \<times> 'f expiry list \<times> Response"

definition respondJSON :: "nat \<Rightarrow> json \<Rightarrow> Response" where
  "respondJSON status data = \<lparr>rs_status = status, rs_body = Some (json_Marshal data)\<rparr>"

definition respondError :: "nat \<Rightarrow> string \<Rightarrow> Response" where
  "respondError status message = respondJSON status (JObject [(''error'', JString message)])"

definition noContent :: Response where
  "noContent = \<lparr>rs_status = 204, rs_body = None\<rparr>"

fun store_Error :: "store_error \<Rightarrow> string" where
  "store_Error ErrNodeExists = ''node already exists''"
| "store_Error ErrNodeNotFound = ''node not found''"
| "store_Error ErrVersionMismatch = ''version mismatch''"
| "store_Error ErrNotEmpty = ''node has children''"
| "store_Error ErrInvalidPath = ''invalid path''"
| "store_Error ErrEphemeralParent = ''cannot create child under ephemeral node''"
| "store_Error ErrCannotDeleteRoot = ''cannot delete root''"
| "store_Error PanicNilParent = ''''"

fun lock_Error :: "lock_error \<Rightarrow> string" where
  "lock_Error ErrLockNotHeld = ''lock not held''"
| "lock_Error ErrLockTimeout = ''lock acquisition timed out''"
| "lock_Error ErrLockExists = ''lock already exists''"
| "lock_Error (LockStoreError e) = store_Error e"

text \<open>The wildcard of the node routes as a path: \<open>"/" + strings.TrimPrefix(param, "/")\<close>.\<close>

definition node_path :: "string \<Rightarrow> string" where
  "node_path param = ''/'' @ strings_TrimPrefix param ''/''"

section \<open>Sessions\<close>

definition Server_createSession ::
  "string \<Rightarrow> instant \<Rightarrow> instant \<Rightarrow> json option \<Rightarrow> ('m, 'f, 'h) Server \<Rightarrow> ('m, 'f, 'h) served" where
  "Server_createSession uuid t1 t2 body srv =
     (case (decode_field as_string ''client_id'' '''' body, decode_field as_int ''ttl_seconds'' 0 body) of
        (Some clientID, Some ttlSeconds) \<Rightarrow>
          if clientID = '''' then (srv, [], [], respondError 400 ''client_id required'')
          else
            (let ttl = wrap64 (ttlSeconds * Second);
                 (sm, sess) = Session_Create uuid t1 t2 (sv_sessionManager srv) clientID ttl
             in (srv\<lparr>sv_sessionManager := sm\<rparr>, [], [],
                 respondJSON 201 (JObject [(''session_id'', JString (ss_ID sess)), (''ttl'', JSeconds (ss_TTL sess))])))
      | _ \<Rightarrow> (srv, [], [], respondError 400 ''invalid request body''))"

definition Server_heartbeat ::
  "instant \<Rightarrow> instant \<Rightarrow> string \<Rightarrow> ('m, 'f, 'h) Server \<Rightarrow> ('m, 'f, 'h) served" where
  "Server_heartbeat now now' sessionID srv =
     (let (sm, ok) = Session_Heartbeat now now' (sv_sessionManager srv) sessionID;
          srv' = srv\<lparr>sv_sessionManager := sm\<rparr>
      in if \<not> ok then (srv', [], [], respondError 404 ''session not found or expired'')
         else (srv', [], [], respondJSON 200 (JObject [(''status'', JString ''ok'')])))"

definition Server_closeSession :: "string \<Rightarrow> ('m, 'f, 'h) Server \<Rightarrow> ('m, 'f, 'h) served" where
  "Server_closeSession sessionID srv =
     (let (sm, ex, ok) = Session_Close (sv_sessionManager srv) sessionID;
          srv' = srv\<lparr>sv_sessionManager := sm\<rparr>
      in if \<not> ok then (srv', [], ex, respondError 404 ''session not found'') else (srv', [], ex, noContent))"

section \<open>Nodes\<close>

definition Server_getNode :: "string \<Rightarrow> ('m, 'f, 'h) Server \<Rightarrow> Response" where
  "Server_getNode param srv =
     (case Store_Get (sv_store srv) (node_path param) of
        Inl err \<Rightarrow>
          if err = ErrNodeNotFound then respondError 404 ''node not found'' else respondError 500 (store_Error err)
      | Inr node \<Rightarrow>
          respondJSON 200 (JObject
            [(''path'', JString (sn_Path node)), (''data'', JString (sn_Data node)), (''version'', JInt (uint (sn_Version node))),
             (''ephemeral'', JBool (sn_Ephemeral node)), (''children'', JArray (map JString (sn_Children node))),
             (''created_at'', JTime (sn_CreateTime node)), (''modified_at'', JTime (sn_ModifyTime node))]))"

definition Server_createNode ::
  "instant \<Rightarrow> instant \<Rightarrow> string \<Rightarrow> json option \<Rightarrow> ('m, 'f, 'h) Server \<Rightarrow> ('m, 'f, 'h) served" where
  "Server_createNode t1 t2 param body srv =
     (case (decode_field as_string ''data'' '''' body, decode_field as_bool ''ephemeral'' False body,
            decode_field as_bool ''sequential'' False body, decode_field as_string ''session_id'' '''' body) of
        (Some data, Some ephemeral, Some sequential, Some sessionID) \<Rightarrow>
          if ephemeral \<and> sessionID = '''' then (srv, [], [], respondError 400 ''session_id required for ephemeral nodes'')
          else
            (let (s', ev, r) = Store_Create (sv_store srv) t1 t2 (node_path param) data ephemeral sessionID sequential;
                 srv' = srv\<lparr>sv_store := s'\<rparr>
             in case r of
                  Inl err \<Rightarrow>
                    (srv', ev, [],
                     (if err = ErrNodeExists then respondError 409 ''node already exists''
                      else if err = ErrNodeNotFound then respondError 404 ''parent node not found''
                      else respondError 500 (store_Error err)))
                | Inr actualPath \<Rightarrow>
                    (let sm = (if ephemeral then fst (RegisterEphemeral (sv_sessionManager srv') sessionID actualPath)
                               else sv_sessionManager srv')
                     in (srv'\<lparr>sv_sessionManager := sm\<rparr>, ev, [], respondJSON 201 (JObject [(''path'', JString actualPath)]))))
      | _ \<Rightarrow> (srv, [], [], respondError 400 ''invalid request body''))"

definition Server_setNode ::
  "instant \<Rightarrow> string \<Rightarrow> json option \<Rightarrow> ('m, 'f, 'h) Server \<Rightarrow> ('m, 'f, 'h) served" where
  "Server_setNode now param body srv =
     (case (decode_field as_string ''data'' '''' body, decode_field as_int ''version'' (- 1) body) of
        (Some data, Some version) \<Rightarrow>
          (let (s', ev, r) = Store_Set (sv_store srv) now (node_path param) data version;
               srv' = srv\<lparr>sv_store := s'\<rparr>
           in case r of
                Inl err \<Rightarrow>
                  (srv', ev, [],
                   (if err = ErrNodeNotFound then respondError 404 ''node not found''
                    else if err = ErrVersionMismatch then respondError 409 ''version mismatch''
                    else respondError 500 (store_Error err)))
              | Inr node \<Rightarrow>
                  (srv', ev, [], respondJSON 200 (JObject [(''path'', JString (sn_Path node)), (''version'', JInt (uint (sn_Version node)))])))
      | _ \<Rightarrow> (srv, [], [], respondError 400 ''invalid request body''))"

text \<open>The version in the query: the loop starts from the value \<open>-1\<close> that stands for any version.\<close>

definition parse_version :: "string \<Rightarrow> int" where
  "parse_version versionStr =
     (if versionStr \<noteq> ''''
      then foldl (\<lambda>version c. wrap64 (version * 10 + wrap32 (c - 48))) (- 1) (runes versionStr) else - 1)"

definition Server_deleteNode :: "string \<Rightarrow> string \<Rightarrow> ('m, 'f, 'h) Server \<Rightarrow> ('m, 'f, 'h) served" where
  "Server_deleteNode param versionStr srv =
     (let (s', ev, r) = Store_Delete (sv_store srv) (node_path param) (parse_version versionStr);
          srv' = srv\<lparr>sv_store := s'\<rparr>
      in case r of
           Inl err \<Rightarrow>
             (srv', ev, [],
              (if err = ErrNodeNotFound then respondError 404 ''node not found''
               else if err = ErrVersionMismatch then respondError 409 ''version mismatch''
               else if err = ErrNotEmpty then respondError 400 ''node has children''
               else respondError 500 (store_Error err)))
         | Inr _ \<Rightarrow> (srv', ev, [], noContent))"

definition Server_getChildren :: "string \<Rightarrow> ('m, 'f, 'h) Server \<Rightarrow> Response" where
  "Server_getChildren param srv =
     (let path = node_path param
      in case Store_GetChildren (sv_store srv) path of
           Inl err \<Rightarrow>
             if err = ErrNodeNotFound then respondError 404 ''node not found'' else respondError 500 (store_Error err)
         | Inr children \<Rightarrow>
             respondJSON 200 (JObject [(''path'', JString path), (''children'', JArray (map JString children))]))"

section \<open>Locks\<close>

definition Server_acquireLock_begin :: "string \<Rightarrow> json option \<Rightarrow> Response + lock_call" where
  "Server_acquireLock_begin lockName body =
     (case (decode_field as_string ''owner'' '''' body, decode_field as_string ''session_id'' '''' body,
            decode_field as_int ''timeout_ms'' 0 body) of
        (Some owner, Some sessionID, Some timeoutMs) \<Rightarrow>
          if sessionID = '''' then Inl (respondError 400 ''session_id required'')
          else
            (let timeout = wrap64 (timeoutMs * Millisecond);
                 timeout = (if timeout = 0 then 30 * Second else timeout)
             in Inr (TryLock lockName owner sessionID timeout))
      | _ \<Rightarrow> Inl (respondError 400 ''invalid request body''))"

definition Server_acquireLock_end :: "lock_error + Lock \<Rightarrow> Response" where
  "Server_acquireLock_end result =
     (case result of
        Inl err \<Rightarrow>
          if err = ErrLockTimeout then respondError 408 ''lock acquisition timed out'' else respondError 500 (lock_Error err)
      | Inr lck \<Rightarrow>
          respondJSON 200 (JObject
            [(''lock_id'', JString (lk_Path lck)), (''name'', JString (lk_Name lck)), (''acquired'', JBool True),
             (''owner'', JString (lk_Owner lck)), (''acquired_at'', JTime (lk_Acquired lck))]))"

definition Server_releaseLock :: "string \<Rightarrow> json option \<Rightarrow> ('m, 'f, 'h) Server \<Rightarrow> ('m, 'f, 'h) served" where
  "Server_releaseLock lockName body srv =
     (case decode_field as_string ''lock_id'' '''' body of
        None \<Rightarrow> (srv, [], [], respondError 400 ''invalid request body'')
      | Some lockID \<Rightarrow>
          (let lck = \<lparr>lk_Name = lockName, lk_Owner = '''', lk_SessionID = '''', lk_Path = lockID,
                      lk_Sequence = 0, lk_Acquired = zero_time\<rparr>;
               ((s', m'), ev, r) = Unlock (sv_store srv, sv_lockManager srv) (Some lck);
               srv' = srv\<lparr>sv_store := s', sv_lockManager := m'\<rparr>
           in case r of
                Inl err \<Rightarrow>
                  (srv', ev, [],
                   (if err = ErrLockNotHeld then respondError 404 ''lock not held'' else respondError 500 (lock_Error err)))
              | Inr _ \<Rightarrow> (srv', ev, [], noContent)))"

text \<open>Three reads of the store, at different moments.\<close>

definition Server_getLockInfo :: "'h Store \<Rightarrow> 'h Store \<Rightarrow> 'h Store \<Rightarrow> string \<Rightarrow> Response" where
  "Server_getLockInfo s1 s2 s3 lockName =
     (case GetLockHolder s1 s2 lockName of
        Inl err \<Rightarrow> respondError 500 (store_Error err)
      | Inr holder \<Rightarrow>
          respondJSON 200 (JObject
            [(''name'', JString lockName), (''locked'', JBool (holder \<noteq> '''')), (''holder'', JString holder),
             (''queue_length'', JInt (int (GetQueueLength s3 lockName)))]))"

section \<open>Cluster\<close>

definition Server_getLeader :: "('m, 'f, 'h) Server \<Rightarrow> Response" where
  "Server_getLeader srv =
     respondJSON 200 (JObject [(''leader_id'', JString (GetLeaderID (sv_raftNode srv))), (''is_leader'', JBool (IsLeader (sv_raftNode srv)))])"

definition Server_getStatus :: "string list \<Rightarrow> ('m, 'f, 'h) Server \<Rightarrow> Response" where
  "Server_getStatus keys srv =
     respondJSON 200 (JObject
       [(''leader_id'', JString (GetLeaderID (sv_raftNode srv))), (''is_leader'', JBool (IsLeader (sv_raftNode srv))),
        (''sessions'', JInt (int (SessionManager_Count (sv_sessionManager srv)))),
        (''nodes'', JInt (int (Store_Count (sv_store srv)))),
        (''watches'', JInt (int (GetTotalWatchCount keys (sv_watchManager srv))))])"

definition Server_healthCheck :: Response where
  "Server_healthCheck = respondJSON 200 (JObject [(''status'', JString ''healthy'')])"

section \<open>Routes\<close>

text \<open>
  The table of routes: method, pattern and handler. In a pattern, \<open>{...}\<close> stands for one segment of
  the path and \<open>*\<close> for the rest of it; no route has more than one parameter.
\<close>

datatype api_handler =
    CreateSession | Heartbeat | CloseSession | GetNode | CreateNode | SetNode | DeleteNode | GetChildren
  | AcquireLock | ReleaseLockHandler | GetLockInfo | GetLeader | GetStatus | HealthCheck

definition setupRoutes :: "(string \<times> string \<times> api_handler) list" where
  "setupRoutes =
     [(''POST'', ''/v1/session'', CreateSession),
      (''POST'', ''/v1/session/{id}/heartbeat'', Heartbeat),
      (''DELETE'', ''/v1/session/{id}'', CloseSession),
      (''GET'', ''/v1/nodes/*'', GetNode),
      (''PUT'', ''/v1/nodes/*'', CreateNode),
      (''POST'', ''/v1/nodes/*'', SetNode),
      (''DELETE'', ''/v1/nodes/*'', DeleteNode),
      (''GET'', ''/v1/children/*'', GetChildren),
      (''POST'', ''/v1/locks/{name}'', AcquireLock),
      (''DELETE'', ''/v1/locks/{name}'', ReleaseLockHandler),
      (''GET'', ''/v1/locks/{name}'', GetLockInfo),
      (''GET'', ''/v1/cluster/leader'', GetLeader),
      (''GET'', ''/v1/cluster/status'', GetStatus),
      (''GET'', ''/health'', HealthCheck)]"

text \<open>
  What the handler for a route does. The argument \<open>env\<close> holds what the handler finds outside of the
  request: clock readings, a fresh identifier, the order of a walk over the watches, and the states
  of the store that the later reads of \<open>getLockInfo\<close> see. \<open>acquireLock\<close> leads to a lock call.
\<close>

record 'h request_env =
  re_t1 :: instant
  re_t2 :: instant
  re_uuid :: string
  re_watchKeys :: "string list"
  re_later :: "'h Store \<times> 'h Store"

record http_request =
  hr_param :: string
  hr_version :: string
  hr_body :: "json option"

fun Server_handle ::
  "'h request_env \<Rightarrow> api_handler \<Rightarrow> http_request \<Rightarrow> ('m, 'f, 'h) Server \<Rightarrow> ('m, 'f, 'h) served + lock_call" where
  "Server_handle env CreateSession r srv = Inl (Server_createSession (re_uuid env) (re_t1 env) (re_t2 env) (hr_body r) srv)"
| "Server_handle env Heartbeat r srv = Inl (Server_heartbeat (re_t1 env) (re_t2 env) (hr_param r) srv)"
| "Server_handle env CloseSession r srv = Inl (Server_closeSession (hr_param r) srv)"
| "Server_handle env GetNode r srv = Inl (srv, [], [], Server_getNode (hr_param r) srv)"
| "Server_handle env CreateNode r srv = Inl (Server_createNode (re_t1 env) (re_t2 env) (hr_param r) (hr_body r) srv)"
| "Server_handle env SetNode r srv = Inl (Server_setNode (re_t1 env) (hr_param r) (hr_body r) srv)"
| "Server_handle env DeleteNode r srv = Inl (Server_deleteNode (hr_param r) (hr_version r) srv)"
| "Server_handle env GetChildren r srv = Inl (srv, [], [], Server_getChildren (hr_param r) srv)"
| "Server_handle env AcquireLock r srv =
     (case Server_acquireLock_begin (hr_param r) (hr_body r) of Inl resp \<Rightarrow> Inl (srv, [], [], resp) | Inr c \<Rightarrow> Inr c)"
| "Server_handle env ReleaseLockHandler r srv = Inl (Server_releaseLock (hr_param r) (hr_body r) srv)"
| "Server_handle env GetLockInfo r srv =
     Inl (srv, [], [], Server_getLockInfo (sv_store srv) (fst (re_later env)) (snd (re_later env)) (hr_param r))"
| "Server_handle env GetLeader r srv = Inl (srv, [], [], Server_getLeader srv)"
| "Server_handle env GetStatus r srv = Inl (srv, [], [], Server_getStatus (re_watchKeys env) srv)"
| "Server_handle env HealthCheck r srv = Inl (srv, [], [], Server_healthCheck)"

text \<open>
  How a path matches a pattern, with the value of the parameter. The router itself is the chi
  library: a function \<open>mux\<close> from method and path to a handler and the parameter. Of it the clients
  rely on this: if one route only matches, and its parameter is not empty or the pattern is the path
  itself, it is chosen.
\<close>

fun match_route :: "string \<Rightarrow> string \<Rightarrow> string option" where
  "match_route [] [] = Some ''''"
| "match_route [] (d # ds) = None"
| "match_route (c # cs) ds =
     (if c = CHR ''*'' then Some ds
      else if c = CHR ''{''
      then (if dropWhile (\<lambda>x. x \<noteq> CHR ''/'') ds = tl (dropWhile (\<lambda>x. x \<noteq> CHR ''}'') cs)
            then Some (takeWhile (\<lambda>x. x \<noteq> CHR ''/'') ds) else None)
      else (case ds of [] \<Rightarrow> None | d # ds' \<Rightarrow> if c = d then match_route cs ds' else None))"

type_synonym router = "string \<Rightarrow> string \<Rightarrow> (api_handler \<times> string) option"

definition matching :: "string \<Rightarrow> string \<Rightarrow> (api_handler \<times> string) list" where
  "matching method_name path =
     concat (map (\<lambda>(m, pat, h). if m = method_name then (case match_route pat path of None \<Rightarrow> [] | Some v \<Rightarrow> [(h, v)]) else []) setupRoutes)"

definition routes_ok :: "router \<Rightarrow> bool" where
  "routes_ok mux \<longleftrightarrow> (\<forall>m path h v. matching m path = [(h, v)] \<and> (v \<noteq> '''' \<or> (m, path, h) \<in> set setupRoutes) \<longrightarrow> mux m path = Some (h, v))"

section \<open>The HTTP server\<close>

text \<open>
  \<open>Start\<close> stores a server with its address and time limits and then serves; \<open>Stop\<close> shuts it down.
  Before \<open>Start\<close> the field \<open>httpServer\<close> is nil, and \<open>Shutdown\<close> of a nil server panics. The result of
  \<open>ListenAndServe\<close> is only logged and that of \<open>Shutdown\<close> is dropped, so neither is a value here.
\<close>

record http_server =
  hs_Addr :: string
  hs_ReadTimeout :: duration
  hs_WriteTimeout :: duration
  hs_inShutdown :: bool

definition Server_Start :: "string \<Rightarrow> http_server" where
  "Server_Start addr = \<lparr>hs_Addr = addr, hs_ReadTimeout = 10 * Second, hs_WriteTimeout = 10 * Second, hs_inShutdown = False\<rparr>"

definition Server_Stop :: "http_server option \<Rightarrow> http_server option" where
  "Server_Stop httpServer = map_option (\<lambda>h. h\<lparr>hs_inShutdown := True\<rparr>) httpServer"

text \<open>
  The logging middleware serves the request and then logs method, path and duration; \<open>start\<close> and
  \<open>t_end\<close> are the clock readings around the call of the next handler.
\<close>

definition loggingMiddleware ::
  "instant \<Rightarrow> instant \<Rightarrow> (string \<Rightarrow> string \<Rightarrow> 'w \<Rightarrow> 'w) \<Rightarrow> string \<Rightarrow> string \<Rightarrow> 'w \<times> (string \<times> string \<times> duration) list
     \<Rightarrow> 'w \<times> (string \<times> string \<times> duration) list" where
  "loggingMiddleware start t_end serve method_name path =
     (\<lambda>(w, log). (serve method_name path w, log @ [(method_name, path, time_Since t_end start)]))"

end
