(* ===== verification/ApiProperties.thy ===== *)
theory ApiProperties
  imports Api
begin

text \<open>
  What the HTTP handlers of \<open>internal/api/server.go\<close> promise: how \<open>createNode\<close> reports its outcome,
  and two handlers that do more than they should.
\<close>

section \<open>Creating a node\<close>

lemma new_node_fields [simp]:
  "sn_Path (new_node data ephm sid seqn t1 t2 es k) = path_of es" "sn_Data (new_node data ephm sid seqn t1 t2 es k) = data"
  "sn_SessionID (new_node data ephm sid seqn t1 t2 es k) = sid" "sn_Version (new_node data ephm sid seqn t1 t2 es k) = 1"
  by (simp_all add: new_node_def)

lemma Create_then_get:
  assumes "Store_Create s t1 t2 p data ephm sid seqn = (s', ev, Inr q)"
  shows "\<exists>n. Store_Get s q = Inl ErrNodeNotFound \<and> Store_Get s' q = Inr n \<and> sn_Path n = q \<and> sn_Data n = data \<and>
     sn_Ephemeral n = ephm \<and> sn_SessionID n = sid \<and> sn_Version n = 1"
proof -
  note ok = Store_Create_ok [OF assms]
  have q: "path_elems q = seq_elems seqn s (path_elems p)" using ok(1,3) by simp
  have "path_elems p \<noteq> [] \<Longrightarrow> seq_elems seqn s (path_elems p) \<noteq> butlast (path_elems p)"
    by (metis seq_elems_snoc snoc_neq(1))
  then show ?thesis
    using ok(1,2) q by (cases "path_elems p = []") (auto simp: store_simps ok(4) tree_insert_def)
qed

lemma RegisterEphemeral_keys:
  assumes "sm_sessions m sid = Some ss"
  shows "\<exists>ss'. sm_sessions (fst (RegisterEphemeral m sid key)) sid = Some ss' \<and> key \<in> set (ss_EphemeralKeys ss')"
  using assms by (simp add: RegisterEphemeral_def)

lemma createNode_wf:
  assumes "store_wf (sv_store srv)"
  shows "store_wf (sv_store (fst (Server_createNode t1 t2 param body srv)))"
  using assms by (auto simp: Server_createNode_def Let_def case_prod_unfold Store_Create_wf split: option.split sum.split)

text \<open>
  C35. \<open>createNode\<close> reports exactly what happened: a status other than 201 leaves every node and every
  session as it was; with 201 the response names a path that was free before and now holds the
  new node, and an ephemeral node belongs to a named session, which has the path among its
  ephemeral keys if the session exists. No other status occurs than 201, 400, 404, 409 and 500.
\<close>

theorem createNode_contract:
  assumes "Server_createNode t1 t2 param body srv = (srv', ev, ex, resp)"
  shows "rs_status resp \<in> {201, 400, 404, 409, 500} \<and>
    (rs_status resp \<noteq> 201 \<longrightarrow> tree_of (sv_store srv') = tree_of (sv_store srv) \<and> sv_sessionManager srv' = sv_sessionManager srv) \<and>
    (rs_status resp = 201 \<longrightarrow> (\<exists>path n. rs_body resp = Some (json_Marshal (JObject [(''path'', JString path)])) \<and>
       Store_Get (sv_store srv) path = Inl ErrNodeNotFound \<and> Store_Get (sv_store srv') path = Inr n \<and> sn_Path n = path \<and>
       (sn_Ephemeral n \<longrightarrow> sn_SessionID n \<noteq> '''' \<and>
         (case sm_sessions (sv_sessionManager srv) (sn_SessionID n) of None \<Rightarrow> True
          | Some _ \<Rightarrow> \<exists>ss. sm_sessions (sv_sessionManager srv') (sn_SessionID n) = Some ss \<and> path \<in> set (ss_EphemeralKeys ss)))))"
proof (cases "(decode_field as_string ''data'' '''' body, decode_field as_bool ''ephemeral'' False body,
            decode_field as_bool ''sequential'' False body, decode_field as_string ''session_id'' '''' body)")
  case (fields a b c d)
  show ?thesis
  proof (cases "a = None \<or> b = None \<or> c = None \<or> d = None \<or> (the b \<and> the d = '''')")
    case True
    then show ?thesis using assms fields
      by (cases a; cases b; cases c; cases d) (auto simp: Server_createNode_def respondError_def respondJSON_def)
  next
    case False
    then obtain data ephm seqn sid where f: "a = Some data" "b = Some ephm" "c = Some seqn" "d = Some sid" "\<not> (ephm \<and> sid = '''')" by auto
    obtain s' e r where c: "Store_Create (sv_store srv) t1 t2 (node_path param) data ephm sid seqn = (s', e, r)" by (metis prod.collapse)
    show ?thesis
    proof (cases r)
      case (Inl err)
      then show ?thesis using assms fields f c Store_Create_fail(1) [OF c [unfolded Inl]]
        by (auto simp: Server_createNode_def respondError_def respondJSON_def split: if_splits)
    next
      case (Inr q)
      obtain n where n: "Store_Get (sv_store srv) q = Inl ErrNodeNotFound" "Store_Get s' q = Inr n" "sn_Path n = q"
        "sn_Ephemeral n = ephm" "sn_SessionID n = sid" using Create_then_get [OF c [unfolded Inr]] by auto
      have res: "srv' = srv\<lparr>sv_store := s', sv_sessionManager :=
            (if ephm then fst (RegisterEphemeral (sv_sessionManager srv) sid q) else sv_sessionManager srv)\<rparr>"
        "resp = respondJSON 201 (JObject [(''path'', JString q)])"
        using assms fields f c Inr by (auto simp: Server_createNode_def Let_def)
      have keys: "ephm \<Longrightarrow> sm_sessions (sv_sessionManager srv) sid = Some ss \<Longrightarrow>
          \<exists>ss. sm_sessions (sv_sessionManager srv') sid = Some ss \<and> q \<in> set (ss_EphemeralKeys ss)" for ss
        using RegisterEphemeral_keys [of "sv_sessionManager srv" sid ss q] by (simp add: res(1))
      have own: "sn_Ephemeral n \<longrightarrow> sn_SessionID n \<noteq> '''' \<and>
          (case sm_sessions (sv_sessionManager srv) (sn_SessionID n) of None \<Rightarrow> True
           | Some _ \<Rightarrow> \<exists>ss. sm_sessions (sv_sessionManager srv') (sn_SessionID n) = Some ss \<and> q \<in> set (ss_EphemeralKeys ss))"
        unfolding n(4,5) using f(5) keys by (cases "sm_sessions (sv_sessionManager srv) sid") simp_all
      have "rs_status resp = 201" "rs_body resp = Some (json_Marshal (JObject [(''path'', JString q)]))"
        by (simp_all only: res(2) respondJSON_def Response.simps)
      moreover have "Store_Get (sv_store srv') q = Inr n" by (simp add: res(1) n(2))
      ultimately show ?thesis using n(1,3) own by (intro conjI impI exI [of _ q] exI [of _ n]) simp_all
    qed
  qed
qed

text \<open>An empty server over a fresh store, with one session.\<close>

definition example_server :: "(unit, unit, unit) Server" where
  "example_server = fst (Server_createSession ''s1'' 0 0 (Some (JObject [(''client_id'', JString ''c'')]))
     (NewServer (NewNode ''n1'' [] (Raft DefaultConfig)) (NewSessionManager Second Minute) (NewStore 0 0)
        (snd (NewLockManager () (NewStore 0 0 :: unit Store))) NewWatchManager))"

lemma example_server_wf: "store_wf (sv_store example_server)"
  by (simp add: example_server_def Server_createSession_def NewServer_def store_wf_NewStore case_prod_unfold Let_def
      split: option.split)

theorem createNode_contract_witness:
  "\<exists>srv' ev ex resp path n. Server_createNode 0 0 ''a''
       (Some (JObject [(''data'', JString ''x''), (''ephemeral'', JBool True), (''session_id'', JString ''s1'')])) example_server =
       (srv', ev, ex, resp) \<and> rs_status resp = 201 \<and>
     Store_Get (sv_store example_server) path = Inl ErrNodeNotFound \<and> Store_Get (sv_store srv') path = Inr n"
proof -
  let ?b = "Some (JObject [(''data'', JString ''x''), (''ephemeral'', JBool True), (''session_id'', JString ''s1'')])"
  obtain srv' ev ex resp where run: "Server_createNode 0 0 ''a'' ?b example_server = (srv', ev, ex, resp)" by (metis prod.collapse)
  have "(case Server_createNode 0 0 ''a'' ?b example_server of (srv', ev, ex, resp) \<Rightarrow> rs_status resp) = 201" by code_simp
  then have v: "rs_status resp = 201" using run by simp
  obtain path n where "Store_Get (sv_store example_server) path = Inl ErrNodeNotFound" "Store_Get (sv_store srv') path = Inr n"
    using createNode_contract [OF run] v by blast
  with run v show ?thesis by blast
qed

section \<open>Deleting a node\<close>

lemma version_digit: "is_digit c \<Longrightarrow> wrap32 (of_char c - 48) = int (digit_value c) \<and> of_char c < (128 :: nat)"
proof -
  assume "is_digit c"
  then have "48 \<le> (of_char c :: nat)" "(of_char c :: nat) \<le> 57" by (simp_all add: is_digit_def)
  moreover have "(of_char c :: int) = int (of_char c)" by simp
  ultimately show ?thesis by (simp add: digit_value_def wrap32_id del: int_of_char)
qed

lemma version_loop:
  assumes "list_all is_digit s" "k + length s \<le> 18" "- (10 ^ k) \<le> v" "v < 0"
  shows "foldl (\<lambda>v c. wrap64 (v * 10 + wrap32 (of_char c - 48))) v s = v * 10 ^ length s + int (dec_value s)"
  using assms
proof (induction s arbitrary: k v)
  case (Cons c s)
  have d: "0 \<le> int (digit_value c)" "int (digit_value c) < 10" using Cons.prems(1) digit_value_less by force+
  let ?v = "v * 10 + int (digit_value c)"
  have b: "- (10 ^ Suc k) \<le> ?v" "?v < 0" using Cons.prems(3,4) d by simp_all
  have "(10 :: int) ^ Suc k \<le> 10 ^ 18" using Cons.prems(2) by (intro power_increasing) simp_all
  then have "wrap64 ?v = ?v" using b by (intro wrap64_id) (simp add: in_int64_def min_int64_def max_int64_def)
  then show ?case
    using Cons.IH [of "Suc k" ?v] Cons.prems(1,2) b version_digit [of c] by (simp add: algebra_simps)
qed simp

lemma parse_version_digits:
  assumes "list_all is_digit s" "s \<noteq> ''''" "length s \<le> 18"
  shows "parse_version s = int (dec_value s) - 10 ^ length s"
proof -
  have "ascii s" using assms(1) by (induction s) (auto dest: version_digit)
  then show ?thesis
    using assms(2) version_loop [OF assms(1), of 0 "- 1"] assms(3) by (simp add: parse_version_def runes_ascii foldl_map)
qed

lemma Delete_any_version: "u < 0 \<Longrightarrow> v < 0 \<Longrightarrow> Store_Delete s p u = Store_Delete s p v"
proof -
  assume "u < 0" "v < 0"
  then have "version_ok u = version_ok v" by (simp add: version_ok_def fun_eq_iff)
  then show "Store_Delete s p u = Store_Delete s p v" by (simp only: Store_Delete_def)
qed

text \<open>
  The \<open>version\<close> of a \<open>DELETE\<close> request is not honoured: for every number of at most 18 digits
  the handler does what it does without a version, so a node of any version is deleted.
\<close>

lemma delete_ignores_version:
  assumes "list_all is_digit version" "length version \<le> 18"
  shows "Server_deleteNode param version srv = Server_deleteNode param '''' srv"
proof (cases "version = ''''")
  case False
  then have "parse_version version < 0"
    using parse_version_digits [OF assms(1) _ assms(2)] dec_value_less [OF assms(1)]
    by simp
  moreover have "parse_version '''' < 0" by (simp add: parse_version_def)
  ultimately have "Store_Delete (sv_store srv) (node_path param) (parse_version version) =
      Store_Delete (sv_store srv) (node_path param) (parse_version '''')" by (rule Delete_any_version)
  then show ?thesis by (simp only: Server_deleteNode_def)
qed simp

lemma delete_ignores_version_example:
  "Server_deleteNode ''a'' ''7'' example_server = Server_deleteNode ''a'' '''' example_server \<and> list_all is_digit ''7''"
proof -
  have d: "list_all is_digit ''7''" by code_simp
  show ?thesis using delete_ignores_version [OF d, of "''a''" example_server] d by simp
qed

section \<open>Releasing a lock\<close>

text \<open>
  C36. \<open>releaseLock\<close> does not look at the lock: whatever the name in the URL and whoever asks, the
  node that \<open>lock_id\<close> names is deleted, a lock or not, unless it is the root or has children;
  then it answers 204, and no other node changes except the list of children of its parent.
\<close>

theorem release_deletes_any_node:
  assumes "store_wf (sv_store srv)" "Store_Get (sv_store srv) p = Inr n" "sn_Children n = []" "path_elems p \<noteq> []" "p \<noteq> ''''"
    "Server_releaseLock name (Some (JObject [(''lock_id'', JString p)])) srv = (srv', ev, ex, resp)"
  shows "rs_status resp = 204 \<and> Store_Get (sv_store srv') p = Inl ErrNodeNotFound \<and>
    (\<forall>q. path_elems q \<noteq> path_elems p \<and> path_elems q \<noteq> butlast (path_elems p) \<longrightarrow>
       Store_Get (sv_store srv') q = Store_Get (sv_store srv) q)"
proof -
  let ?s = "sv_store srv" and ?es = "path_elems p"
  obtain s' e r where d: "Store_Delete ?s p (- 1) = (s', e, r)" by (metis prod.collapse)
  have t: "tree_of ?s ?es = Some n" using assms(2) by (simp add: store_simps split: option.splits)
  have "tree_delete (tree_of ?s) ?es (- 1) = (tree_remove (butlast ?es) (last ?es) (tree_of ?s), Inr ())"
    using t assms(3,4) by (simp add: tree_delete_def version_ok_def)
  then have s': "tree_of s' = tree_remove (butlast ?es) (last ?es) (tree_of ?s)" "r = Inr ()"
    using Store_Delete_refines [OF assms(1), of p "- 1"] d by simp_all
  have "decode_field as_string ''lock_id'' '''' (Some (JObject [(''lock_id'', JString p)])) = Some p"
    by (rule decode_present) (simp_all add: key_matches_def)
  then have "sv_store srv' = s'" "rs_status resp = 204"
    using assms(5,6) d s'(2) by (auto simp: Server_releaseLock_def Unlock_def Let_def noContent_def)
  moreover have "butlast ?es @ [last ?es] = ?es" using assms(4) by simp
  ultimately show ?thesis
    by (auto simp: store_simps s'(1) tree_remove_def)
qed

definition example_node_server :: "(unit, unit, unit) Server" where
  "example_node_server = fst (Server_createNode 0 0 ''a'' (Some (JObject [(''data'', JString ''x'')])) example_server)"

theorem release_deletes_any_node_witness:
  "\<exists>srv' ev ex resp. Server_releaseLock ''l'' (Some (JObject [(''lock_id'', JString ''/a'')])) example_node_server = (srv', ev, ex, resp) \<and>
     rs_status resp = 204 \<and> Store_Get (sv_store srv') ''/a'' = Inl ErrNodeNotFound"
proof -
  obtain srv' ev ex resp where
    run: "Server_releaseLock ''l'' (Some (JObject [(''lock_id'', JString ''/a'')])) example_node_server = (srv', ev, ex, resp)"
    by (metis prod.collapse)
  have "map_sum id sn_Children (Store_Get (sv_store example_node_server) ''/a'') = Inr []" by code_simp
  then obtain n where n: "Store_Get (sv_store example_node_server) ''/a'' = Inr n" "sn_Children n = []"
    by (cases "Store_Get (sv_store example_node_server) ''/a''") simp_all
  have wf: "store_wf (sv_store example_node_server)"
    unfolding example_node_server_def by (rule createNode_wf) (rule example_server_wf)
  have ne: "path_elems ''/a'' \<noteq> []" "''/a'' \<noteq> ''''" by code_simp+
  show ?thesis using release_deletes_any_node [OF wf n ne run] run by blast
qed

end
