(* ===== verification/ApiTypes.thy ===== *)
theory ApiTypes
  imports ApiProperties
begin

text \<open>
  The types of the HTTP server's data: what holds of the store and the session table between any
  two requests, and which responses there are. Every handler keeps the first and gives the second.
\<close>

section \<open>The invariant\<close>

text \<open>An ephemeral node belongs to a named session.\<close>

definition owned :: "tree \<Rightarrow> bool" where
  "owned t \<longleftrightarrow> (\<forall>es n. t es = Some n \<longrightarrow> sn_Ephemeral n \<longrightarrow> sn_SessionID n \<noteq> '''')"

definition server_ok :: "('m, 'f, 'h) Server \<Rightarrow> bool" where
  "server_ok srv \<longleftrightarrow> store_wf (sv_store srv) \<and> owned (tree_of (sv_store srv)) \<and>
     table_ok (sv_sessionManager srv) \<and> ttl_config_ok (sv_sessionManager srv)"

lemma owned_insert: "owned t \<Longrightarrow> (sn_Ephemeral n \<longrightarrow> sn_SessionID n \<noteq> '''') \<Longrightarrow> owned (tree_insert cs c n t)"
  by (auto simp: owned_def tree_insert_def add_child_def)

lemma owned_remove: "owned t \<Longrightarrow> owned (tree_remove cs c t)"
  by (auto simp: owned_def tree_remove_def del_child_def)

lemma Create_owned:
  assumes "owned (tree_of s)" "ephm \<Longrightarrow> sid \<noteq> ''''"
  shows "owned (tree_of (fst (Store_Create s t1 t2 p data ephm sid seqn)))"
proof -
  obtain s' ev r where c: "Store_Create s t1 t2 p data ephm sid seqn = (s', ev, r)" by (metis prod.collapse)
  show ?thesis
  proof (cases r)
    case (Inl e)
    then show ?thesis using Store_Create_fail(1) c assms(1) by (metis fst_conv)
  next
    case (Inr q)
    note ok = Store_Create_ok [OF c [unfolded Inr]]
    show ?thesis using assms by (auto simp: c ok(4) new_node_def owned_def intro!: owned_insert) (auto simp: owned_def tree_insert_def add_child_def split: if_splits)
  qed
qed

lemma Set_owned: "owned (tree_of s) \<Longrightarrow> owned (tree_of (fst (Store_Set s now p data ev)))"
  by (auto simp: Store_Set_refines(1) tree_set_def owned_def Let_def split: option.splits)

lemma Delete_owned: "store_wf s \<Longrightarrow> owned (tree_of s) \<Longrightarrow> owned (tree_of (fst (Store_Delete s p ev)))"
  by (simp add: Store_Delete_refines(1) tree_delete_def owned_remove split: option.split)

lemmas store_ok_intros = Store_Create_wf Store_Set_wf Store_Delete_wf Create_owned Set_owned Delete_owned

section \<open>Responses\<close>

definition response_ok :: "Response \<Rightarrow> bool" where
  "response_ok resp \<longleftrightarrow>
     (case rs_body resp of
        None \<Rightarrow> rs_status resp = 204
      | Some b \<Rightarrow> (rs_status resp \<in> {200, 201} \<and> (\<exists>kvs. b = JObject kvs \<and> ''error'' \<notin> fst ` set kvs)) \<or>
          (rs_status resp \<in> {400, 404, 408, 409, 500} \<and> (\<exists>msg. b = JObject [(''error'', JString msg)] \<and> msg \<noteq> '''')))"

lemma respondJSON_ok:
  assumes "status \<in> {200, 201}" "list_all (\<lambda>(k, v). ascii k \<and> k \<noteq> ''error'') kvs"
  shows "response_ok (respondJSON status (JObject kvs))"
proof -
  have "''error'' \<notin> fst ` set (map (\<lambda>(k, v). (utf8_coerce k, json_Marshal v)) kvs)"
    using assms(2) by (force simp: list_all_iff utf8_coerce_ascii)
  with assms(1) show ?thesis by (auto simp: response_ok_def respondJSON_def)
qed

lemma respondError_ok:
  assumes "status \<in> {400, 404, 408, 409, 500}" "ascii msg" "msg \<noteq> ''''"
  shows "response_ok (respondError status msg)"
proof -
  have "utf8_coerce ''error'' = ''error''" by (rule utf8_coerce_ascii) code_simp
  then show ?thesis using assms by (simp add: response_ok_def respondError_def respondJSON_def utf8_coerce_ascii)
qed

lemma noContent_ok: "response_ok noContent"
  by (simp add: response_ok_def noContent_def)

text \<open>The messages of the handlers: every one is ASCII, and only a panic has none.\<close>

lemma store_Error_ok: "e \<noteq> PanicNilParent \<Longrightarrow> ascii (store_Error e) \<and> store_Error e \<noteq> ''''"
  by (cases e) simp_all

lemma lock_Error_ok: "e \<noteq> LockStoreError PanicNilParent \<Longrightarrow> ascii (lock_Error e) \<and> lock_Error e \<noteq> ''''"
  by (cases e) (simp_all add: store_Error_ok)

lemmas response_intros = respondJSON_ok respondError_ok noContent_ok

section \<open>The handlers\<close>

lemma Create_no_panic: "snd (snd (Store_Create s t1 t2 p data ephm sid seqn)) \<noteq> Inl PanicNilParent"
  by (auto simp: Store_Create_elems [OF refl] split: if_splits)

lemma Set_no_panic: "snd (snd (Store_Set s now p data ev)) \<noteq> Inl PanicNilParent"
  by (auto simp: Store_Set_refines(2) tree_set_def Let_def split: option.splits)

lemma session_op_ok:
  assumes "server_ok srv" "sm = fst (session_step op (sv_sessionManager srv))"
  shows "server_ok (srv\<lparr>sv_sessionManager := sm\<rparr>)"
  using assms session_step_table_ok [of "sv_sessionManager srv" op] by (simp add: server_ok_def)

lemma store_op_ok:
  assumes "server_ok srv" "store_wf s" "owned (tree_of s)"
  shows "server_ok (srv\<lparr>sv_store := s\<rparr>)"
  using assms by (simp add: server_ok_def)

definition served_ok :: "('m, 'f, 'h) served \<Rightarrow> bool" where
  "served_ok r \<longleftrightarrow> server_ok (fst r) \<and> response_ok (snd (snd (snd r)))"

lemma served_okI: "server_ok srv \<Longrightarrow> response_ok resp \<Longrightarrow> served_ok (srv, ev, ex, resp)"
  by (simp add: served_ok_def)

lemma createSession_ok: "server_ok srv \<Longrightarrow> served_ok (Server_createSession uuid t1 t2 body srv)"
  by (auto simp: Server_createSession_def Let_def case_prod_unfold split: option.split
      intro!: served_okI response_intros session_op_ok [where op = "OpCreate uuid t1 t2 c t" for c t])

lemma heartbeat_ok: "server_ok srv \<Longrightarrow> served_ok (Server_heartbeat t1 t2 sid srv)"
  by (auto simp: Server_heartbeat_def Let_def case_prod_unfold
      intro!: served_okI response_intros session_op_ok [where op = "OpHeartbeat t1 t2 sid"])

lemma closeSession_ok: "server_ok srv \<Longrightarrow> served_ok (Server_closeSession sid srv)"
  by (auto simp: Server_closeSession_def Let_def case_prod_unfold
      intro!: served_okI response_intros session_op_ok [where op = "OpClose sid"])

lemma createNode_ok:
  assumes "server_ok srv"
  shows "served_ok (Server_createNode t1 t2 param body srv)"
proof -
  have reg: "server_ok (srv\<lparr>sv_store := s, sv_sessionManager := fst (RegisterEphemeral (sv_sessionManager srv) sid key)\<rparr>)"
    if "server_ok (srv\<lparr>sv_store := s\<rparr>)" for s sid key
    using session_op_ok [OF that, of _ "OpRegister sid key"] by simp
  have store: "server_ok (srv\<lparr>sv_store := fst (Store_Create (sv_store srv) t1 t2 p data ephm sid seqn)\<rparr>)"
    if "ephm \<Longrightarrow> sid \<noteq> ''''" for p data ephm sid seqn
    using assms that by (intro store_op_ok Store_Create_wf Create_owned) (simp_all add: server_ok_def)
  have err: "ascii (store_Error e) \<and> store_Error e \<noteq> ''''" if "snd (snd (Store_Create (sv_store srv) t1 t2 p data ephm sid seqn)) = Inl e"
    for p data ephm sid seqn e using that Create_no_panic store_Error_ok by metis
  show ?thesis
    using assms store
    by (auto simp: Server_createNode_def Let_def case_prod_unfold split: option.split sum.split dest!: err
        intro!: served_okI response_intros reg)
qed

lemma setNode_ok:
  assumes "server_ok srv"
  shows "served_ok (Server_setNode now param body srv)"
proof -
  have store: "server_ok (srv\<lparr>sv_store := fst (Store_Set (sv_store srv) now p data v)\<rparr>)" for p data v
    using assms by (intro store_op_ok Store_Set_wf Set_owned) (simp_all add: server_ok_def)
  have err: "ascii (store_Error e) \<and> store_Error e \<noteq> ''''" if "snd (snd (Store_Set (sv_store srv) now p data v)) = Inl e" for p data v e
    using that Set_no_panic store_Error_ok by metis
  show ?thesis
    using assms store
    by (auto simp: Server_setNode_def Let_def case_prod_unfold split: option.split sum.split dest!: err intro!: served_okI response_intros)
qed

lemma Delete_ok:
  assumes "server_ok srv"
  shows "server_ok (srv\<lparr>sv_store := fst (Store_Delete (sv_store srv) p v)\<rparr>)"
  using assms by (intro store_op_ok Store_Delete_wf Delete_owned) (simp_all add: server_ok_def)

lemma Delete_error_ok:
  assumes "server_ok srv" "snd (snd (Store_Delete (sv_store srv) p v)) = Inl e"
  shows "ascii (store_Error e) \<and> store_Error e \<noteq> ''''"
  using assms Store_Delete_no_panic store_Error_ok unfolding server_ok_def by metis

lemma deleteNode_ok:
  assumes "server_ok srv"
  shows "served_ok (Server_deleteNode param version srv)"
  using assms by (auto simp: Server_deleteNode_def Let_def case_prod_unfold split: sum.split
      dest!: Delete_error_ok [OF assms] intro!: served_okI response_intros Delete_ok)

lemma releaseLock_ok:
  assumes "server_ok srv"
  shows "served_ok (Server_releaseLock name body srv)"
proof -
  have mgr: "server_ok (srv'\<lparr>sv_lockManager := m\<rparr>) = server_ok srv'" for srv' :: "('a, 'b, 'c) Server" and m
    by (simp add: server_ok_def)
  show ?thesis
    using assms
    by (auto simp: Server_releaseLock_def Unlock_def Let_def case_prod_unfold mgr split: option.split sum.split
        dest!: Delete_error_ok [OF assms] intro!: served_okI response_intros Delete_ok)
qed

lemma reads_ok:
  "response_ok (Server_getNode param srv)" "response_ok (Server_getChildren param srv)"
  "response_ok (Server_getLockInfo s1 s2 s3 name)" "response_ok (Server_getLeader srv)"
  "response_ok (Server_getStatus keys srv)" "response_ok Server_healthCheck"
  by (auto simp: Server_getNode_def Server_getChildren_def Server_getLockInfo_def Server_getLeader_def Server_getStatus_def
      Server_healthCheck_def GetLockHolder_def Store_Get_def Store_GetChildren_def Let_def
      split: option.splits sum.splits if_splits intro!: response_intros)

lemma acquireLock_begin_ok: "Server_acquireLock_begin name body = Inl resp \<Longrightarrow> response_ok resp"
  by (auto simp: Server_acquireLock_begin_def Let_def split: option.splits if_splits intro!: response_intros)

lemmas handlers_ok = createSession_ok heartbeat_ok closeSession_ok createNode_ok setNode_ok deleteNode_ok releaseLock_ok

lemma handle_ok:
  assumes "server_ok srv" "Server_handle env h r srv = Inl x"
  shows "served_ok x"
  using assms(2)
  by (cases h) (auto simp: handlers_ok [OF assms(1)] reads_ok assms(1) split: sum.splits dest: acquireLock_begin_ok intro!: served_okI)

text \<open>
  C16. The server is well typed: every request that is answered, whichever route it takes and
  whatever its body, leaves the store a tree whose ephemeral nodes belong to named sessions and the
  session table with ids and times-to-live in order; the response is 204 without a body, 200 or 201
  with an object that has no \<open>error\<close>, or an error status with a message. In particular no handler
  runs into the store's panic.
\<close>

theorem served_well_typed:
  assumes "server_ok srv" "Server_handle env h r srv = Inl (srv', ev, ex, resp)"
  shows "server_ok srv' \<and> response_ok resp"
  using handle_ok [OF assms] by (simp add: served_ok_def)

lemma NewServer_ok:
  assumes "0 < d" "0 < mx"
  shows "server_ok (NewServer node (NewSessionManager d mx) (NewStore t1 t2) lm wm)"
proof -
  have "owned (tree_of (NewStore t1 t2 :: 'c Store))"
    by (auto simp: owned_def tree_of_def NewStore_def split: if_splits)
  then show ?thesis
    using assms by (simp add: server_ok_def NewServer_def store_wf_NewStore table_ok_def ttl_config_ok_def NewSessionManager_def)
qed

lemma example_server_ok: "server_ok example_server"
proof -
  have "0 < Second" "0 < Minute" by (simp_all add: Second_def Minute_def)
  then show ?thesis
    using createSession_ok [OF NewServer_ok] unfolding example_server_def served_ok_def by blast
qed

definition example_env :: "unit request_env" where
  "example_env = \<lparr>re_t1 = 0, re_t2 = 0, re_uuid = ''s2'', re_watchKeys = [], re_later = (NewStore 0 0, NewStore 0 0)\<rparr>"

definition example_put :: http_request where
  "example_put = \<lparr>hr_param = ''a'', hr_version = '''', hr_body = Some (JObject [(''data'', JString ''x'')])\<rparr>"

theorem served_well_typed_witness:
  "\<exists>srv' ev ex resp. Server_handle example_env CreateNode example_put example_server = Inl (srv', ev, ex, resp) \<and>
     rs_status resp = 201 \<and> server_ok srv' \<and> response_ok resp"
proof -
  let ?run = "Server_createNode 0 0 ''a'' (hr_body example_put) example_server"
  obtain srv' ev ex resp where r: "?run = (srv', ev, ex, resp)" by (metis prod.collapse)
  then have run: "Server_handle example_env CreateNode example_put example_server = Inl (srv', ev, ex, resp)"
    by (simp add: example_env_def example_put_def)
  have "(case ?run of (srv', ev, ex, resp) \<Rightarrow> rs_status resp) = 201" by code_simp
  then have st: "rs_status resp = 201" using r by simp
  from served_well_typed [OF example_server_ok run] run st show ?thesis by blast
qed

end
