(* ===== verification/ClientSDK.thy ===== *)
theory ClientSDK
  imports Json Sessions
begin

text \<open>
  The client library, \<open>pkg/client/client.go\<close>. The HTTP client is a parameter \<open>send\<close>: from method, URL
  and body it gives an error, or the status and the body of the response; \<open>'w\<close> is the state of the
  world it talks to. A body that is no JSON document is \<open>None\<close>. The mutex protects one field that
  every operation reads once; \<open>None\<close> in a result is a panic.
\<close>

section \<open>Requests\<close>

type_synonym ('e, 'w) http_send = "string \<Rightarrow> string \<Rightarrow> json option \<Rightarrow> 'w \<Rightarrow> 'w \<times> ('e + nat \<times> json option)"

datatype 'e client_error = NotConnected | RequestFailed 'e | HttpError nat "json option" | InvalidResponse

text \<open>\<open>cl_heartbeatStop\<close> is nil, or the channel that stops the heartbeat and whether it is closed.\<close>

record Client =
  cl_baseURL :: string
  cl_sessionID :: string
  cl_heartbeatStop :: "bool option"

definition NewClient :: "string list \<Rightarrow> Client" where
  "NewClient servers =
     \<lparr>cl_baseURL = (case servers of [] \<Rightarrow> ''http://localhost:8080'' | s # _ \<Rightarrow> s),
      cl_sessionID = '''', cl_heartbeatStop = None\<rparr>"

definition doRequest ::
  "('e, 'w) http_send \<Rightarrow> Client \<Rightarrow> string \<Rightarrow> string \<Rightarrow> json option \<Rightarrow> 'w \<Rightarrow> 'w \<times> ('e client_error + json option)" where
  "doRequest send c method_name path body w =
     (case send method_name (cl_baseURL c @ path) (map_option json_Marshal body) w of
        (w', Inl err) \<Rightarrow> (w', Inl (RequestFailed err))
      | (w', Inr (status, respBody)) \<Rightarrow>
          (w', if status \<ge> 400 then Inl (HttpError status respBody) else Inr respBody))"

text \<open>Decoding the response into a struct.\<close>

definition unmarshal :: "(json option \<Rightarrow> 'a option) \<Rightarrow> 'e client_error + json option \<Rightarrow> 'e client_error + 'a" where
  "unmarshal decode r =
     (case r of
        Inl err \<Rightarrow> Inl err
      | Inr resp \<Rightarrow> (case decode resp of None \<Rightarrow> Inl InvalidResponse | Some x \<Rightarrow> Inr x))"

section \<open>Connection and heartbeat\<close>

text \<open>
  \<open>startHeartbeat\<close> makes the channel and starts a goroutine with the interval; the list of the
  started goroutines is part of the result of \<open>Connect\<close>.
\<close>

definition startHeartbeat :: "duration \<Rightarrow> Client \<Rightarrow> Client \<times> duration list" where
  "startHeartbeat interval c = (c\<lparr>cl_heartbeatStop := Some False\<rparr>, [interval])"

text \<open>
  \<open>time.Duration(result.TTL/3) * time.Second\<close>: the float is cut to whole seconds. For times-to-live
  as short as those of this program the division is exact enough to be the one on integers.
\<close>

definition heartbeat_interval :: "duration \<Rightarrow> duration" where
  "heartbeat_interval ttl = wrap64 (sgn ttl * (\<bar>ttl\<bar> div (3 * Second)) * Second)"

definition Client_Connect ::
  "('e, 'w) http_send \<Rightarrow> string \<Rightarrow> Client \<Rightarrow> 'w \<Rightarrow> Client \<times> 'w \<times> duration list \<times> ('e client_error + unit)" where
  "Client_Connect send clientID c w =
     (let (w', r) = doRequest send c ''POST'' ''/v1/session''
                      (Some (JObject [(''client_id'', JString clientID), (''ttl_seconds'', JInt 30)])) w
      in case unmarshal (\<lambda>b. case (decode_field as_string ''session_id'' '''' b, decode_field as_seconds ''ttl'' 0 b) of
                           (Some sid, Some ttl) \<Rightarrow> Some (sid, ttl) | _ \<Rightarrow> None) r of
           Inl err \<Rightarrow> (c, w', [], Inl err)
         | Inr (sid, ttl) \<Rightarrow>
             (let (c', started) = startHeartbeat (heartbeat_interval ttl) (c\<lparr>cl_sessionID := sid\<rparr>)
              in (c', w', started, Inr ())))"

text \<open>
  The goroutine: \<open>time.NewTicker\<close> panics unless the interval is positive. Each tick reads the
  session id of the moment and sends one request; errors are only logged.
\<close>

datatype client_beat = StopBeat | TickBeat string

fun heartbeat_loop :: "('e, 'w) http_send \<Rightarrow> Client \<Rightarrow> client_beat list \<Rightarrow> 'w \<Rightarrow> 'w" where
  "heartbeat_loop send c [] w = w"
| "heartbeat_loop send c (StopBeat # es) w = w"
| "heartbeat_loop send c (TickBeat sid # es) w =
     heartbeat_loop send c es (fst (doRequest send c ''POST'' (''/v1/session/'' @ sid @ ''/heartbeat'') None w))"

definition heartbeat_goroutine :: "('e, 'w) http_send \<Rightarrow> duration \<Rightarrow> Client \<Rightarrow> client_beat list \<Rightarrow> 'w \<Rightarrow> 'w option" where
  "heartbeat_goroutine send interval c es w = (if interval \<le> 0 then None else Some (heartbeat_loop send c es w))"

text \<open>Closing a closed channel panics; the answer to the last request is ignored.\<close>

definition Client_Close :: "('e, 'w) http_send \<Rightarrow> Client \<Rightarrow> 'w \<Rightarrow> (Client \<times> 'w) option" where
  "Client_Close send c w =
     (if cl_heartbeatStop c = Some True then None
      else
        (let c' = (if cl_heartbeatStop c = None then c else c\<lparr>cl_heartbeatStop := Some True\<rparr>);
             sessionID = cl_sessionID c'
         in Some (c', if sessionID \<noteq> '''' then fst (doRequest send c' ''DELETE'' (''/v1/session/'' @ sessionID) None w) else w)))"

section \<open>Locks\<close>

record ClientLock =
  kl_Name :: string
  kl_LockID :: string
  kl_Owner :: string

definition ClientLock_Unlock ::
  "('e, 'w) http_send \<Rightarrow> Client \<Rightarrow> ClientLock \<Rightarrow> 'w \<Rightarrow> 'w \<times> ('e client_error + unit)" where
  "ClientLock_Unlock send c l w =
     (let (w', r) = doRequest send c ''DELETE'' (''/v1/locks/'' @ kl_Name l) (Some (JObject [(''lock_id'', JString (kl_LockID l))])) w
      in (w', map_sum id (\<lambda>_. ()) r))"

definition Client_TryLock ::
  "('e, 'w) http_send \<Rightarrow> Client \<Rightarrow> string \<Rightarrow> duration \<Rightarrow> 'w \<Rightarrow> 'w \<times> ('e client_error + ClientLock)" where
  "Client_TryLock send c name timeout w =
     (if cl_sessionID c = '''' then (w, Inl NotConnected)
      else
        (let ms = sgn timeout * (\<bar>timeout\<bar> div Millisecond);
             timeoutMs = (if ms = 0 then 30000 else ms);
             (w', r) = doRequest send c ''POST'' (''/v1/locks/'' @ name)
                         (Some (JObject [(''owner'', JString ''sdk-client''), (''session_id'', JString (cl_sessionID c)),
                                         (''timeout_ms'', JInt timeoutMs)])) w
         in (w', unmarshal (\<lambda>b. case (decode_field as_string ''lock_id'' '''' b, decode_field as_string ''name'' '''' b,
                                      decode_field as_string ''owner'' '''' b) of
                   (Some i, Some n, Some ow) \<Rightarrow> Some \<lparr>kl_Name = n, kl_LockID = i, kl_Owner = ow\<rparr> | _ \<Rightarrow> None) r)))"

definition Client_Lock ::
  "('e, 'w) http_send \<Rightarrow> Client \<Rightarrow> string \<Rightarrow> 'w \<Rightarrow> 'w \<times> ('e client_error + ClientLock)" where
  "Client_Lock send c name w = Client_TryLock send c name 0 w"

section \<open>Nodes\<close>

definition Client_Create ::
  "('e, 'w) http_send \<Rightarrow> Client \<Rightarrow> string \<Rightarrow> bytes \<Rightarrow> bool \<Rightarrow> 'w \<Rightarrow> 'w \<times> ('e client_error + string)" where
  "Client_Create send c path data ephemeral w =
     (if ephemeral \<and> cl_sessionID c = '''' then (w, Inl NotConnected)
      else
        (let (w', r) = doRequest send c ''PUT'' (''/v1/nodes/'' @ path)
                         (Some (JObject [(''data'', JString data), (''ephemeral'', JBool ephemeral),
                                         (''session_id'', JString (cl_sessionID c))])) w
         in (w', unmarshal (decode_field as_string ''path'' '''') r)))"

definition Client_Get ::
  "('e, 'w) http_send \<Rightarrow> Client \<Rightarrow> string \<Rightarrow> 'w \<Rightarrow> 'w \<times> ('e client_error + bytes \<times> u64)" where
  "Client_Get send c path w =
     (let (w', r) = doRequest send c ''GET'' (''/v1/nodes/'' @ path) None w
      in (w', unmarshal (\<lambda>b. case (decode_field as_string ''data'' '''' b, decode_field as_uint64 ''version'' 0 b) of
                (Some d, Some v) \<Rightarrow> Some (d, v) | _ \<Rightarrow> None) r))"

definition Client_Set ::
  "('e, 'w) http_send \<Rightarrow> Client \<Rightarrow> string \<Rightarrow> bytes \<Rightarrow> int \<Rightarrow> 'w \<Rightarrow> 'w \<times> ('e client_error + u64)" where
  "Client_Set send c path data version w =
     (let (w', r) = doRequest send c ''POST'' (''/v1/nodes/'' @ path)
                      (Some (JObject [(''data'', JString data), (''version'', JInt version)])) w
      in (w', unmarshal (decode_field as_uint64 ''version'' 0) r))"

definition Client_Delete :: "('e, 'w) http_send \<Rightarrow> Client \<Rightarrow> string \<Rightarrow> 'w \<Rightarrow> 'w \<times> ('e client_error + unit)" where
  "Client_Delete send c path w =
     (let (w', r) = doRequest send c ''DELETE'' (''/v1/nodes/'' @ path) None w in (w', map_sum id (\<lambda>_. ()) r))"

definition Client_GetChildren ::
  "('e, 'w) http_send \<Rightarrow> Client \<Rightarrow> string \<Rightarrow> 'w \<Rightarrow> 'w \<times> ('e client_error + string list)" where
  "Client_GetChildren send c path w =
     (let (w', r) = doRequest send c ''GET'' (''/v1/children/'' @ path) None w
      in (w', unmarshal (decode_field as_strings ''children'' []) r))"

definition Client_GetLeader :: "('e, 'w) http_send \<Rightarrow> Client \<Rightarrow> 'w \<Rightarrow> 'w \<times> ('e client_error + string)" where
  "Client_GetLeader send c w =
     (let (w', r) = doRequest send c ''GET'' ''/v1/cluster/leader'' None w
      in (w', unmarshal (decode_field as_string ''leader_id'' '''') r))"

end
