(* ===== verification/ClientProperties.thy ===== *)
theory ClientProperties
  imports ClientSDK ApiTypes
begin

text \<open>
  The client library against the server: requests built by the one reach the handlers of the other
  and the answers decode to what the handlers meant. What the client relies on is a locale: the
  router finds the route, and the network delivers request and answer.
\<close>

section \<open>The HTTP service\<close>

text \<open>Characters that a URL carries unchanged.\<close>

definition url_char :: "char \<Rightarrow> bool" where
  "url_char c \<longleftrightarrow> (CHR ''a'' \<le> c \<and> c \<le> CHR ''z'') \<or> (CHR ''A'' \<le> c \<and> c \<le> CHR ''Z'') \<or> (CHR ''0'' \<le> c \<and> c \<le> CHR ''9'') \<or>
     c \<in> set ''/-_.~''"

definition plain_url :: "string \<Rightarrow> bool" where
  "plain_url s \<longleftrightarrow> list_all url_char s"

text \<open>A fresh identifier of the uuid library: hexadecimal digits and hyphens.\<close>

definition uuid_ok :: "string \<Rightarrow> bool" where
  "uuid_ok s \<longleftrightarrow> s \<noteq> '''' \<and> set s \<subseteq> set ''0123456789abcdef-''"

text \<open>
  A request with a plain path that the router sends to a handler is served by it, at some moment
  and with a fresh identifier, and the answer comes back. Lock calls that block are left open.
\<close>

definition answers :: "('e, ('m, 'f, 'h) Server) http_send \<Rightarrow> router \<Rightarrow> string \<Rightarrow> bool" where
  "answers send mux base \<longleftrightarrow>
     (\<forall>m path body srv h v. plain_url path \<and> mux m path = Some (h, v) \<longrightarrow>
        (\<exists>env. uuid_ok (re_uuid env) \<and>
           (case Server_handle env h \<lparr>hr_param = v, hr_version = '''', hr_body = body\<rparr> srv of
              Inl (srv', ev, ex, resp) \<Rightarrow> send m (base @ path) body srv = (srv', Inr (rs_status resp, rs_body resp))
            | Inr call \<Rightarrow> True)))"

locale http_service =
  fixes send :: "('e, ('m, 'f, 'h) Server) http_send" and mux :: router and base :: string
  assumes routes: "routes_ok mux"
    and answered: "answers send mux base"
begin

lemma served_request:
  assumes "matching m path = [(h, v)]" "v \<noteq> '''' \<or> (m, path, h) \<in> set setupRoutes" "plain_url path"
  obtains env where "uuid_ok (re_uuid env)"
    and "\<And>srv' ev ex resp. Server_handle env h \<lparr>hr_param = v, hr_version = '''', hr_body = body\<rparr> srv = Inl (srv', ev, ex, resp) \<Longrightarrow>
      send m (base @ path) body srv = (srv', Inr (rs_status resp, rs_body resp))"
proof -
  have "mux m path = Some (h, v)" using routes assms(1,2) by (auto simp: routes_ok_def)
  with answered assms(3) obtain env where "uuid_ok (re_uuid env)"
    "case Server_handle env h \<lparr>hr_param = v, hr_version = '''', hr_body = body\<rparr> srv of
       Inl (srv', ev, ex, resp) \<Rightarrow> send m (base @ path) body srv = (srv', Inr (rs_status resp, rs_body resp)) | Inr call \<Rightarrow> True"
    unfolding answers_def by blast
  then show thesis by (intro that [of env]) simp_all
qed

lemma request_handled:
  assumes "matching m path = [(h, v)]" "v \<noteq> '''' \<or> (m, path, h) \<in> set setupRoutes" "plain_url path" "cl_baseURL c = base"
  obtains env where "uuid_ok (re_uuid env)"
    and "\<And>srv' ev ex resp.
      Server_handle env h \<lparr>hr_param = v, hr_version = '''', hr_body = map_option json_Marshal body\<rparr> srv = Inl (srv', ev, ex, resp) \<Longrightarrow>
      doRequest send c m path body srv =
        (srv', if 400 \<le> rs_status resp then Inl (HttpError (rs_status resp) (rs_body resp)) else Inr (rs_body resp))"
proof -
  obtain env where env: "uuid_ok (re_uuid env)"
    "\<And>srv' ev ex resp. Server_handle env h \<lparr>hr_param = v, hr_version = '''', hr_body = map_option json_Marshal body\<rparr> srv =
        Inl (srv', ev, ex, resp) \<Longrightarrow>
      send m (base @ path) (map_option json_Marshal body) srv = (srv', Inr (rs_status resp, rs_body resp))"
    using served_request [OF assms(1-3)] by metis
  show thesis by (rule that [OF env(1)]) (simp add: doRequest_def assms(4) env(2))
qed

end

text \<open>The router that follows the table, and a network that delivers everything at once.\<close>

definition table_router :: router where
  "table_router m path = (case matching m path of [(h, v)] \<Rightarrow> Some (h, v) | _ \<Rightarrow> None)"

definition direct_http :: "'h request_env \<Rightarrow> string \<Rightarrow> (unit, ('m, 'f, 'h) Server) http_send" where
  "direct_http env base m url body srv =
     (case table_router m (drop (length base) url) of
        None \<Rightarrow> (srv, Inr (404, None))
      | Some (h, v) \<Rightarrow>
          (case Server_handle env h \<lparr>hr_param = v, hr_version = '''', hr_body = body\<rparr> srv of
             Inl (srv', ev, ex, resp) \<Rightarrow> (srv', Inr (rs_status resp, rs_body resp))
           | Inr call \<Rightarrow> (srv, Inl ())))"

lemma table_router_ok: "routes_ok table_router"
  by (simp add: routes_ok_def table_router_def)

lemma direct_http_answers: "uuid_ok (re_uuid env) \<Longrightarrow> answers (direct_http env base) table_router base"
  by (auto simp: answers_def direct_http_def split: sum.split intro!: exI [of _ env])

definition example_uuid :: string where
  "example_uuid = ''c0ffee-01''"

definition example_request_env :: "unit request_env" where
  "example_request_env = example_env\<lparr>re_uuid := example_uuid\<rparr>"

lemma example_uuid_ok: "uuid_ok (re_uuid example_request_env)"
  by (simp add: uuid_ok_def example_request_env_def example_uuid_def)

interpretation direct_service: http_service "direct_http example_request_env base" table_router base
  by unfold_locales (simp_all add: table_router_ok direct_http_answers example_uuid_ok)

section \<open>Decoding\<close>

text \<open>The keys of the program are lower-case ASCII, and such a key selects the field of its own name only.\<close>

definition lower :: "string \<Rightarrow> bool" where
  "lower s \<longleftrightarrow> list_all (\<lambda>c. of_char c < (128 :: nat) \<and> \<not> (65 \<le> (of_char c :: nat) \<and> of_char c \<le> (90 :: nat))) s"

lemma lower_runes: "lower s \<Longrightarrow> map fold_rune (runes s) = map of_char s"
proof -
  assume l: "lower s"
  then have "ascii s" by (auto simp: lower_def ascii_def list_all_iff)
  moreover have "fold_rune (of_char c) = of_char c" if "c \<in> set s" for c
  proof -
    have "of_char c < (128 :: nat)" "\<not> (65 \<le> (of_char c :: nat) \<and> of_char c \<le> (90 :: nat))" using l that by (auto simp: lower_def list_all_iff)
    moreover have "(of_char c :: int) = int (of_char c)" by simp
    ultimately show ?thesis by (simp add: fold_rune_def del: int_of_char)
  qed
  ultimately show ?thesis by (simp add: runes_ascii)
qed

lemma key_matches_lower: "lower tag \<Longrightarrow> lower k \<Longrightarrow> key_matches tag k \<longleftrightarrow> k = tag"
proof -
  assume l: "lower tag" "lower k"
  have "inj (of_char :: char \<Rightarrow> int)" by (auto simp: inj_def of_char_eq_iff)
  then show ?thesis by (auto simp: key_matches_def lower_runes l inj_map_eq_map)
qed

text \<open>So decoding a field of an object with different keys is a lookup.\<close>

lemma decode_object:
  assumes "list_all lower (map fst kvs)" "lower tag" "distinct (map fst kvs)"
  shows "decode_field conv tag dflt (Some (JObject kvs)) =
     (case map_of kvs tag of None \<Rightarrow> Some dflt | Some v \<Rightarrow> if v = JNull then Some dflt else conv v)"
  using assms(1,3)
proof (induction kvs arbitrary: dflt)
  case (Cons kv kvs)
  obtain k v where kv: "kv = (k, v)" by (cases kv)
  have m: "key_matches tag k \<longleftrightarrow> k = tag" using key_matches_lower [OF assms(2), of k] Cons.prems(1) by (simp add: kv)
  have step: "decode_field conv tag dflt (Some (JObject (kv # kvs))) =
      (if k = tag \<and> v \<noteq> JNull then (case conv v of None \<Rightarrow> None | Some x \<Rightarrow> decode_field conv tag x (Some (JObject kvs)))
       else decode_field conv tag dflt (Some (JObject kvs)))"
  proof -
    have "foldl (\<lambda>acc (k, v). if key_matches tag k \<and> v \<noteq> JNull
        then (case (acc, conv v) of (Some _, Some x) \<Rightarrow> Some x | _ \<Rightarrow> None) else acc) None kvs = None" by (induction kvs) auto
    then show ?thesis by (simp add: decode_field_def kv m split: option.split)
  qed
  have out: "k = tag \<Longrightarrow> map_of kvs tag = None" using Cons.prems(2) by (auto simp: kv map_of_eq_None_iff)
  show ?case
    using Cons step out by (cases "k = tag") (simp_all add: kv split: option.split)
qed (simp add: decode_field_def)

section \<open>Paths\<close>

lemma split_on_chars: "w \<in> set (split_on c s) \<Longrightarrow> set w \<subseteq> set s"
proof (induction s arbitrary: w)
  case (Cons x s)
  then show ?case by (cases "split_on c s") (auto split: if_splits, blast+)
qed simp

lemma clean_elems_subset: "set (foldl (clean_step True) st cs) \<subseteq> set st \<union> set cs"
proof (induction cs arbitrary: st)
  case (Cons c cs)
  have "set (clean_step True st c) \<subseteq> set st \<union> {c}" by (auto simp: clean_step_def split: list.splits if_splits)
  then show ?case using Cons.IH [of "clean_step True st c"] by auto
qed simp

lemma path_elems_chars: "e \<in> set (path_elems p) \<Longrightarrow> set e \<subseteq> set p"
  using clean_elems_subset [of "[]" "split_on CHR ''/'' p"] by (auto simp: path_elems_def clean_elems_def dest!: split_on_chars)

lemma path_of_chars: "set (path_of (path_elems p)) \<subseteq> insert (CHR ''/'') (set p)"
  using path_elems_chars [of _ p] by (auto simp: path_of_def)

lemma node_path_chars: "set (node_path p) \<subseteq> insert (CHR ''/'') (set p)"
  by (auto simp: node_path_def strings_TrimPrefix_def dest: in_set_dropD split: if_splits)

lemma plain_url_subset: "plain_url s \<Longrightarrow> set t \<subseteq> insert (CHR ''/'') (set s) \<Longrightarrow> plain_url t"
  by (auto simp: plain_url_def list_all_iff url_char_def subset_iff)

lemma url_char_ascii: "url_char c \<Longrightarrow> of_char c < (128 :: nat)"
  by (auto simp: url_char_def less_eq_char_def)

lemma plain_url_ascii: "plain_url s \<Longrightarrow> ascii s"
  by (auto simp: plain_url_def ascii_def list_all_iff url_char_ascii)

lemma node_path_of [simp]: "node_path (path_of es) = path_of es"
  by (cases es) (auto simp: node_path_def path_of_def strings_TrimPrefix_def strings_HasPrefix_def)

lemma node_routes:
  "matching ''PUT'' (''/v1/nodes/'' @ p) = [(CreateNode, p)]" "matching ''GET'' (''/v1/nodes/'' @ p) = [(GetNode, p)]"
  "matching ''POST'' (''/v1/nodes/'' @ p) = [(SetNode, p)]" "matching ''DELETE'' (''/v1/nodes/'' @ p) = [(DeleteNode, p)]"
  "matching ''GET'' (''/v1/children/'' @ p) = [(GetChildren, p)]"
  by (simp_all add: matching_def setupRoutes_def)

section \<open>Create and Get\<close>

lemmas decode_simps = decode_object lower_def utf8_coerce_ascii

lemma createNode_plain:
  assumes "ascii data" "ascii sid" "ephm \<longrightarrow> sid \<noteq> ''''"
  shows "Server_createNode t1 t2 param (map_option json_Marshal (Some (JObject
       [(''data'', JString data), (''ephemeral'', JBool ephm), (''session_id'', JString sid)]))) srv =
     (case Store_Create (sv_store srv) t1 t2 (node_path param) data ephm sid False of
        (s', ev, Inl err) \<Rightarrow> (srv\<lparr>sv_store := s'\<rparr>, ev, [],
           if err = ErrNodeExists then respondError 409 ''node already exists''
           else if err = ErrNodeNotFound then respondError 404 ''parent node not found'' else respondError 500 (store_Error err))
      | (s', ev, Inr q) \<Rightarrow> (srv\<lparr>sv_store := s', sv_sessionManager :=
              (if ephm then fst (RegisterEphemeral (sv_sessionManager srv) sid q) else sv_sessionManager srv)\<rparr>, ev, [],
           respondJSON 201 (JObject [(''path'', JString q)])))"
  using assms by (auto simp: Server_createNode_def decode_simps Let_def split: prod.split sum.split)

lemma getNode_found:
  assumes "Store_Get (sv_store srv) q = Inr n" "node_path p = q" "ascii (sn_Data n)"
  shows "rs_status (Server_getNode p srv) = 200 \<and>
     decode_field as_string ''data'' '''' (rs_body (Server_getNode p srv)) = Some (sn_Data n) \<and>
     decode_field as_uint64 ''version'' 0 (rs_body (Server_getNode p srv)) = Some (sn_Version n)"
proof -
  have "0 \<le> uint (sn_Version n)" "uint (sn_Version n) < 2 ^ 64" using uint_lt2p [of "sn_Version n"] by simp_all
  then show ?thesis using assms by (simp add: Server_getNode_def respondJSON_def decode_simps)
qed

lemma plain_node_url: "plain_url p \<Longrightarrow> plain_url (''/v1/nodes/'' @ p)"
  by (simp add: plain_url_def url_char_def)

text \<open>A successful \<open>Create\<close> has created a node in the store behind the service.\<close>

lemma client_create_stored:
  assumes service: "http_service send mux (cl_baseURL c)"
    and path: "plain_url path" "path \<noteq> ''''" and ascii: "ascii data" "ascii (cl_sessionID c)"
    and run: "Client_Create send c path data ephemeral srv = (srv', Inr q)"
  obtains t1 t2 ev where "Store_Create (sv_store srv) t1 t2 (node_path path) data ephemeral (cl_sessionID c) False = (sv_store srv', ev, Inr q)"
    "q = path_of (path_elems (node_path path))" "plain_url q"
proof -
  let ?b = "Some (JObject [(''data'', JString data), (''ephemeral'', JBool ephemeral), (''session_id'', JString (cl_sessionID c))])"
  have sid: "ephemeral \<longrightarrow> cl_sessionID c \<noteq> ''''" using run by (auto simp: Client_Create_def split: if_splits)
  obtain r where r: "doRequest send c ''PUT'' (''/v1/nodes/'' @ path) ?b srv = (srv', r)"
      "unmarshal (decode_field as_string ''path'' '''') r = Inr q"
    using run sid by (auto simp: Client_Create_def split: prod.splits if_splits)
  obtain env where env: "\<And>srv' ev ex resp.
      Server_handle env CreateNode \<lparr>hr_param = path, hr_version = '''', hr_body = map_option json_Marshal ?b\<rparr> srv = Inl (srv', ev, ex, resp) \<Longrightarrow>
      doRequest send c ''PUT'' (''/v1/nodes/'' @ path) ?b srv =
        (srv', if 400 \<le> rs_status resp then Inl (HttpError (rs_status resp) (rs_body resp)) else Inr (rs_body resp))"
    using http_service.request_handled [OF service node_routes(1) _ plain_node_url [OF path(1)] refl] path(2) by metis
  obtain s' ev res where cr: "Store_Create (sv_store srv) (re_t1 env) (re_t2 env) (node_path path) data ephemeral (cl_sessionID c) False = (s', ev, res)"
    by (metis prod.collapse)
  have hd: "Server_handle env CreateNode \<lparr>hr_param = path, hr_version = '''', hr_body = map_option json_Marshal ?b\<rparr> srv =
      Inl (Server_createNode (re_t1 env) (re_t2 env) path (map_option json_Marshal ?b) srv)" by (simp only: Server_handle.simps http_request.simps)
  note cn = createNode_plain [OF ascii sid, of "re_t1 env" "re_t2 env" path srv, unfolded cr]
  have "\<exists>q'. res = Inr q'"
  proof (cases res)
    case (Inl err)
    obtain resp where e: "Server_createNode (re_t1 env) (re_t2 env) path (map_option json_Marshal ?b) srv = (srv\<lparr>sv_store := s'\<rparr>, ev, [], resp)"
        "400 \<le> rs_status resp"
      unfolding cn by (simp add: Inl respondError_def respondJSON_def)
    have "isl r" using env [OF hd [unfolded e(1)]] r(1) e(2) by auto
    then show ?thesis using r(2) by (auto simp: unmarshal_def split: sum.splits)
  qed simp
  then obtain q' where q': "res = Inr q'" by blast
  have p: "q' = path_of (path_elems (node_path path))" using Store_Create_ok(1) [OF cr [unfolded q']] by (simp add: seq_elems_def)
  have pq: "plain_url q'"
    by (rule plain_url_subset [OF path(1)]) (use path_of_chars [of "node_path path"] node_path_chars [of path] in \<open>auto simp: p\<close>)
  have res: "sv_store srv' = s'" "r = Inr (rs_body (respondJSON 201 (JObject [(''path'', JString q')])))"
    using r(1) env [OF hd [unfolded cn q' sum.case prod.case]] by (simp_all add: respondJSON_def)
  have "q = q'" using r(2) pq by (simp add: res(2) unmarshal_def respondJSON_def decode_simps plain_url_ascii)
  then show thesis using that cr q' p pq res(1) by blast
qed

text \<open>\<open>Get\<close> of an existing path returns what the store has.\<close>

lemma client_get_stored:
  assumes service: "http_service send mux (cl_baseURL c)" and path: "plain_url q" "q \<noteq> ''''" "node_path q = q"
    and node: "Store_Get (sv_store srv) q = Inr n" "ascii (sn_Data n)"
  shows "Client_Get send c q srv = (srv, Inr (sn_Data n, sn_Version n))"
proof -
  obtain env where "\<And>srv1 ev ex resp.
      Server_handle env GetNode \<lparr>hr_param = q, hr_version = '''', hr_body = map_option json_Marshal None\<rparr> srv = Inl (srv1, ev, ex, resp) \<Longrightarrow>
      doRequest send c ''GET'' (''/v1/nodes/'' @ q) None srv =
        (srv1, if 400 \<le> rs_status resp then Inl (HttpError (rs_status resp) (rs_body resp)) else Inr (rs_body resp))"
    using http_service.request_handled [OF service node_routes(2) _ plain_node_url [OF path(1)] refl] path(2) by metis
  then show ?thesis using getNode_found [OF node(1) path(3) node(2)] by (simp add: Client_Get_def unmarshal_def)
qed

text \<open>
  C19. What a client creates it can read back: if \<open>Create\<close> returns a path, then \<open>Get\<close> of that path
  returns the data, with version 1, and changes nothing. The path must be made of characters that a
  URL carries unchanged, data and session id of ASCII characters; the router must follow the table
  of routes and the network must deliver request and answer.
\<close>

theorem client_create_get:
  assumes "routes_ok mux" "answers send mux (cl_baseURL c)"
    and "plain_url path" "path \<noteq> ''''" "ascii data" "ascii (cl_sessionID c)"
    and "Client_Create send c path data ephemeral srv = (srv', Inr q)"
  shows "q = path_of (path_elems (node_path path)) \<and> Client_Get send c q srv' = (srv', Inr (data, 1))"
proof -
  note service = http_service.intro [OF assms(1,2)]
  obtain t1 t2 ev where cr: "Store_Create (sv_store srv) t1 t2 (node_path path) data ephemeral (cl_sessionID c) False = (sv_store srv', ev, Inr q)"
    and q: "q = path_of (path_elems (node_path path))" "plain_url q"
    using client_create_stored [OF service assms(3-7)] .
  obtain n where n: "Store_Get (sv_store srv') q = Inr n" "sn_Data n = data" "sn_Version n = 1" using Create_then_get [OF cr] by blast
  have "node_path q = q" "q \<noteq> ''''" using q(1) by simp_all
  then show ?thesis using client_get_stored [OF service q(2) _ _ n(1)] n(2,3) assms(5) q(1) by simp
qed

lemma direct_put:
  "direct_http env base ''PUT'' (base @ ''/v1/nodes/'' @ p) body srv =
     (case Server_createNode (re_t1 env) (re_t2 env) p body srv of (srv', ev, ex, resp) \<Rightarrow> (srv', Inr (rs_status resp, rs_body resp)))"
  using node_routes(1) [of p] by (simp add: direct_http_def table_router_def split: prod.split)

theorem client_create_get_witness:
  "\<exists>srv' q. Client_Create (direct_http example_request_env ''http://localhost:8080'') (NewClient []) ''/a'' ''x'' False example_server = (srv', Inr q) \<and>
     Client_Get (direct_http example_request_env ''http://localhost:8080'') (NewClient []) q srv' = (srv', Inr (''x'', 1))"
proof -
  let ?send = "direct_http example_request_env ''http://localhost:8080''"
    and ?b = "Some (JObject [(''data'', JString ''x''), (''ephemeral'', JBool False), (''session_id'', JString '''')])"
  obtain srv' ev ex resp where run: "Server_createNode 0 0 ''/a'' (map_option json_Marshal ?b) example_server = (srv', ev, ex, resp)"
    by (metis prod.collapse)
  have "(case Server_createNode 0 0 ''/a'' (map_option json_Marshal ?b) example_server of (srv', ev, ex, resp) \<Rightarrow>
      (rs_status resp, decode_field as_string ''path'' '''' (rs_body resp))) = (201, Some ''/a'')" by code_simp
  then have v: "rs_status resp = 201" "decode_field as_string ''path'' '''' (rs_body resp) = Some ''/a''" using run by simp_all
  have c: "cl_baseURL (NewClient []) = ''http://localhost:8080''" "cl_sessionID (NewClient []) = ''''" by (simp_all add: NewClient_def)
  have send: "?send ''PUT'' (''http://localhost:8080'' @ ''/v1/nodes/'' @ ''/a'') (map_option json_Marshal ?b) example_server =
      (srv', Inr (201, rs_body resp))"
    unfolding direct_put using run v(1) by (simp add: example_request_env_def example_env_def)
  have created: "Client_Create ?send (NewClient []) ''/a'' ''x'' False example_server = (srv', Inr ''/a'')"
    using send v(2) by (simp add: Client_Create_def doRequest_def c unmarshal_def)
  have plain: "plain_url ''/a''" "ascii ''x''" "ascii ''''" by code_simp+
  have "Client_Get ?send (NewClient []) ''/a'' srv' = (srv', Inr (''x'', 1))"
    using client_create_get [OF table_router_ok _ plain(1) _ plain(2) _ created] plain(3) c
    by (simp add: direct_http_answers [OF example_uuid_ok])
  with created show ?thesis by blast
qed

section \<open>Connect\<close>

lemma session_route: "matching ''POST'' ''/v1/session'' = [(CreateSession, '''')]"
  by (simp add: matching_def setupRoutes_def)

lemma uuid_ascii: "uuid_ok s \<Longrightarrow> ascii s"
  by (auto simp: uuid_ok_def ascii_def)

lemma createSession_plain:
  assumes "ascii clientID" "clientID \<noteq> ''''" "0 < sm_maxTTL (sv_sessionManager srv)"
  shows "\<exists>s. Server_createSession uuid t1 t2 (map_option json_Marshal (Some (JObject [(''client_id'', JString clientID), (''ttl_seconds'', JInt 30)]))) srv =
     (srv\<lparr>sv_sessionManager := (sv_sessionManager srv)\<lparr>sm_sessions := (sm_sessions (sv_sessionManager srv))(uuid \<mapsto> s)\<rparr>\<rparr>, [], [],
      respondJSON 201 (JObject [(''session_id'', JString uuid), (''ttl'', JSeconds (ss_TTL s))])) \<and>
     ss_ID s = uuid \<and> ss_ClientID s = clientID \<and> ss_LastHeartbeat s = t2 \<and> ss_TTL s = min (30 * Second) (sm_maxTTL (sv_sessionManager srv))"
proof -
  have "wrap64 (30 * Second) = 30 * Second" by (rule wrap64_id) (simp add: in_int64_def Second_def min_int64_def max_int64_def)
  then have "clamp_ttl (sv_sessionManager srv) (wrap64 (30 * Second)) = min (30 * Second) (sm_maxTTL (sv_sessionManager srv))"
    by (simp add: clamp_ttl_def Second_def)
  then show ?thesis
    using assms
    by (intro exI [of _ "snd (Session_Create uuid t1 t2 (sv_sessionManager srv) clientID (wrap64 (30 * Second)))"])
      (simp add: Server_createSession_def decode_simps in_int64_def min_int64_def max_int64_def Session_Create_def Let_def)
qed

lemma heartbeat_interval_bounds:
  assumes "0 < ttl" "ttl \<le> 30 * Second"
  shows "heartbeat_interval ttl = ttl div (3 * Second) * Second" "3 * heartbeat_interval ttl \<le> ttl"
    "0 < heartbeat_interval ttl \<longleftrightarrow> 3 * Second \<le> ttl"
proof -
  let ?q = "ttl div (3 * Second)"
  have q: "0 \<le> ?q" "?q * (3 * Second) \<le> ttl" "0 < ?q \<longleftrightarrow> 3 * Second \<le> ttl"
    using assms(1) by (simp_all add: Second_def pos_imp_zdiv_nonneg_iff pos_imp_zdiv_pos_iff)
  have "wrap64 (?q * Second) = ?q * Second"
    using q(1,2) assms(2) by (intro wrap64_id) (simp add: in_int64_def Second_def min_int64_def max_int64_def)
  then show e: "heartbeat_interval ttl = ?q * Second" using assms(1) by (simp add: heartbeat_interval_def)
  show "3 * heartbeat_interval ttl \<le> ttl" using q(2) by (simp add: e Second_def)
  show "0 < heartbeat_interval ttl \<longleftrightarrow> 3 * Second \<le> ttl" using q(3) by (simp add: e Second_def zero_less_mult_iff)
qed



end
