(* ===== verification/Ctl.thy ===== *)
theory Ctl
  imports ClientProperties
begin

text \<open>
  The command line client, \<open>cmd/skylockctl/main.go\<close>: one request per run. The HTTP client is a
  parameter as in the client library, and the flag package has already split off the flag \<open>-server\<close>.
  A run gives what it prints and its exit status.
\<close>

section \<open>Requests\<close>

datatype 'e ctl_output = Stdout string | StdoutBody "json option" | Stderr "'e client_error"

definition ctl_doRequest ::
  "('e, 'w) http_send \<Rightarrow> string \<Rightarrow> string \<Rightarrow> string \<Rightarrow> json option \<Rightarrow> 'w \<Rightarrow> 'w \<times> ('e client_error + json option)" where
  "ctl_doRequest send baseURL method_name path body w =
     (case send method_name (baseURL @ path) (map_option json_Marshal body) w of
        (w', Inl err) \<Rightarrow> (w', Inl (RequestFailed err))
      | (w', Inr (status, respBody)) \<Rightarrow>
          (w', if status \<ge> 400 then Inl (HttpError status respBody) else Inr respBody))"

text \<open>A command prints the body of the answer, or a fixed text.\<close>

type_synonym ('e, 'w) ctl_command = "'w \<Rightarrow> 'w \<times> ('e client_error + 'e ctl_output)"

definition print_body :: "'w \<times> ('e client_error + json option) \<Rightarrow> 'w \<times> ('e client_error + 'e ctl_output)" where
  "print_body r = map_prod id (map_sum id StdoutBody) r"

definition print_text :: "string \<Rightarrow> 'w \<times> ('e client_error + json option) \<Rightarrow> 'w \<times> ('e client_error + 'e ctl_output)" where
  "print_text msg r = map_prod id (map_sum id (\<lambda>_. Stdout msg)) r"

definition ctl_getLeader :: "('e, 'w) http_send \<Rightarrow> string \<Rightarrow> ('e, 'w) ctl_command" where
  "ctl_getLeader send baseURL w = print_body (ctl_doRequest send baseURL ''GET'' ''/v1/cluster/leader'' None w)"

definition ctl_getStatus :: "('e, 'w) http_send \<Rightarrow> string \<Rightarrow> ('e, 'w) ctl_command" where
  "ctl_getStatus send baseURL w = print_body (ctl_doRequest send baseURL ''GET'' ''/v1/cluster/status'' None w)"

definition ctl_createSession :: "('e, 'w) http_send \<Rightarrow> string \<Rightarrow> string \<Rightarrow> ('e, 'w) ctl_command" where
  "ctl_createSession send baseURL clientID w =
     print_body (ctl_doRequest send baseURL ''POST'' ''/v1/session''
       (Some (JObject [(''client_id'', JString clientID), (''ttl_seconds'', JInt 30)])) w)"

definition ctl_heartbeat :: "('e, 'w) http_send \<Rightarrow> string \<Rightarrow> string \<Rightarrow> ('e, 'w) ctl_command" where
  "ctl_heartbeat send baseURL sessionID w =
     print_body (ctl_doRequest send baseURL ''POST'' (''/v1/session/'' @ sessionID @ ''/heartbeat'') None w)"

definition ctl_closeSession :: "('e, 'w) http_send \<Rightarrow> string \<Rightarrow> string \<Rightarrow> ('e, 'w) ctl_command" where
  "ctl_closeSession send baseURL sessionID w =
     print_text ''Session closed'' (ctl_doRequest send baseURL ''DELETE'' (''/v1/session/'' @ sessionID) None w)"

definition ctl_getNode :: "('e, 'w) http_send \<Rightarrow> string \<Rightarrow> string \<Rightarrow> ('e, 'w) ctl_command" where
  "ctl_getNode send baseURL path w = print_body (ctl_doRequest send baseURL ''GET'' (''/v1/nodes/'' @ path) None w)"

definition ctl_createNode :: "('e, 'w) http_send \<Rightarrow> string \<Rightarrow> string \<Rightarrow> string \<Rightarrow> bool \<Rightarrow> string \<Rightarrow> ('e, 'w) ctl_command" where
  "ctl_createNode send baseURL path data ephemeral sessionID w =
     print_body (ctl_doRequest send baseURL ''PUT'' (''/v1/nodes/'' @ path)
       (Some (JObject [(''data'', JString data), (''ephemeral'', JBool ephemeral), (''session_id'', JString sessionID)])) w)"

definition ctl_setNode :: "('e, 'w) http_send \<Rightarrow> string \<Rightarrow> string \<Rightarrow> string \<Rightarrow> ('e, 'w) ctl_command" where
  "ctl_setNode send baseURL path data w =
     print_body (ctl_doRequest send baseURL ''POST'' (''/v1/nodes/'' @ path)
       (Some (JObject [(''data'', JString data), (''version'', JInt (- 1))])) w)"

definition ctl_deleteNode :: "('e, 'w) http_send \<Rightarrow> string \<Rightarrow> string \<Rightarrow> ('e, 'w) ctl_command" where
  "ctl_deleteNode send baseURL path w =
     print_text ''Node deleted'' (ctl_doRequest send baseURL ''DELETE'' (''/v1/nodes/'' @ path) None w)"

definition ctl_getChildren :: "('e, 'w) http_send \<Rightarrow> string \<Rightarrow> string \<Rightarrow> ('e, 'w) ctl_command" where
  "ctl_getChildren send baseURL path w = print_body (ctl_doRequest send baseURL ''GET'' (''/v1/children/'' @ path) None w)"

definition ctl_acquireLock :: "('e, 'w) http_send \<Rightarrow> string \<Rightarrow> string \<Rightarrow> string \<Rightarrow> string \<Rightarrow> ('e, 'w) ctl_command" where
  "ctl_acquireLock send baseURL name sessionID owner w =
     print_body (ctl_doRequest send baseURL ''POST'' (''/v1/locks/'' @ name)
       (Some (JObject [(''owner'', JString owner), (''session_id'', JString sessionID), (''timeout_ms'', JInt 30000)])) w)"

definition ctl_releaseLock :: "('e, 'w) http_send \<Rightarrow> string \<Rightarrow> string \<Rightarrow> string \<Rightarrow> ('e, 'w) ctl_command" where
  "ctl_releaseLock send baseURL name lockID w =
     print_text ''Lock released'' (ctl_doRequest send baseURL ''DELETE'' (''/v1/locks/'' @ name)
       (Some (JObject [(''lock_id'', JString lockID)])) w)"

definition ctl_getLockInfo :: "('e, 'w) http_send \<Rightarrow> string \<Rightarrow> string \<Rightarrow> ('e, 'w) ctl_command" where
  "ctl_getLockInfo send baseURL name w = print_body (ctl_doRequest send baseURL ''GET'' (''/v1/locks/'' @ name) None w)"

section \<open>The commands\<close>

text \<open>
  What the arguments select: a command, or a message that ends the run with status 1. The lines
  of the usage text are printed without arguments and after the message on an unknown command.
\<close>

definition printUsage :: "string list" where
  \<open>printUsage =
     [''SkyLock CLI - Distributed Lock Service Client'',
      '''',
      ''Usage: skylockctl [flags] <command> [args]'',
      '''',
      ''Global Flags:'',
      ''  -server string    SkyLock server address (default "http://localhost:8080")'',
      '''',
      ''Commands:'',
      ''  leader                           Get current leader'',
      ''  status                           Get cluster status'',
      ''  '',
      ''  session create <client-id>       Create a new session'',
      ''  session heartbeat <session-id>   Send heartbeat'',
      ''  session close <session-id>       Close a session'',
      ''  '',
      ''  get <path>                       Get node data'',
      ''  create <path> [data]             Create a node'',
      ''  set <path> <data>                Set node data'',
      ''  delete <path>                    Delete a node'',
      ''  children <path>                  Get children of a node'',
      ''  '',
      ''  lock <name> <session-id> [owner] Acquire a lock'',
      ''  unlock <name> <lock-id>          Release a lock'',
      ''  lockinfo <name>                  Get lock information'']\<close>

definition ctl_session :: "('e, 'w) http_send \<Rightarrow> string \<Rightarrow> string list \<Rightarrow> string list + ('e, 'w) ctl_command" where
  "ctl_session send baseURL args =
     (if length args < 1 then Inl [''Usage: skylockctl session <create|heartbeat|close> [args]'']
      else if args ! 0 = ''create'' then
        (if length args < 2 then Inl [''Usage: skylockctl session create <client-id>''] else Inr (ctl_createSession send baseURL (args ! 1)))
      else if args ! 0 = ''heartbeat'' then
        (if length args < 2 then Inl [''Usage: skylockctl session heartbeat <session-id>''] else Inr (ctl_heartbeat send baseURL (args ! 1)))
      else if args ! 0 = ''close'' then
        (if length args < 2 then Inl [''Usage: skylockctl session close <session-id>''] else Inr (ctl_closeSession send baseURL (args ! 1)))
      else Inl [''Unknown session command: '' @ args ! 0])"

definition ctl_select :: "('e, 'w) http_send \<Rightarrow> string \<Rightarrow> string \<Rightarrow> string list \<Rightarrow> string list + ('e, 'w) ctl_command" where
  "ctl_select send baseURL cmd args =
     (if cmd = ''leader'' then Inr (ctl_getLeader send baseURL)
      else if cmd = ''status'' then Inr (ctl_getStatus send baseURL)
      else if cmd = ''session'' then ctl_session send baseURL args
      else if cmd = ''get'' then
        (if length args < 1 then Inl [''Usage: skylockctl get <path>''] else Inr (ctl_getNode send baseURL (args ! 0)))
      else if cmd = ''create'' then
        (if length args < 1 then Inl [''Usage: skylockctl create <path> [data]'']
         else Inr (ctl_createNode send baseURL (args ! 0) (if length args > 1 then args ! 1 else '''') False ''''))
      else if cmd = ''set'' then
        (if length args < 2 then Inl [''Usage: skylockctl set <path> <data>''] else Inr (ctl_setNode send baseURL (args ! 0) (args ! 1)))
      else if cmd = ''delete'' then
        (if length args < 1 then Inl [''Usage: skylockctl delete <path>''] else Inr (ctl_deleteNode send baseURL (args ! 0)))
      else if cmd = ''children'' then
        (if length args < 1 then Inl [''Usage: skylockctl children <path>''] else Inr (ctl_getChildren send baseURL (args ! 0)))
      else if cmd = ''lock'' then
        (if length args < 2 then Inl [''Usage: skylockctl lock <name> <session-id> [owner]'']
         else Inr (ctl_acquireLock send baseURL (args ! 0) (args ! 1) (if length args > 2 then args ! 2 else ''cli'')))
      else if cmd = ''unlock'' then
        (if length args < 2 then Inl [''Usage: skylockctl unlock <name> <lock-id>'']
         else Inr (ctl_releaseLock send baseURL (args ! 0) (args ! 1)))
      else if cmd = ''lockinfo'' then
        (if length args < 1 then Inl [''Usage: skylockctl lockinfo <name>''] else Inr (ctl_getLockInfo send baseURL (args ! 0)))
      else Inl ((''Unknown command: '' @ cmd) # printUsage))"

definition ctl_exit :: "'w \<times> ('e client_error + 'e ctl_output) \<Rightarrow> 'w \<times> 'e ctl_output list \<times> nat" where
  "ctl_exit r = (case r of (w', Inl err) \<Rightarrow> (w', [Stderr err], 1) | (w', Inr out) \<Rightarrow> (w', [out], 0))"

definition ctl_main :: "('e, 'w) http_send \<Rightarrow> string \<Rightarrow> string list \<Rightarrow> 'w \<Rightarrow> 'w \<times> 'e ctl_output list \<times> nat" where
  "ctl_main send serverAddr flagArgs w =
     (if length flagArgs < 1 then (w, map Stdout printUsage, 1)
      else
        (case ctl_select send serverAddr (flagArgs ! 0) (tl flagArgs) of
           Inl messages \<Rightarrow> (w, map Stdout messages, 1)
         | Inr run \<Rightarrow> ctl_exit (run w)))"

section \<open>What the usage text promises\<close>

text \<open>The handler and the parameter that a command of the usage text stands for.\<close>

definition usage_session :: "string list \<Rightarrow> (api_handler \<times> string) option" where
  "usage_session args =
     (case args of
        sub # arg # _ \<Rightarrow>
          (if sub = ''create'' then Some (CreateSession, '''') else if sub = ''heartbeat'' then Some (Heartbeat, arg)
           else if sub = ''close'' then Some (CloseSession, arg) else None)
      | _ \<Rightarrow> None)"

definition usage_route :: "string list \<Rightarrow> (api_handler \<times> string) option" where
  "usage_route args =
     (case args of
        [] \<Rightarrow> None
      | cmd # rest \<Rightarrow>
          (if cmd = ''leader'' then Some (GetLeader, '''') else if cmd = ''status'' then Some (GetStatus, '''')
           else if cmd = ''session'' then usage_session rest
           else
             (case rest of
                [] \<Rightarrow> None
              | arg # extra \<Rightarrow>
                  (if cmd = ''get'' then Some (GetNode, arg) else if cmd = ''create'' then Some (CreateNode, arg)
                   else if cmd = ''delete'' then Some (DeleteNode, arg) else if cmd = ''children'' then Some (GetChildren, arg)
                   else if cmd = ''lockinfo'' then Some (GetLockInfo, arg)
                   else if extra = [] then None
                   else if cmd = ''set'' then Some (SetNode, arg) else if cmd = ''lock'' then Some (AcquireLock, arg)
                   else if cmd = ''unlock'' then Some (ReleaseLockHandler, arg) else None))))"

text \<open>A run that sends one request, with a route to the handler, and reports the answer.\<close>

definition one_request ::
  "('e, 'w) http_send \<Rightarrow> string \<Rightarrow> 'w \<Rightarrow> api_handler \<times> string \<Rightarrow> 'w \<times> 'e ctl_output list \<times> nat \<Rightarrow> bool" where
  "one_request send base w hv res \<longleftrightarrow>
     (\<exists>m path body. matching m path = [hv] \<and>
        (case send m (base @ path) body w of
           (w', Inl e) \<Rightarrow> res = (w', [Stderr (RequestFailed e)], 1)
         | (w', Inr (status, b)) \<Rightarrow>
             if 400 \<le> status then res = (w', [Stderr (HttpError status b)], 1) else (\<exists>msg. res = (w', [msg], 0) \<and> (msg = StdoutBody b \<or> (\<exists>t. msg = Stdout t)))))"

lemma segment:
  assumes "CHR ''/'' \<notin> set p"
  shows "takeWhile (\<lambda>x. x \<noteq> CHR ''/'') p = p" "dropWhile (\<lambda>x. x \<noteq> CHR ''/'') p = ''''"
    "takeWhile (\<lambda>x. x \<noteq> CHR ''/'') (p @ CHR ''/'' # s) = p" "dropWhile (\<lambda>x. x \<noteq> CHR ''/'') (p @ CHR ''/'' # s) = CHR ''/'' # s"
  using assms by (induction p) auto

lemma ctl_routes:
  "CHR ''/'' \<notin> set p \<Longrightarrow> p \<noteq> '''' \<Longrightarrow> matching ''POST'' (''/v1/session/'' @ p @ ''/heartbeat'') = [(Heartbeat, p)]"
  "CHR ''/'' \<notin> set p \<Longrightarrow> p \<noteq> '''' \<Longrightarrow> matching ''DELETE'' (''/v1/session/'' @ p) = [(CloseSession, p)]"
  "CHR ''/'' \<notin> set p \<Longrightarrow> p \<noteq> '''' \<Longrightarrow> matching ''POST'' (''/v1/locks/'' @ p) = [(AcquireLock, p)]"
  "CHR ''/'' \<notin> set p \<Longrightarrow> p \<noteq> '''' \<Longrightarrow> matching ''DELETE'' (''/v1/locks/'' @ p) = [(ReleaseLockHandler, p)]"
  "CHR ''/'' \<notin> set p \<Longrightarrow> p \<noteq> '''' \<Longrightarrow> matching ''GET'' (''/v1/locks/'' @ p) = [(GetLockInfo, p)]"
  "matching ''GET'' ''/v1/cluster/leader'' = [(GetLeader, '''')]" "matching ''GET'' ''/v1/cluster/status'' = [(GetStatus, '''')]"
  by (simp_all add: matching_def setupRoutes_def segment)

lemma one_request_body:
  "matching m path = [hv] \<Longrightarrow> one_request send base w hv (ctl_exit (print_body (ctl_doRequest send base m path body w)))"
  unfolding one_request_def
  by (rule exI [of _ m], rule exI [of _ path], rule exI [of _ "map_option json_Marshal body"])
    (simp add: print_body_def ctl_doRequest_def ctl_exit_def split: prod.split sum.split)

lemma one_request_text:
  "matching m path = [hv] \<Longrightarrow> one_request send base w hv (ctl_exit (print_text msg (ctl_doRequest send base m path body w)))"
  unfolding one_request_def
  by (rule exI [of _ m], rule exI [of _ path], rule exI [of _ "map_option json_Marshal body"])
    (simp add: print_text_def ctl_doRequest_def ctl_exit_def split: prod.split sum.split)

lemma ctl_nodes:
  "one_request send base w (GetNode, p) (ctl_exit (ctl_getNode send base p w))"
  "one_request send base w (CreateNode, p) (ctl_exit (ctl_createNode send base p d e sid w))"
  "one_request send base w (SetNode, p) (ctl_exit (ctl_setNode send base p d w))"
  "one_request send base w (DeleteNode, p) (ctl_exit (ctl_deleteNode send base p w))"
  "one_request send base w (GetChildren, p) (ctl_exit (ctl_getChildren send base p w))"
  unfolding ctl_getNode_def ctl_createNode_def ctl_setNode_def ctl_deleteNode_def ctl_getChildren_def
  by (intro one_request_body one_request_text node_routes)+

lemma ctl_cluster:
  "one_request send base w (GetLeader, '''') (ctl_exit (ctl_getLeader send base w))"
  "one_request send base w (GetStatus, '''') (ctl_exit (ctl_getStatus send base w))"
  "one_request send base w (CreateSession, '''') (ctl_exit (ctl_createSession send base clientID w))"
  unfolding ctl_getLeader_def ctl_getStatus_def ctl_createSession_def
  by (intro one_request_body ctl_routes session_route)+

lemma ctl_named:
  assumes "CHR ''/'' \<notin> set p" "p \<noteq> ''''"
  shows "one_request send base w (Heartbeat, p) (ctl_exit (ctl_heartbeat send base p w))"
    "one_request send base w (CloseSession, p) (ctl_exit (ctl_closeSession send base p w))"
    "one_request send base w (AcquireLock, p) (ctl_exit (ctl_acquireLock send base p sid ow w))"
    "one_request send base w (ReleaseLockHandler, p) (ctl_exit (ctl_releaseLock send base p lid w))"
    "one_request send base w (GetLockInfo, p) (ctl_exit (ctl_getLockInfo send base p w))"
  unfolding ctl_heartbeat_def ctl_closeSession_def ctl_acquireLock_def ctl_releaseLock_def ctl_getLockInfo_def
  by (intro one_request_body one_request_text ctl_routes assms)+

lemmas ctl_requests = ctl_nodes ctl_cluster ctl_named

text \<open>The shapes of the arguments, one for each line of the usage text.\<close>

lemma usage_cases:
  assumes "usage_route args = Some hv"
  obtains r where "args = ''leader'' # r" "hv = (GetLeader, '''')" | r where "args = ''status'' # r" "hv = (GetStatus, '''')"
  | a r where "args = ''session'' # ''create'' # a # r" "hv = (CreateSession, '''')"
  | a r where "args = ''session'' # ''heartbeat'' # a # r" "hv = (Heartbeat, a)"
  | a r where "args = ''session'' # ''close'' # a # r" "hv = (CloseSession, a)"
  | a r where "args = ''get'' # a # r" "hv = (GetNode, a)" | a r where "args = ''create'' # a # r" "hv = (CreateNode, a)"
  | a b r where "args = ''set'' # a # b # r" "hv = (SetNode, a)" | a r where "args = ''delete'' # a # r" "hv = (DeleteNode, a)"
  | a r where "args = ''children'' # a # r" "hv = (GetChildren, a)" | a b r where "args = ''lock'' # a # b # r" "hv = (AcquireLock, a)"
  | a b r where "args = ''unlock'' # a # b # r" "hv = (ReleaseLockHandler, a)" | a r where "args = ''lockinfo'' # a # r" "hv = (GetLockInfo, a)"
proof -
  obtain cmd rest where args: "args = cmd # rest" using assms by (cases args) (simp_all add: usage_route_def)
  show thesis
  proof (cases "cmd = ''leader'' \<or> cmd = ''status'' \<or> cmd = ''session''")
    case True
    then show thesis using assms that(1-5) unfolding args usage_route_def usage_session_def
      by (elim disjE) (simp_all split: list.split_asm if_split_asm)
  next
    case False
    then obtain a r where rest: "rest = a # r" using assms unfolding args usage_route_def by (cases rest) simp_all
    have "(if cmd = ''get'' then Some (GetNode, a) else if cmd = ''create'' then Some (CreateNode, a)
                   else if cmd = ''delete'' then Some (DeleteNode, a) else if cmd = ''children'' then Some (GetChildren, a)
                   else if cmd = ''lockinfo'' then Some (GetLockInfo, a)
                   else if r = [] then None
                   else if cmd = ''set'' then Some (SetNode, a) else if cmd = ''lock'' then Some (AcquireLock, a)
                   else if cmd = ''unlock'' then Some (ReleaseLockHandler, a) else None) = Some hv"
      using assms False unfolding args rest usage_route_def list.case by simp
    then show thesis using that(6-13) unfolding args rest by (cases r) (simp_all split: if_split_asm)
  qed
qed

lemma usage_sends:
  assumes "usage_route args = Some (h, v)"
    and "h \<in> {Heartbeat, CloseSession, AcquireLock, ReleaseLockHandler, GetLockInfo} \<Longrightarrow> v \<noteq> '''' \<and> CHR ''/'' \<notin> set v"
  shows "one_request send base w (h, v) (ctl_main send base args w)"
  using assms(2) by (cases rule: usage_cases [OF assms(1)]) (simp_all add: ctl_main_def ctl_select_def ctl_session_def ctl_requests)

lemma usage_covers:
  assumes "ctl_select send base cmd rest = Inr run"
  shows "usage_route (cmd # rest) \<noteq> None"
proof (cases "cmd = ''session''")
  case True
  have "ctl_session send base rest = Inr run" using assms unfolding True ctl_select_def by simp
  then have "2 \<le> length rest" "rest ! 0 \<in> {''create'', ''heartbeat'', ''close''}"
    unfolding ctl_session_def by (simp_all split: if_split_asm)
  then show ?thesis unfolding True usage_route_def usage_session_def
    by (cases rest; cases "tl rest") auto
next
  case False
  have c: "cmd \<in> {''leader'', ''status''} \<or> (rest \<noteq> [] \<and> cmd \<in> {''get'', ''create'', ''delete'', ''children'', ''lockinfo''}) \<or>
      (2 \<le> length rest \<and> cmd \<in> {''set'', ''lock'', ''unlock''})"
    using assms False unfolding ctl_select_def by (simp split: if_split_asm)
  then show ?thesis unfolding usage_route_def by (cases rest; cases "tl rest") auto
qed



end
