(* ===== verification/Wiring.thy ===== *)
theory Wiring
  imports Transport ApiTypes
begin

text \<open>
  The server program, \<open>cmd/skylock/main.go\<close>: the flags, the construction of the components with the
  callbacks between them, start and shutdown, and what the callbacks do. The delivery of signals, log
  output and the sockets of the HTTP server are not modelled.
\<close>

section \<open>Flags\<close>

definition splitPeers :: "string \<Rightarrow> string list" where
  "splitPeers peers =
     (if peers = '''' then []
      else
        (let (result, current) =
               foldl (\<lambda>(result, current) c.
                        if c = 44 then (if current \<noteq> '''' then (result @ [current], '''') else (result, current))
                        else (result, current @ encode_rune c)) ([], '''') (runes peers)
         in if current \<noteq> '''' then result @ [current] else result))"

function main_itoa_loop :: "int \<Rightarrow> string \<Rightarrow> string" where
  "main_itoa_loop n result =
     (if n > 0 then main_itoa_loop (n div 10) (char_of (48 + nat (n mod 10)) # result) else result)"
  by pat_completeness auto
termination
  by (relation "measure (\<lambda>(n, _). nat n)") auto

declare main_itoa_loop.simps [simp del]

definition main_itoa :: "int \<Rightarrow> string" where
  "main_itoa n = (if n = 0 then ''0'' else main_itoa_loop n '''')"

definition formatAddr :: "int \<Rightarrow> string" where
  "formatAddr port = '':'' @ main_itoa port"

record Flags =
  fl_config :: string
  fl_nodeID :: string
  fl_grpcPort :: int
  fl_httpPort :: int
  fl_peers :: string

definition apply_flags :: "Flags \<Rightarrow> Config \<Rightarrow> Config" where
  "apply_flags f cfg =
     (let cfg = (if fl_nodeID f \<noteq> '''' then cfg\<lparr>Cluster := (Cluster cfg)\<lparr>NodeID := fl_nodeID f\<rparr>\<rparr> else cfg);
          cfg = (if fl_grpcPort f \<noteq> 0 then cfg\<lparr>Server := (Server cfg)\<lparr>GRPCPort := fl_grpcPort f\<rparr>\<rparr> else cfg);
          cfg = (if fl_httpPort f \<noteq> 0 then cfg\<lparr>Server := (Server cfg)\<lparr>HTTPPort := fl_httpPort f\<rparr>\<rparr> else cfg)
      in if fl_peers f \<noteq> '''' then cfg\<lparr>Cluster := (Cluster cfg)\<lparr>Peers := splitPeers (fl_peers f)\<rparr>\<rparr> else cfg)"

section \<open>The components and their callbacks\<close>

text \<open>The callback of the session manager.\<close>

datatype expire_callback = CleanEphemerals

text \<open>
  The transport and the API server hold the same node; \<open>sk_http\<close> is the field \<open>httpServer\<close> of the API server.
\<close>

record ('m, 'c) Skylock =
  sk_transport :: "('m, 'c) GRPCTransport"
  sk_server :: "('m, expire_callback, store_callback) Server"
  sk_http :: "http_server option"

text \<open>The lock manager installs its callback in the store; then the store gets the callbacks of \<open>main\<close>.\<close>

definition wire :: "instant \<Rightarrow> instant \<Rightarrow> Config \<Rightarrow> ('m, 'c) Skylock" where
  "wire t1 t2 cfg =
     (let grpcTransport = NewGRPCTransport;
          raftNode = NewNode (NodeID (Cluster cfg)) (Peers (Cluster cfg)) (Raft cfg);
          grpcTransport = SetRaftNode raftNode grpcTransport;
          sessionMgr = NewSessionManager (DefaultTTL (SessionCfg cfg)) (MaxTTL (SessionCfg cfg));
          dataStore = NewStore t1 t2;
          watchMgr = NewWatchManager;
          (dataStore, lockMgr) = NewLockManager LockDeleted dataStore;
          sessionMgr = SetOnExpire CleanEphemerals sessionMgr;
          dataStore = SetWatchCallbacks (Some WatchCreated) (Some WatchChanged) (Some WatchDeleted) dataStore
      in \<lparr>sk_transport = grpcTransport, sk_server = NewServer raftNode sessionMgr dataStore lockMgr watchMgr, sk_http = None\<rparr>)"

text \<open>\<open>keys\<close> is the order in which \<open>DeleteEphemerals\<close> walks over the nodes.\<close>

definition onExpire :: "string list \<Rightarrow> Session \<Rightarrow> 'h Store \<Rightarrow> 'h Store \<times> 'h spawn list" where
  "onExpire keys sess s = (case Store_DeleteEphemerals keys s (ss_ID sess) of (s', ev, _) \<Rightarrow> (s', ev))"

text \<open>
  The callbacks of the store. \<open>Create\<close> hands over the node itself, so the goroutine reads data and
  version when it runs: \<open>now\<close> is the node at that time. \<open>Set\<close> hands over a copy.
\<close>

fun run_store_callback ::
  "string \<Rightarrow> StoreNode \<Rightarrow> store_callback spawn \<Rightarrow> LockManager \<times> WatchManager \<Rightarrow> (LockManager \<times> WatchManager) option" where
  "run_store_callback uuid now (GoCreate WatchCreated path node) (lm, wm) =
     map_option (Pair lm) (TriggerCreate uuid wm path (sn_Data now) (sn_Version now))"
| "run_store_callback uuid now (GoUpdate WatchChanged path node) (lm, wm) =
     map_option (Pair lm) (TriggerDataChange uuid wm path (sn_Data node) (sn_Version node))"
| "run_store_callback uuid now (GoDelete WatchDeleted path) (lm, wm) = map_option (Pair lm) (TriggerDelete uuid wm path)"
| "run_store_callback uuid now (GoDelete LockDeleted path) (lm, wm) = Some (onNodeDeleted path lm, wm)"
| "run_store_callback uuid now e (lm, wm) = None"

section \<open>Start and shutdown\<close>

datatype ('e, 'm, 'c) main_outcome = Fatal 'e | FatalListen "'e transport_error" | Panicked | Running "('m, 'c) Skylock" string

text \<open>
  The arguments are the configuration reader, \<open>net.Listen\<close>, clock readings and the random number of
  the first election timer. \<open>main\<close> then waits for a signal; the HTTP server is started by a goroutine
  of its own, which still has to run: \<open>Running\<close> holds the address that it will use.
\<close>

definition skylock_main ::
  "(string \<Rightarrow> 'e + 'raw) \<Rightarrow> ('raw \<Rightarrow> Config \<Rightarrow> 'e + Config) \<Rightarrow> (string \<Rightarrow> 'e option) \<Rightarrow>
     instant \<Rightarrow> instant \<Rightarrow> instant \<Rightarrow> nat \<Rightarrow> Flags \<Rightarrow> ('e, 'm, 'c) main_outcome" where
  "skylock_main readInConfig unmarshal listen t1 t2 now rnd f =
     (case Load readInConfig unmarshal (fl_config f) of
        Inl err \<Rightarrow> Fatal err
      | Inr cfg \<Rightarrow>
          (let cfg = apply_flags f cfg; sk = wire t1 t2 cfg
           in case Transport_Start listen (formatAddr (GRPCPort (Server cfg))) (sk_transport sk) of
                (t, Some err) \<Rightarrow> FatalListen err
              | (t, None) \<Rightarrow>
                  (case Node_Start now rnd (sv_raftNode (sk_server sk)) of
                     None \<Rightarrow> Panicked
                   | Some node \<Rightarrow>
                       Running (sk\<lparr>sk_transport := SetRaftNode node t, sk_server := (sk_server sk)\<lparr>sv_raftNode := node\<rparr>\<rparr>)
                         (formatAddr (HTTPPort (Server cfg))))))"

definition http_goroutine :: "string \<Rightarrow> ('m, 'c) Skylock \<Rightarrow> ('m, 'c) Skylock" where
  "http_goroutine httpAddr sk = sk\<lparr>sk_http := Some (Server_Start httpAddr)\<rparr>"

text \<open>The HTTP server first, then the node, the session manager and the transport.\<close>

definition shutdown :: "('m, 'c) Skylock \<Rightarrow> ('m, 'c) Skylock option" where
  "shutdown sk =
     (case Server_Stop (sk_http sk) of
        None \<Rightarrow> None
      | Some http \<Rightarrow>
          (let srv = sk_server sk; node = Node_Stop (sv_raftNode srv)
           in case SessionManager_Stop (sv_sessionManager srv) of
                None \<Rightarrow> None
              | Some sm \<Rightarrow>
                  Some (sk\<lparr>sk_http := Some http, sk_server := srv\<lparr>sv_raftNode := node, sv_sessionManager := sm\<rparr>,
                           sk_transport := fst (Transport_Stop (SetRaftNode node (sk_transport sk)))\<rparr>)))"

section \<open>Addresses\<close>

lemma splitPeers_loop:
  assumes "ascii s"
  shows "(case foldl (\<lambda>(result, current) c.
                if c = 44 then (if current \<noteq> '''' then (result @ [current], '''') else (result, current))
                else (result, current @ encode_rune c)) (res, cur) (map of_char s)
          of (result, current) \<Rightarrow> if current \<noteq> '''' then result @ [current] else result) =
     res @ filter (\<lambda>w. w \<noteq> '''') ((cur @ hd (split_on CHR '','' s)) # tl (split_on CHR '','' s))"
  using assms
proof (induction s arbitrary: res cur)
  case (Cons x s)
  have x: "(of_char x :: int) = 44 \<longleftrightarrow> x = CHR '',''" using of_char_eq_iff [of x "CHR '',''", where ?'a = int] by simp
  obtain w ws where w: "split_on CHR '','' s = w # ws" by (cases "split_on CHR '','' s") auto
  show ?case using Cons.IH Cons.prems by (auto simp: x w encode_rune_ascii)
qed simp

lemma splitPeers_ascii: "ascii s \<Longrightarrow> splitPeers s = filter (\<lambda>w. w \<noteq> '''') (split_on CHR '','' s)"
  using splitPeers_loop [of s "[]" "''''"]
  by (cases "split_on CHR '','' s") (auto simp: splitPeers_def runes_ascii case_prod_unfold Let_def)

lemma split_join:
  "ps \<noteq> [] \<Longrightarrow> (\<And>w. w \<in> set ps \<Longrightarrow> c \<notin> set w) \<Longrightarrow> split_on c (join_with [c] ps) = ps"
proof (induction ps rule: induct_list012)
  case (3 x y zs)
  then show ?case using split_on_append [of c x "join_with [c] (y # zs)"] by simp
qed (simp_all add: split_on_word)

lemma main_itoa_loop_value:
  assumes "0 \<le> n"
  shows "\<exists>ds. main_itoa_loop n acc = ds @ acc \<and> list_all is_digit ds \<and> dec_value ds = nat n"
  using assms
proof (induction n acc rule: main_itoa_loop.induct)
  case (1 n acc)
  show ?case
  proof (cases "n > 0")
    case True
    let ?d = "char_of (48 + nat (n mod 10))"
    obtain ds where ds: "main_itoa_loop (n div 10) (?d # acc) = ds @ ?d # acc" "list_all is_digit ds" "dec_value ds = nat (n div 10)"
      using 1 True by (auto simp: pos_imp_zdiv_nonneg_iff)
    have d: "is_digit ?d" "digit_value ?d = nat (n mod 10)" using digit_char [of "nat (n mod 10)"] by simp_all
    have "nat (n div 10) * 10 + nat (n mod 10) = nat n" using True by (simp add: nat_div_distrib nat_mod_distrib)
    then show ?thesis using True ds d by (intro exI [of _ "ds @ [?d]"]) (simp add: main_itoa_loop.simps [of n] dec_value_append)
  next
    case False
    have "main_itoa_loop n acc = acc" by (subst main_itoa_loop.simps) (simp add: False)
    with False "1.prems" show ?thesis by (intro exI [of _ "''''"]) simp
  qed
qed

text \<open>
  The flags mean what they say: peer addresses of ASCII characters that are not empty and
  contain no comma are recovered from their comma-separated list, and the listen address of a port
  is a colon with the decimal digits of the port.
\<close>

lemma flags_roundtrip:
  assumes "\<And>w. w \<in> set ps \<Longrightarrow> w \<noteq> '''' \<and> ascii w \<and> CHR '','' \<notin> set w" and "0 \<le> port"
  shows "splitPeers (join_with '','' ps) = ps \<and>
    (\<exists>ds. formatAddr port = CHR '':'' # ds \<and> ds \<noteq> '''' \<and> list_all is_digit ds \<and> int (dec_value ds) = port)"
proof
  have "ascii (join_with '','' ps)" using assms(1) by (induction ps rule: induct_list012) auto
  moreover have "filter (\<lambda>w. w \<noteq> '''') ps = ps" using assms(1) by (simp add: filter_id_conv)
  ultimately show "splitPeers (join_with '','' ps) = ps"
    using split_join [of ps "CHR '',''"] assms(1) by (cases "ps = []") (simp_all add: splitPeers_ascii)
  show "\<exists>ds. formatAddr port = CHR '':'' # ds \<and> ds \<noteq> '''' \<and> list_all is_digit ds \<and> int (dec_value ds) = port"
  proof (cases "port = 0")
    case True
    then show ?thesis by (simp add: formatAddr_def main_itoa_def is_digit_def digit_value_def)
  next
    case False
    obtain ds where "main_itoa_loop port '''' = ds" "list_all is_digit ds" "dec_value ds = nat port"
      using main_itoa_loop_value [OF assms(2), of "''''"] by auto
    moreover have "ds \<noteq> ''''" using calculation(3) assms(2) False by auto
    ultimately show ?thesis using False assms(2) by (simp add: formatAddr_def main_itoa_def)
  qed
qed

lemma flags_roundtrip_example:
  "splitPeers (join_with '','' [''n2:5001'', ''n3:5001'']) = [''n2:5001'', ''n3:5001''] \<and>
   (\<exists>ds. formatAddr 8080 = CHR '':'' # ds \<and> int (dec_value ds) = 8080)"
proof -
  have "\<forall>w \<in> set [''n2:5001'', ''n3:5001'']. w \<noteq> '''' \<and> ascii w \<and> CHR '','' \<notin> set w" by code_simp
  then have "splitPeers (join_with '','' [''n2:5001'', ''n3:5001'']) = [''n2:5001'', ''n3:5001''] \<and>
      (\<exists>ds. formatAddr 8080 = CHR '':'' # ds \<and> ds \<noteq> '''' \<and> list_all is_digit ds \<and> int (dec_value ds) = 8080)"
    by (intro flags_roundtrip) (blast, simp)
  then show ?thesis by blast
qed

section \<open>The end of sessions\<close>

text \<open>
  The expiry callbacks that a check has started, run one after the other, each with the order of
  its walk over the nodes.
\<close>

fun run_expiries :: "(string list \<times> 'f expiry) list \<Rightarrow> 'h Store \<Rightarrow> 'h Store \<times> 'h spawn list" where
  "run_expiries [] s = (s, [])"
| "run_expiries ((keys, call) # runs) s =
     (let (s1, ev) = onExpire keys (expiry_session call) s; (s2, ev') = run_expiries runs s1 in (s2, ev @ ev'))"

fun walks_ok :: "(string list \<times> 'f expiry) list \<Rightarrow> 'h Store \<Rightarrow> bool" where
  "walks_ok [] s \<longleftrightarrow> True"
| "walks_ok ((keys, call) # runs) s \<longleftrightarrow> key_order (s_nodes s) keys \<and> walks_ok runs (fst (onExpire keys (expiry_session call) s))"

text \<open>What the callbacks look at in a node: whether it is ephemeral, and whose.\<close>

definition owner_at :: "tree \<Rightarrow> string list \<Rightarrow> (bool \<times> string) option" where
  "owner_at t es = map_option (\<lambda>n. (sn_Ephemeral n, sn_SessionID n)) (t es)"

definition without :: "string set \<Rightarrow> (bool \<times> string) option \<Rightarrow> (bool \<times> string) option" where
  "without ids x = (case x of None \<Rightarrow> None | Some (e, sid) \<Rightarrow> if e \<and> sid \<in> ids then None else Some (e, sid))"

lemma onExpire_effect:
  assumes "store_wf s" "key_order (s_nodes s) keys"
  shows "store_wf (fst (onExpire keys sess s))" "owner_at (tree_of (fst (onExpire keys sess s))) es = without {ss_ID sess} (owner_at (tree_of s) es)"
proof -
  have e: "fst (onExpire keys sess s) = fst (Store_DeleteEphemerals keys s (ss_ID sess))"
    by (simp add: onExpire_def split: prod.split)
  show "store_wf (fst (onExpire keys sess s))" unfolding e by (rule Store_DeleteEphemerals_wf [OF assms])
  have "tree_of (fst (onExpire keys sess s)) = prune (owned_elems (ss_ID sess) (tree_of s)) (tree_of s)"
    unfolding e by (rule Store_DeleteEphemerals_tree(1) [OF assms])
  then show "owner_at (tree_of (fst (onExpire keys sess s))) es = without {ss_ID sess} (owner_at (tree_of s) es)"
    by (auto simp: owner_at_def without_def prune_def owned_elems_def owned_by_def split: option.split)
qed

lemma without_without: "without A (without B x) = without (B \<union> A) x"
  by (auto simp: without_def split: option.splits if_splits)

lemma run_expiries_effect:
  assumes "store_wf s" "walks_ok runs s"
  shows "store_wf (fst (run_expiries runs s)) \<and>
    owner_at (tree_of (fst (run_expiries runs s))) es = without ((\<lambda>c. ss_ID (expiry_session c)) ` set (map snd runs)) (owner_at (tree_of s) es)"
  using assms
proof (induction runs arbitrary: s)
  case Nil
  then show ?case by (auto simp: without_def split: option.split)
next
  case (Cons r runs)
  obtain keys call where r: "r = (keys, call)" by (cases r)
  let ?s = "fst (onExpire keys (expiry_session call) s)"
  have step: "store_wf ?s" "owner_at (tree_of ?s) es = without {ss_ID (expiry_session call)} (owner_at (tree_of s) es)"
    using onExpire_effect [of s keys "expiry_session call"] Cons.prems by (simp_all add: r)
  have "walks_ok runs ?s" using Cons.prems by (simp add: r)
  from Cons.IH [OF step(1) this] show ?case
    by (simp add: r case_prod_unfold Let_def step(2) without_without)
qed

lemma exists_owner: "Store_Exists s p \<longleftrightarrow> owner_at (tree_of s) (path_elems p) \<noteq> None"
  by (simp add: store_simps owner_at_def)

text \<open>The sessions that a check announces are the expired ones.\<close>

lemma announced_ids:
  assumes "table_ok m" "key_order (sm_sessions m) (map fst walk)" "sm_onExpire m = Some f"
  shows "(\<lambda>c. ss_ID (expiry_session c)) ` set (snd (checkExpirations walk m)) = {sid. expired_at walk m sid}"
proof -
  have d: "distinct (map fst walk)" and dom: "set (map fst walk) = dom (sm_sessions m)" using assms(2) by (auto simp: key_order_def)
  have "set (snd (checkExpirations walk m)) = (\<lambda>sid. GoExpire f (the (sm_sessions m sid))) ` {sid. expired_at walk m sid}"
    using dom by (auto simp: checkExpirations_def check_each_calls [OF d] expire_calls_def assms(3) expired_at_def)
  moreover have "ss_ID (the (sm_sessions m sid)) = sid" if "expired_at walk m sid" for sid
    using that assms(1) by (auto simp: expired_at_def table_ok_def)
  ultimately show ?thesis by (auto simp: image_image)
qed

text \<open>Some order of the walks always exists.\<close>

lemma walks_exist: "store_wf s \<Longrightarrow> \<exists>runs. map snd runs = calls \<and> walks_ok runs s"
proof (induction calls arbitrary: s)
  case (Cons c calls)
  obtain keys where keys: "key_order (s_nodes s) keys" using key_order_ex [OF finite_nodes [OF Cons.prems]] by blast
  with Cons.IH [OF onExpire_effect(1) [OF Cons.prems keys]] obtain runs where
    "map snd runs = calls" "walks_ok runs (fst (onExpire keys (expiry_session c) s))" by blast
  with keys show ?case by (intro exI [of _ "(keys, c) # runs"]) simp
qed simp

section \<open>The server after the start\<close>

lemma wire_ok:
  assumes "session_config_ok (SessionCfg cfg)"
  shows "server_ok (sk_server (wire t1 t2 cfg))" "watch_wf (sv_watchManager (sk_server (wire t1 t2 cfg)))"
    "sm_onExpire (sv_sessionManager (sk_server (wire t1 t2 cfg))) = Some CleanEphemerals"
    "s_onNodeUpdate (sv_store (sk_server (wire t1 t2 cfg))) = Some WatchChanged"
proof -
  have "tree_of (SetWatchCallbacks a b c s) = tree_of s" "s_nodes (SetWatchCallbacks a b c s) = s_nodes s" for a b c and s :: "store_callback Store"
    by (simp_all add: SetWatchCallbacks_def tree_of_def fun_eq_iff)
  then have "store_wf (SetWatchCallbacks a b c s) \<longleftrightarrow> store_wf s" "owned (tree_of (SetWatchCallbacks a b c s)) \<longleftrightarrow> owned (tree_of s)"
    for a b c and s :: "store_callback Store" by (simp_all add: store_wf_def)
  then show "server_ok (sk_server (wire t1 t2 cfg))"
    using assms NewServer_ok [of "DefaultTTL (SessionCfg cfg)" "MaxTTL (SessionCfg cfg)"]
    by (simp add: wire_def NewLockManager_def Let_def server_ok_def NewServer_def SetOnExpire_def table_ok_def ttl_config_ok_def session_config_ok_def)
qed (simp_all add: wire_def NewLockManager_def Let_def NewServer_def SetOnExpire_def SetWatchCallbacks_def watch_wf_New)

text \<open>The lock manager of the server starts with the callbacks of \<open>main\<close> in the store.\<close>

lemma wire_server_initial:
  "server_initial \<lparr>ls_store = sv_store (sk_server (wire t1 t2 cfg)), ls_manager = sv_lockManager (sk_server (wire t1 t2 cfg)),
     ls_calls = [], ls_spawned = []\<rparr>"
proof -
  let ?s = "NewStore t1 t2 :: store_callback Store"
  have "reachable store_initial store_step ?s" by (rule reach_init) (auto simp: store_initial_def)
  then have "reachable store_initial store_step (SetWatchCallbacks a b c ?s)" for a b c
    by (rule reach_step) (rule store_step.callbacks)
  then have "reachable store_initial store_step (SetWatchCallbacks a' b' c' (SetWatchCallbacks a b c ?s))" for a b c a' b' c'
    by (rule reach_step) (rule store_step.callbacks)
  then show ?thesis
    by (simp add: server_initial_def lock_initial_def wire_def NewLockManager_def Let_def NewServer_def SetWatchCallbacks_def NewStore_def)
qed

section \<open>From the start to the shutdown\<close>

lemma apply_flags_kept: "Raft (apply_flags f cfg) = Raft cfg" "SessionCfg (apply_flags f cfg) = SessionCfg cfg"
  by (simp_all add: apply_flags_def Let_def)

lemma wire_parts:
  "sv_raftNode (sk_server (wire t1 t2 cfg)) = NewNode (NodeID (Cluster cfg)) (Peers (Cluster cfg)) (Raft cfg)"
  "sm_stopped (sv_sessionManager (sk_server (wire t1 t2 cfg))) = False" "sk_http (wire t1 t2 cfg) = None"
  by (simp_all add: wire_def NewLockManager_def Let_def NewServer_def SetOnExpire_def NewSessionManager_def)

text \<open>The election timer that a start installs is the only timer of a new node, and a stop stops it.\<close>

lemma start_stop_timers:
  assumes "Node_Start now rnd (NewNode i ps cfg) = Some n"
  shows "nd_stopped (Node_Stop n) \<and> nd_state (Node_Stop n) = NewState \<and> (\<forall>t \<in> set (nd_timers (Node_Stop n)). \<not> tm_active t)"
  using assms
  by (auto simp: Node_Start_def resetElectionTimer_def NewNode_def Node_Stop_def stop_timer_def Timer_Stop_def Let_def
      split: option.splits)



end
