(* ===== verification/Spec2Isabelle.thy ===== *)
theory Spec2Isabelle
  imports RaftProperties StoreProperties Sessions Watches LockProperties LockHandover LockQueue RaftLogMatching Transport
    ApiProperties ApiTypes ClientProperties Ctl Wiring
begin

text \<open>
  A verification development of SkyLock, a distributed lock service in Go.

  \<^bold>\<open>The program.\<close> A SkyLock server (\<open>cmd/skylock\<close>) is a Raft node with a gRPC transport, a tree of
  nodes in memory (the store), a session table, watches on paths and a lock manager over the store;
  an HTTP server gives clients access to the last four. Clients use a library (\<open>pkg/client\<close>) or the
  command \<open>skylockctl\<close>. A lock is a directory of the store; a request for it is an ephemeral
  sequential node there, which goes with its session; the first request holds the lock. In the
  server the store's callbacks lead to the watches, and the end of a session deletes its nodes.

  \<^bold>\<open>Conventions.\<close> Each Go function is one HOL function, named \<open>Type_Method\<close> where methods share a
  name. A struct is a record, \<open>uint64\<close> is \<open>64 word\<close>, \<open>int64\<close> and times are \<open>int\<close> with the wrap-around
  written out, a string is a list of bytes, a Go map is a partial function. Operations under a mutex
  are functions from state to state. Clock readings, random numbers, fresh identifiers, the outcome
  of a \<open>select\<close> and the order of a walk over a Go map are arguments. Errors are the left side of a
  sum, a panic is \<open>None\<close>. A callback in a data structure is a value that names it; operations return
  the goroutines they start. Loops that only the environment ends take the list of its events as
  argument, so no fuel is needed; other loops are recursive functions with termination proofs.

  \<^bold>\<open>Theories\<close>, in the order of the program's layers:

  \<^item> \<open>Prelude\<close>: integer widths, list and map lemmas, reachability and the locale \<open>transition_system\<close>.
    \<open>GoLib\<close>: the parts of the Go library that the sources use (\<open>strings\<close>, \<open>path\<close>, \<open>sort\<close>, runes,
    \<open>time\<close>), with the canonical form of cleaned paths.
  \<^item> \<open>Config\<close> (\<open>internal/config/config.go\<close>): the configuration and \<open>Load\<close>.
  \<^item> \<open>RaftLog\<close>, \<open>RaftState\<close>, \<open>RaftNode\<close> (\<open>internal/raft/log.go\<close>, \<open>state.go\<close>, \<open>node.go\<close>): the log, the
    state, the RPC handlers, elections, heartbeats, commit index, apply loop and timers.
    \<open>RaftVoting\<close> and \<open>RaftReplication\<close> characterise the handlers and the loops and prove the voting
    properties; \<open>RaftCluster\<close> runs any number of nodes with RPCs in flight, one step per
    action of a goroutine, and proves election safety for the executions that avoid named
    defects of the code (the predicate \<open>avoids_defects\<close>: no second vote in a term for another
    candidate, no lowered term, no leader of another term than the one it stood for), and that
    without this condition two leaders of one term are reachable. \<open>RaftLogMatching\<close> extends its
    invariant to the logs and the requests in flight and proves the log matching property for the
    same executions; \<open>RaftProperties\<close> has the remaining properties of single nodes and of a leader with a follower.
  \<^item> \<open>KVStore\<close> (\<open>internal/store/store.go\<close>): the store. \<open>Decimal\<close>: its sequence numbers.
    \<open>StoreTree\<close>: the abstract tree and the refinement; \<open>StoreProperties\<close>: the invariant of all
    reachable stores and the contracts of the operations.
  \<^item> \<open>Sessions\<close> (\<open>internal/session/manager.go\<close>) and \<open>Watches\<close> (\<open>internal/watch/watcher.go\<close>): the
    managers, histories of operations and their properties. Watchers are indices into a heap, their
    channels hold ten events as in the code.
  \<^item> \<open>Locks\<close> (\<open>internal/lock/manager.go\<close>): \<open>TryLock\<close> with \<open>waitForLock\<close> as a machine with one step per
    operation on shared state. \<open>LockSystem\<close>: any number of calls, releases, callbacks, session ends
    and other clients as a transition system; the locale \<open>ticket_lock\<close> proves exclusion and
    order from the laws of tickets, and is interpreted on it. \<open>LockProperties\<close>: the properties, also
    with the callbacks that the server installs. \<open>LockHandover\<close>: how a release wakes the next request
    when the manager's own callback is in place. \<open>LockQueue\<close>: an abstract lock, a queue of requests with
    a holder, as a step relation, and the simulation of the lock system by it.
  \<^item> \<open>Transport\<close> (\<open>internal/transport/grpc.go\<close>, \<open>proto.go\<close>): messages, conversions (the locale
    \<open>codec\<close>, one interpretation per message), stubs, handlers and the service description.
  \<^item> \<open>Json\<close>: encoding and decoding of JSON documents as \<open>encoding/json\<close> does it. \<open>Api\<close>
    (\<open>internal/api/server.go\<close>): the handlers, the table of routes and the HTTP server with its limits; \<open>ApiProperties\<close> and \<open>ApiTypes\<close>:
    contracts of handlers, and the invariant and the form of responses that all of them keep.
  \<^item> \<open>ClientSDK\<close> (\<open>pkg/client/client.go\<close>): the client library over an arbitrary HTTP client.
    \<open>ClientProperties\<close>: the library against the handlers, in the locale \<open>http_service\<close>.
  \<^item> \<open>Ctl\<close> (\<open>cmd/skylockctl/main.go\<close>): the commands and what the usage text promises.
  \<^item> \<open>Wiring\<close> (\<open>cmd/skylock/main.go\<close>): flags, construction, callbacks, start and shutdown,
    with the goroutine that starts the HTTP server as a step of its own.
  \<^item> This theory: properties of the wired server. The end of sessions frees their locks, and a
    change of a node reaches the watches on it.

  \<^bold>\<open>What is shown.\<close> For Raft: the contracts of the two handlers, one vote per term, election safety,
  log matching, the outcome of an election, convergence of a follower's log, safety of the commit index, the sort
  and the apply loop. For the store: it is a tree in every reachable state and implements the
  abstract tree, errors included; \<open>Create\<close> and \<open>Get\<close>, sequence numbers, versions, expiry and
  children. For sessions: times-to-live, the exact effect of the check, heartbeats in time keep a
  session, its end is announced once. For watches: histories and exact delivery. For locks: mutual
  exclusion, first come first served, the refinement of a queue lock, acquisition and release, and
  the hand-over of a released lock to the next waiting call. For the interfaces: the transport is
  transparent, the HTTP server is well typed, client and server agree on requests and answers, and
  the program comes up and shuts down cleanly once the HTTP server is set.
  Where the code fails to do what it means to, a theorem shows the behaviour that it has instead:
  two leaders of a term, a follower that never times out, lock calls that are never woken or fail
  without \<open>/locks\<close>, ephemeral nodes that stay after a late heartbeat, a version that is ignored, a
  release that deletes any node; lemmas show a leader without votes, a commit index that moves back,
  a committed entry that is lost and waiters of a lock with a slash in its name that are not notified.

  \<^bold>\<open>Bounds.\<close> Logs shorter than \<open>2 ^ 64\<close> entries, and terms that do not wrap around; in the executions
  of \<open>RaftCluster\<close> a leader proposes only while its log has fewer than \<open>2 ^ 63 - 1\<close> entries; lock names stay in order while the sequence counter
  has at most ten digits, a condition on the steps of \<open>LockSystem\<close>; data and paths that go through
  JSON and URLs are ASCII where a round trip is claimed, since the code replaces invalid UTF-8 and
  does not escape paths.

  \<^bold>\<open>Parameters.\<close> viper reads the configuration; gRPC dials, listens and delivers calls; chi routes;
  \<open>net/http\<close> carries requests; uuid makes identifiers. What is relied on is stated by
  \<open>delivers_votes\<close>, \<open>delivers_entries\<close>, \<open>routes_ok\<close>, \<open>answers\<close> and \<open>uuid_ok\<close>, each with an instance.

  \<^bold>\<open>Not modelled.\<close> Log output, except for what the logging middleware records; the sockets and
  connections of \<open>net/http\<close> and gRPC and the delivery of signals, which are outside of the sources:
  \<open>main\<close> stops where it waits for a signal and goes on with \<open>shutdown\<close>. How long \<open>Shutdown\<close> and
  \<open>GracefulStop\<close> wait for open connections is not a value. The Go interface types, the client stub that only holds
  a connection and the unused \<open>UnimplementedRaftInternalServer\<close> have no behaviour of their own. The Go
  memory model below the level of critical sections: unsynchronised reads (the node that \<open>Create\<close>
  hands to its callback) appear as values chosen by the environment. Nothing is persistent in the
  code, so there is no recovery to model.
\<close>

section \<open>Sessions and locks\<close>

text \<open>The nodes that the end of the sessions found expired takes with it.\<close>

definition swept :: "(string \<times> instant) list \<Rightarrow> 'f SessionManager \<Rightarrow> 'h Store \<Rightarrow> string \<Rightarrow> bool" where
  "swept walk m s p \<longleftrightarrow> (\<exists>n. Store_Get s p = Inr n \<and> sn_Ephemeral n \<and> expired_at walk m (sn_SessionID n))"

lemma swept_exists:
  assumes "owner_at (tree_of s') (path_elems p) = without {sid. expired_at walk m sid} (owner_at (tree_of s) (path_elems p))"
  shows "Store_Exists s' p \<longleftrightarrow> Store_Exists s p \<and> \<not> swept walk m s p"
  using assms by (auto simp: exists_owner owner_at_def without_def swept_def store_simps split: option.splits if_splits)

lemma free_if_childless:
  assumes "store_wf s" "good_elem name" "\<And>c. good_elem c \<Longrightarrow> \<not> Store_Exists s (lock_path name @ ''/'' @ c)"
  shows "\<not> IsLocked s name"
proof (cases "tree_of s (path_elems (lock_path name))")
  case (Some n)
  have "c \<notin> set (sn_Children n)" for c
  proof
    assume "c \<in> set (sn_Children n)"
    then obtain k where k: "tree_of s (path_elems (lock_path name) @ [c]) = Some k"
      using tree_wf_child [OF store_wf_tree [OF assms(1)] Some] by blast
    then have c: "good_elem c" by (auto simp: tree_of_def split: if_splits)
    have "Store_Exists s (lock_path name @ ''/'' @ c)"
      using k path_elems_child [OF c, of "lock_path name"] by (simp add: exists_owner owner_at_def)
    with assms(3) [OF c] show False by blast
  qed
  then have "sn_Children n = []" by (cases "sn_Children n") auto
  then show ?thesis by (simp add: IsLocked_def store_simps Some)
qed (simp add: IsLocked_def store_simps)


text \<open>The server as \<open>main\<close> starts it, with one session that holds the lock \<open>a\<close>.\<close>

definition example_skylock :: "(unit, expire_callback, store_callback) Server" where
  "example_skylock =
     (let put = (\<lambda>path kvs srv. fst (Server_createNode 0 0 path (Some (JObject kvs)) srv))
      in put ''locks/a/lock-'' [(''ephemeral'', JBool True), (''sequential'', JBool True), (''session_id'', JString ''s1'')]
           (put ''locks/a'' [] (put ''locks'' []
              (fst (Server_createSession ''s1'' 0 0 (Some (JObject [(''client_id'', JString ''c'')]))
                 (sk_server (wire 0 0 DefaultConfig :: (unit, unit) Skylock)))))))"

lemma createNode_sessions:
  "sm_onExpire (sv_sessionManager (fst (Server_createNode t1 t2 p b srv))) = sm_onExpire (sv_sessionManager srv)"
  "dom (sm_sessions (sv_sessionManager (fst (Server_createNode t1 t2 p b srv)))) = dom (sm_sessions (sv_sessionManager srv))"
  by (auto simp: Server_createNode_def RegisterEphemeral_def Let_def case_prod_unfold split: option.splits sum.splits)

lemma createSession_sessions:
  "sm_onExpire (sv_sessionManager (fst (Server_createSession u t1 t2 b srv))) = sm_onExpire (sv_sessionManager srv)"
  "dom (sm_sessions (sv_sessionManager (fst (Server_createSession u t1 t2 b srv)))) \<subseteq> insert u (dom (sm_sessions (sv_sessionManager srv)))"
  by (auto simp: Server_createSession_def Session_Create_def Let_def split: option.splits if_splits)

lemma example_skylock_facts:
  "server_ok example_skylock" "sm_onExpire (sv_sessionManager example_skylock) = Some CleanEphemerals"
  "finite (dom (sm_sessions (sv_sessionManager example_skylock)))"
proof -
  let ?srv = "sk_server (wire 0 0 DefaultConfig :: (unit, unit) Skylock)"
  have ok: "served_ok r \<Longrightarrow> server_ok (fst r)" for r :: "(unit, expire_callback, store_callback) served" by (simp add: served_ok_def)
  show "server_ok example_skylock"
    unfolding example_skylock_def Let_def by (intro ok handlers_ok wire_ok DefaultConfig_session_ok)
  show "sm_onExpire (sv_sessionManager example_skylock) = Some CleanEphemerals"
    unfolding example_skylock_def Let_def by (simp add: createNode_sessions createSession_sessions wire_ok(3) [OF DefaultConfig_session_ok])
  have "dom (sm_sessions (sv_sessionManager ?srv)) = {}"
    by (simp add: wire_def NewLockManager_def Let_def NewServer_def SetOnExpire_def NewSessionManager_def)
  then show "finite (dom (sm_sessions (sv_sessionManager example_skylock)))"
    unfolding example_skylock_def Let_def createNode_sessions
    by (intro finite_subset [OF createSession_sessions(2)]) simp
qed


section \<open>Changes and watches\<close>

text \<open>
  C40. A change reaches the watches: when \<open>setNode\<close> answers 200 on a server whose update callback is
  the one \<open>main\<close> installs, it has started that callback once, with the node as it is now stored;
  and when the callback runs, every open watch on the node's path that has room gets one
  data-changed event with the new data and version, and the watches on other paths are untouched.
\<close>

theorem change_reaches_watches:
  assumes "watch_wf (sv_watchManager srv)" "s_onNodeUpdate (sv_store srv) = Some WatchChanged"
    and "Server_setNode now param body srv = (srv', ev, ex, resp)" "rs_status resp = 200"
  shows "\<exists>path node wm'. path = normalizePath (node_path param) \<and> Store_Get (sv_store srv') path = Inr node \<and> ev = [GoUpdate WatchChanged path node] \<and>
    run_store_callback uuid any (hd ev) (sv_lockManager srv', sv_watchManager srv') = Some (sv_lockManager srv', wm') \<and>
    (\<forall>i < length (wm_heap (sv_watchManager srv)). let w = wm_heap (sv_watchManager srv) ! i; w' = wm_heap wm' ! i in
       if wt_Path w \<noteq> path \<or> ch_closed (wt_EventCh w) then w' = w
       else length (ch_buf (wt_EventCh w)) < 10 \<longrightarrow>
         ch_buf (wt_EventCh w') = ch_buf (wt_EventCh w) @
           [\<lparr>ev_ID = uuid, ev_Type = EventDataChanged, ev_Path = path, ev_Data = sn_Data node, ev_Version = sn_Version node\<rparr>])"
proof -
  let ?path = "normalizePath (node_path param)"
  obtain node where n: "s_nodes (sv_store srv') ?path = Some node" "ev = [GoUpdate WatchChanged ?path node]"
      "sv_watchManager srv' = sv_watchManager srv"
    using assms(2-4)
    by (auto simp: Server_setNode_def Store_Set_def go_update_def Let_def respondError_def respondJSON_def split: option.splits if_splits)
  have get: "Store_Get (sv_store srv') ?path = Inr node" using n(1) by (simp add: Store_Get_def)
  let ?e = "\<lparr>ev_ID = '''', ev_Type = EventDataChanged, ev_Path = ?path, ev_Data = sn_Data node, ev_Version = sn_Version node\<rparr>"
  obtain wm' where wm': "TriggerEvent uuid (sv_watchManager srv) ?e = Some wm'" using TriggerEvent_eq [OF assms(1)] by blast
  then have "run_store_callback uuid any (hd ev) (sv_lockManager srv', sv_watchManager srv') = Some (sv_lockManager srv', wm')"
    by (simp add: n TriggerDataChange_def)
  then show ?thesis
    using get n(2) TriggerEvent_watch [OF assms(1) wm']
    by (intro exI [of _ ?path] exI [of _ node] exI [of _ wm']) (auto simp: Let_def split: if_splits)
qed

definition example_watched :: "(unit, expire_callback, store_callback) Server" where
  "example_watched =
     (fst (Server_createNode 0 0 ''a'' (Some (JObject [])) (sk_server (wire 0 0 DefaultConfig :: (unit, unit) Skylock))))\<lparr>sv_watchManager := watch_pair\<rparr>"

theorem change_reaches_watches_witness:
  "\<exists>srv' ev ex resp wm'. Server_setNode 0 ''a'' (Some (JObject [(''data'', JString ''y'')])) example_watched = (srv', ev, ex, resp) \<and>
     run_store_callback ''e'' undefined (hd ev) (sv_lockManager srv', sv_watchManager srv') = Some (sv_lockManager srv', wm') \<and>
     (\<exists>e. ch_buf (wt_EventCh (wm_heap wm' ! 1)) = [e] \<and> ev_Type e = EventDataChanged)"
proof -
  let ?b = "Some (JObject [(''data'', JString ''y'')])"
  obtain srv' ev ex resp where run: "Server_setNode 0 ''a'' ?b example_watched = (srv', ev, ex, resp)" by (metis prod.collapse)
  have "(case Server_setNode 0 ''a'' ?b example_watched of (srv', ev, ex, resp) \<Rightarrow> rs_status resp) = 200" by code_simp
  then have st: "rs_status resp = 200" using run by simp
  have wf: "watch_wf (sv_watchManager example_watched)"
    using watch_runs.reachable_invar [OF watch_pair_reachable] by (simp add: history_ok_def example_watched_def)
  have cb: "s_onNodeUpdate (sv_store example_watched) = Some WatchChanged" by code_simp
  have heap: "length (wm_heap (sv_watchManager example_watched)) = 2" "wt_Path (wm_heap (sv_watchManager example_watched) ! 1) = ''/a''"
    "\<not> ch_closed (wt_EventCh (wm_heap (sv_watchManager example_watched) ! 1))" "ch_buf (wt_EventCh (wm_heap (sv_watchManager example_watched) ! 1)) = []"
    "normalizePath (node_path ''a'') = ''/a''" by code_simp+
  obtain path wm' and node :: StoreNode where r: "path = normalizePath (node_path ''a'')"
    "run_store_callback ''e'' undefined (hd ev) (sv_lockManager srv', sv_watchManager srv') = Some (sv_lockManager srv', wm')"
    and each: "\<forall>i < length (wm_heap (sv_watchManager example_watched)).
      let w = wm_heap (sv_watchManager example_watched) ! i; w' = wm_heap wm' ! i in
       if wt_Path w \<noteq> path \<or> ch_closed (wt_EventCh w) then w' = w
       else length (ch_buf (wt_EventCh w)) < 10 \<longrightarrow> ch_buf (wt_EventCh w') = ch_buf (wt_EventCh w) @
           [\<lparr>ev_ID = ''e'', ev_Type = EventDataChanged, ev_Path = path, ev_Data = sn_Data node, ev_Version = sn_Version node\<rparr>]"
    using change_reaches_watches [OF wf cb run st, of "''e''" undefined] by (elim exE conjE) (rule that, assumption+)
  have "ch_buf (wt_EventCh (wm_heap wm' ! 1)) =
      [\<lparr>ev_ID = ''e'', ev_Type = EventDataChanged, ev_Path = path, ev_Data = sn_Data node, ev_Version = sn_Version node\<rparr>]"
    using each [rule_format, of 1] heap r(1) by (simp add: Let_def)
  then have "\<exists>e. ch_buf (wt_EventCh (wm_heap wm' ! 1)) = [e] \<and> ev_Type e = EventDataChanged" by simp
  with run r(2) show ?thesis by blast
qed

end
